(* ===== verification/Prelude.thy ===== *)
theory Prelude
  imports Main "HOL-Library.AList" "HOL-Library.Multiset" "HOL-Library.List_Lexorder"
    "HOL-Library.Char_ord"
begin

text \<open>
  Shared vocabulary of the development. Go strings and byte slices are
  \<open>string\<close> (a list of bytes), compared in byte order (List_Lexorder over Char_ord is Go's
  \<open>sort.Strings\<close> order). Go maps are association lists with distinct keys: the list order
  plays the part of one (arbitrary) iteration order of the map. Go's \<open>int\<close> is \<open>int\<close>.
  The section on sorting models \<open>sort.SliceStable\<close>, whose comparison function need not be a
  weak order in this program, as the insertion sort the Go library runs on short slices.
\<close>

section \<open>Collections of hints\<close>

named_theorems invI \<open>introduction rules that establish a component's invariant\<close>
named_theorems invD \<open>facts that follow from a component's invariant\<close>

type_synonym bytes = string
type_synonym ('k, 'v) gomap = "('k \<times> 'v) list"

section \<open>Go maps as association lists with distinct keys\<close>

abbreviation keys :: "('k, 'v) gomap \<Rightarrow> 'k list" where
  "keys m \<equiv> map fst m"

abbreviation wf_map :: "('k, 'v) gomap \<Rightarrow> bool" where
  "wf_map m \<equiv> distinct (map fst m)"

abbreviation get :: "('k, 'v) gomap \<Rightarrow> 'k \<Rightarrow> 'v option" where
  "get \<equiv> map_of"

definition put :: "'k \<Rightarrow> 'v \<Rightarrow> ('k, 'v) gomap \<Rightarrow> ('k, 'v) gomap" where
  "put = AList.update"

definition del :: "'k \<Rightarrow> ('k, 'v) gomap \<Rightarrow> ('k, 'v) gomap" where
  "del = AList.delete"

definition get_or :: "'v \<Rightarrow> ('k, 'v) gomap \<Rightarrow> 'k \<Rightarrow> 'v" where
  "get_or d m k = (case get m k of None \<Rightarrow> d | Some v \<Rightarrow> v)"

lemma get_put [simp]: "get (put k v m) k' = (if k = k' then Some v else get m k')"
  by (simp add: put_def update_conv)

lemma get_del [simp]: "get (del k m) k' = (if k = k' then None else get m k')"
  by (simp add: del_def delete_conv)

lemma wf_put [intro, simp]: "wf_map m \<Longrightarrow> wf_map (put k v m)"
  by (simp add: put_def distinct_update)

lemma wf_del [intro, simp]: "wf_map m \<Longrightarrow> wf_map (del k m)"
  by (simp add: del_def distinct_delete)

lemma del_simps [simp]:
  "del k [] = []"
  "del k ((k', v) # m) = (if k = k' then del k m else (k', v) # del k m)"
  by (simp_all add: del_def)

lemma put_simps [simp]:
  "put k v [] = [(k, v)]"
  "put k v ((k', v') # m) = (if k' = k then (k, v) # m else (k', v') # put k v m)"
  by (simp_all add: put_def)

lemma del_filter: "del k m = filter (\<lambda>p. k \<noteq> fst p) m"
  by (simp add: del_def AList.delete_eq case_prod_unfold)

lemma set_del: "set (del k m) = {p \<in> set m. fst p \<noteq> k}"
  by (auto simp: del_filter)

lemma del_absent: "get m k = None \<Longrightarrow> del k m = m"
  by (induction m) (auto split: if_splits)

lemma put_absent: "get m k = None \<Longrightarrow> put k v m = m @ [(k, v)]"
  by (induction m) (auto split: if_splits)

lemma length_del_present:
  assumes "wf_map m" and "get m k = Some v"
  shows "Suc (length (del k m)) = length m"
  using assms by (induction m) (auto split: if_splits simp: del_absent map_of_eq_None_iff)

lemma length_del_le: "length (del k m) \<le> length m"
  by (induction m) auto

lemma length_put:
  "length (put k v m) = (if get m k = None then Suc (length m) else length m)"
  by (induction m) (auto split: if_splits)

lemma set_put: "set (put k v m) \<subseteq> insert (k, v) (set m)"
  by (induction m) (auto split: if_splits)

lemma sum_del_present:
  fixes f :: "'v \<Rightarrow> int"
  assumes "wf_map m" and "get m k = Some v"
  shows "(\<Sum>p\<leftarrow>del k m. f (snd p)) = (\<Sum>p\<leftarrow>m. f (snd p)) - f v"
  using assms
proof (induction m)
  case Nil
  then show ?case by simp
next
  case (Cons p m)
  obtain k' v' where p: "p = (k', v')" by (cases p)
  show ?case
  proof (cases "k = k'")
    case True
    with Cons.prems p have "get m k = None" by (auto simp: map_of_eq_None_iff)
    with True Cons.prems p show ?thesis by (simp add: del_absent)
  next
    case False
    with Cons p show ?thesis by simp
  qed
qed

lemma in_set_get: "wf_map m \<Longrightarrow> (k, v) \<in> set m \<longleftrightarrow> get m k = Some v"
  by (auto dest: map_of_SomeD)

lemma filter_map_get:
  assumes "wf_map m"
  shows "get (filter (\<lambda>p. P (fst p) (snd p)) m) k =
    (case get m k of None \<Rightarrow> None | Some v \<Rightarrow> if P k v then Some v else None)"
  using assms
  by (induction m) (auto split: option.splits simp: map_of_eq_None_iff)

lemma wf_filter [intro, simp]: "wf_map m \<Longrightarrow> wf_map (filter P m)"
  by (induction m) auto

section \<open>Grouping\<close>

text \<open>
  The loop \<open>groups[key(x)] = append(groups[key(x)], x)\<close>: the keys in the order they first
  appear, each with its elements in their order.
\<close>

definition group_step :: "('a \<Rightarrow> 'k) \<Rightarrow> 'a \<Rightarrow> ('k, 'a list) gomap \<Rightarrow> ('k, 'a list) gomap" where
  "group_step key x m = put (key x) (get_or [] m (key x) @ [x]) m"

definition group_into :: "('a \<Rightarrow> 'k) \<Rightarrow> 'a list \<Rightarrow> ('k, 'a list) gomap" where
  "group_into key xs = fold (group_step key) xs []"

lemma group_into_snoc:
  "group_into key (xs @ [x]) = group_step key x (group_into key xs)"
  by (simp add: group_into_def)

lemma wf_group_into [simp]: "wf_map (group_into key xs)"
  by (induction xs rule: rev_induct) (simp_all add: group_into_snoc group_step_def group_into_def)

lemma get_group_into:
  "get (group_into key xs) k =
     (if k \<in> key ` set xs then Some (filter (\<lambda>x. key x = k) xs) else None)"
proof (induction xs rule: rev_induct)
  case Nil
  then show ?case by (simp add: group_into_def)
next
  case (snoc x xs)
  show ?case
  proof (cases "key x = k")
    case False
    with snoc show ?thesis by (auto simp: group_into_snoc group_step_def)
  next
    case True
    have "filter (\<lambda>y. key y = k) xs = []" if "k \<notin> key ` set xs"
      using that by (auto simp: filter_empty_conv)
    with True snoc show ?thesis by (auto simp: group_into_snoc group_step_def get_or_def)
  qed
qed

lemma get_or_group_into [simp]: "get_or [] (group_into key xs) k = filter (\<lambda>x. key x = k) xs"
proof (cases "k \<in> key ` set xs")
  case True
  then show ?thesis by (simp add: get_or_def get_group_into)
next
  case False
  then have "filter (\<lambda>x. key x = k) xs = []" by (auto simp: filter_empty_conv)
  with False show ?thesis by (simp add: get_or_def get_group_into)
qed

lemma group_into_elem:
  assumes "(k, ys) \<in> set (group_into key xs)"
  shows "ys = filter (\<lambda>x. key x = k) xs \<and> ys \<noteq> []"
proof -
  have g: "get (group_into key xs) k = Some ys"
    using in_set_get [OF wf_group_into] assms by metis
  have k: "k \<in> key ` set xs" using g get_group_into [of key xs k] by (metis option.distinct(1))
  then have ys: "ys = filter (\<lambda>x. key x = k) xs" using g get_group_into [of key xs k] by simp
  from k obtain x where "x \<in> set xs" "key x = k" by blast
  then have "x \<in> set ys" unfolding ys by simp
  with ys show ?thesis by (metis empty_iff empty_set)
qed

lemma distinct_concat_map:
  assumes "distinct xs" and "\<And>x. x \<in> set xs \<Longrightarrow> distinct (f x)"
    and "\<And>x y. x \<in> set xs \<Longrightarrow> y \<in> set xs \<Longrightarrow> x \<noteq> y \<Longrightarrow> set (f x) \<inter> set (f y) = {}"
  shows "distinct (concat (map f xs))"
  using assms
proof (induction xs)
  case Nil
  then show ?case by simp
next
  case (Cons x xs)
  have "set (f x) \<inter> set (f y) = {}" if "y \<in> set xs" for y
    using that Cons.prems(1) by (intro Cons.prems(3)) auto
  then have "set (f x) \<inter> set (concat (map f xs)) = {}" by (simp add: Int_UN_distrib)
  moreover have "distinct (concat (map f xs))"
    using Cons.prems by (intro Cons.IH) simp_all
  ultimately show ?case using Cons.prems(2) by simp
qed

section \<open>Stable insertion sort with an arbitrary comparison\<close>

text \<open>
  The Go library's insertion sort moves each element leftwards past the elements it is less
  than and stops at the first it is not less than. The sorted prefix is kept reversed, so
  that its right end is the head of the list.
\<close>

fun sift :: "('a \<Rightarrow> 'a \<Rightarrow> bool) \<Rightarrow> 'a \<Rightarrow> 'a list \<Rightarrow> 'a list" where
  "sift lt x [] = [x]"
| "sift lt x (y # r) = (if lt x y then y # sift lt x r else x # y # r)"

definition sort_stable :: "('a \<Rightarrow> 'a \<Rightarrow> bool) \<Rightarrow> 'a list \<Rightarrow> 'a list" where
  "sort_stable lt xs = rev (fold (sift lt) xs [])"

lemma mset_sift [simp]: "mset (sift lt x r) = add_mset x (mset r)"
  by (induction r) auto

lemma mset_fold_sift: "mset (fold (sift lt) xs r) = mset xs + mset r"
  by (induction xs arbitrary: r) auto

lemma mset_sort_stable [simp]: "mset (sort_stable lt xs) = mset xs"
  by (simp add: sort_stable_def mset_fold_sift)

lemma set_sort_stable [simp]: "set (sort_stable lt xs) = set xs"
  by (metis mset_sort_stable set_mset_mset)

lemma length_sort_stable [simp]: "length (sort_stable lt xs) = length xs"
  by (metis mset_sort_stable size_mset)

lemma distinct_sort_stable [simp]: "distinct (sort_stable lt xs) = distinct xs"
  by (metis mset_sort_stable mset_eq_imp_distinct_iff)

lemma sort_stable_Nil [simp]: "sort_stable lt [] = []"
  by (simp add: sort_stable_def)

text \<open>
  A comparison that refines a numeric key sorts by that key, whatever it does among elements
  of equal key.
\<close>

definition refines_key :: "('a \<Rightarrow> 'a \<Rightarrow> bool) \<Rightarrow> ('a \<Rightarrow> int) \<Rightarrow> bool" where
  "refines_key lt f \<longleftrightarrow>
     (\<forall>x y. f x < f y \<longrightarrow> lt x y) \<and> (\<forall>x y. lt x y \<longrightarrow> f x \<le> f y)"

lemma sorted_sift:
  assumes "refines_key lt f" and "sorted_wrt (\<lambda>a b. f b \<le> f a) r"
  shows "sorted_wrt (\<lambda>a b. f b \<le> f a) (sift lt x r)"
  using assms(2)
proof (induction r)
  case Nil
  then show ?case by simp
next
  case (Cons y r)
  have set: "set (sift lt x r) = insert x (set r)"
    by (metis mset_sift set_mset_mset set_mset_add_mset_insert)
  show ?case
  proof (cases "lt x y")
    case True
    with assms(1) have "f x \<le> f y" by (simp add: refines_key_def)
    with Cons True show ?thesis by (auto simp: set)
  next
    case False
    with assms(1) have "f y \<le> f x" by (meson refines_key_def not_le)
    with Cons False show ?thesis by fastforce
  qed
qed

lemma sorted_sort_stable:
  assumes "refines_key lt f"
  shows "sorted (map f (sort_stable lt xs))"
proof -
  have "sorted_wrt (\<lambda>a b. f b \<le> f a) (fold (sift lt) xs r)"
    if "sorted_wrt (\<lambda>a b. f b \<le> f a) r" for r
    using that by (induction xs arbitrary: r) (auto intro: sorted_sift [OF assms])
  from this [of "[]"] show ?thesis
    by (simp add: sort_stable_def sorted_map sorted_wrt_rev)
qed

section \<open>Appending without duplicates\<close>

fun append_unique :: "'a list \<Rightarrow> 'a \<Rightarrow> 'a list" where
  "append_unique v s = (if s \<in> set v then v else v @ [s])"

lemma set_append_unique [simp]: "set (append_unique v s) = insert s (set v)"
  by auto

lemma distinct_append_unique: "distinct v \<Longrightarrow> distinct (append_unique v s)"
  by simp

declare append_unique.simps [simp del]

lemma set_fold_append_unique: "set (fold (\<lambda>s v. append_unique v s) xs v) = set v \<union> set xs"
  by (induction xs arbitrary: v) auto

lemma distinct_fold_append_unique:
  "distinct v \<Longrightarrow> distinct (fold (\<lambda>s v. append_unique v s) xs v)"
  by (induction xs arbitrary: v) (auto simp: distinct_append_unique)

end
