(* ===== verification/GoStrings.thy ===== *)
theory GoStrings
  imports Prelude "HOL-Library.Sublist"
begin

text \<open>
  The part of Go's \<open>strings\<close>, \<open>strconv\<close> and \<open>fmt\<close> the program uses, over byte strings.
  \<open>trim_space\<close> strips the UTF-8 encodings of every Unicode white-space character, as
  \<open>strings.TrimSpace\<close> does. \<open>to_lower\<close> lowers the letters A to Z and leaves every other byte
  alone: it is \<open>strings.ToLower\<close> on text whose letters outside ASCII have no case (CJK titles
  and group names), and on ASCII text.
\<close>

section \<open>White space\<close>

definition utf8_spaces :: "string list" where
  "utf8_spaces =
     map (\<lambda>n. [char_of (n :: nat)]) [9, 10, 11, 12, 13, 32] @
     map (map (char_of :: nat \<Rightarrow> char))
       ([[0xC2, 0x85], [0xC2, 0xA0], [0xE1, 0x9A, 0x80]] @
        map (\<lambda>n. [0xE2, 0x80, n]) [0x80 ..< 0x8B] @
        [[0xE2, 0x80, 0xA8], [0xE2, 0x80, 0xA9], [0xE2, 0x80, 0xAF],
         [0xE2, 0x81, 0x9F], [0xE3, 0x80, 0x80]])"

function strip_any :: "string list \<Rightarrow> string \<Rightarrow> string" where
  "strip_any ws s =
     (case find (\<lambda>w. w \<noteq> [] \<and> prefix w s) ws of
        None \<Rightarrow> s
      | Some w \<Rightarrow> strip_any ws (drop (length w) s))"
  by pat_completeness auto
termination
  by (relation "measure (\<lambda>(ws, s). length s)") (auto simp: find_Some_iff prefix_def)

declare strip_any.simps [simp del]

definition trim_space :: "string \<Rightarrow> string" where
  "trim_space s =
     rev (strip_any (map rev utf8_spaces) (rev (strip_any utf8_spaces s)))"

lemma strip_any_none: "find (\<lambda>w. w \<noteq> [] \<and> prefix w (strip_any ws s)) ws = None"
  by (induction ws s rule: strip_any.induct)
    (subst strip_any.simps, auto split: option.splits)

lemma strip_any_fix: "find (\<lambda>w. w \<noteq> [] \<and> prefix w s) ws = None \<Longrightarrow> strip_any ws s = s"
  by (simp add: strip_any.simps)

lemma strip_any_Nil [simp]: "strip_any ws [] = []"
  by (rule strip_any_fix) (simp add: find_None_iff)

text \<open>The spaces written out, for evaluation.\<close>

lemma utf8_spaces_code [code]:
  "utf8_spaces =
    [[CHR 0x09], [CHR 0x0A], [CHR 0x0B], [CHR 0x0C], [CHR 0x0D], [CHR 0x20], [CHR 0xC2, CHR 0x85],
      [CHR 0xC2, CHR 0xA0], [CHR 0xE1, CHR 0x9A, CHR 0x80], [CHR 0xE2, CHR 0x80, CHR 0x80],
      [CHR 0xE2, CHR 0x80, CHR 0x81], [CHR 0xE2, CHR 0x80, CHR 0x82], [CHR 0xE2, CHR 0x80, CHR 0x83],
      [CHR 0xE2, CHR 0x80, CHR 0x84], [CHR 0xE2, CHR 0x80, CHR 0x85], [CHR 0xE2, CHR 0x80, CHR 0x86],
      [CHR 0xE2, CHR 0x80, CHR 0x87], [CHR 0xE2, CHR 0x80, CHR 0x88], [CHR 0xE2, CHR 0x80, CHR 0x89],
      [CHR 0xE2, CHR 0x80, CHR 0x8A], [CHR 0xE2, CHR 0x80, CHR 0xA8], [CHR 0xE2, CHR 0x80, CHR 0xA9],
      [CHR 0xE2, CHR 0x80, CHR 0xAF], [CHR 0xE2, CHR 0x81, CHR 0x9F], [CHR 0xE3, CHR 0x80, CHR 0x80]]"
  by (simp add: utf8_spaces_def upt_rec char_of_def bit_numeral_rec bit_0)

text \<open>The equation for evaluation: the recursion waits until the prefix is known.\<close>

definition strip_next :: "string list \<Rightarrow> string \<Rightarrow> string option \<Rightarrow> string" where
  "strip_next ws s found =
     (case found of None \<Rightarrow> s | Some w \<Rightarrow> strip_any ws (drop (length w) s))"

lemma strip_next_code [code]:
  "strip_next ws s None = s"
  "strip_next ws s (Some w) = strip_any ws (drop (length w) s)"
  by (simp_all add: strip_next_def)

lemma strip_any_code [code]:
  "strip_any ws s = strip_next ws s (find (\<lambda>w. w \<noteq> [] \<and> prefix w s) ws)"
  by (subst strip_any.simps) (simp add: strip_next_def)

lemma strip_any_idem [simp]: "strip_any ws (strip_any ws s) = strip_any ws s"
  by (rule strip_any_fix [OF strip_any_none])

lemma strip_any_suffix: "suffix (strip_any ws s) s"
proof (induction ws s rule: strip_any.induct)
  case (1 ws s)
  then show ?case
    by (subst strip_any.simps) (auto split: option.splits intro: suffix_order.trans suffix_drop)
qed

lemma trim_space_idem [simp]: "trim_space (trim_space s) = trim_space s"
proof -
  let ?l = "strip_any utf8_spaces s" and ?t = "trim_space s"
  have "suffix (rev ?t) (rev ?l)"
    by (simp add: trim_space_def strip_any_suffix)
  then have pre: "prefix ?t ?l"
    by (simp add: suffix_to_prefix)
  have "find (\<lambda>w. w \<noteq> [] \<and> prefix w ?t) utf8_spaces = None"
    using strip_any_none [of utf8_spaces s] pre
    by (auto simp: find_None_iff intro: prefix_order.trans)
  then have "strip_any utf8_spaces ?t = ?t"
    by (rule strip_any_fix)
  then show ?thesis by (simp add: trim_space_def)
qed

text \<open>A text that starts and ends with a visible ASCII character is already trimmed.\<close>

definition visible :: "char \<Rightarrow> bool" where
  "visible c \<longleftrightarrow> 33 \<le> (of_char c :: nat) \<and> (of_char c :: nat) \<le> 126"

lemma visible_not_space: "w \<in> set utf8_spaces \<Longrightarrow> c \<in> set w \<Longrightarrow> \<not> visible c"
proof -
  have "\<forall>w \<in> set utf8_spaces. \<forall>c \<in> set w. \<not> visible c"
    by (simp add: utf8_spaces_def visible_def upt_rec)
  then show "w \<in> set utf8_spaces \<Longrightarrow> c \<in> set w \<Longrightarrow> \<not> visible c" by blast
qed

lemma strip_any_visible:
  assumes "s \<noteq> []" and "visible (hd s)" and "\<forall>w \<in> set ws. \<forall>c \<in> set w. \<not> visible c"
  shows "strip_any ws s = s"
proof (rule strip_any_fix)
  have "w = []" if "w \<in> set ws" "prefix w s" for w
  proof (rule ccontr)
    assume "w \<noteq> []"
    then have "hd w = hd s" using \<open>prefix w s\<close> by (auto simp: prefix_def)
    with \<open>w \<noteq> []\<close> have "hd s \<in> set w" by (metis hd_in_set)
    with assms(2,3) \<open>w \<in> set ws\<close> show False by blast
  qed
  then show "find (\<lambda>w. w \<noteq> [] \<and> prefix w s) ws = None" by (auto simp: find_None_iff)
qed

lemma trim_space_ends:
  assumes "s \<noteq> []" and "visible (hd s)" and "visible (last s)"
  shows "trim_space s = s"
proof -
  have "strip_any utf8_spaces s = s"
    using assms visible_not_space by (intro strip_any_visible) auto
  moreover have "strip_any (map rev utf8_spaces) (rev s) = rev s"
    using assms visible_not_space by (intro strip_any_visible) (auto simp: hd_rev)
  ultimately show ?thesis by (simp add: trim_space_def)
qed

lemma trim_space_length: "length (trim_space s) \<le> length s"
proof -
  have "length (strip_any ws t) \<le> length t" for ws t
    using strip_any_suffix [of ws t] by (rule suffix_length_le)
  then show ?thesis unfolding trim_space_def by (metis length_rev le_trans)
qed

lemma trim_space_set: "set (trim_space s) \<subseteq> set s"
proof -
  have "set (strip_any ws t) \<subseteq> set t" for ws t
    using strip_any_suffix [of ws t] by (rule set_mono_suffix)
  then show ?thesis unfolding trim_space_def by (metis set_rev subset_trans)
qed

lemma trim_space_Nil [simp]: "trim_space [] = []"
  by (simp add: trim_space_def)

section \<open>Case\<close>

definition lower_char :: "char \<Rightarrow> char" where
  "lower_char c =
     (let n = of_char c :: nat in if 65 \<le> n \<and> n \<le> 90 then char_of (n + 32) else c)"

definition to_lower :: "string \<Rightarrow> string" where
  "to_lower s = map lower_char s"

lemma lower_char_idem [simp]: "lower_char (lower_char c) = lower_char c"
  by (auto simp: lower_char_def Let_def)

lemma to_lower_idem [simp]: "to_lower (to_lower s) = to_lower s"
  by (simp add: to_lower_def)

lemma to_lower_simps [simp]:
  "to_lower [] = []" "to_lower (c # s) = lower_char c # to_lower s"
  "to_lower (s @ t) = to_lower s @ to_lower t" "length (to_lower s) = length s"
  "to_lower s = [] \<longleftrightarrow> s = []" "rev (to_lower s) = to_lower (rev s)"
  by (simp_all add: to_lower_def rev_map)

section \<open>Decimal numbers\<close>

definition digit_char :: "nat \<Rightarrow> char" where
  "digit_char d = char_of (48 + d)"

definition is_digit :: "char \<Rightarrow> bool" where
  "is_digit c \<longleftrightarrow> (let n = of_char c :: nat in 48 \<le> n \<and> n \<le> 57)"

definition digit_val :: "char \<Rightarrow> nat" where
  "digit_val c = of_char c - 48"

fun show_nat :: "nat \<Rightarrow> string" where
  "show_nat n = (if n < 10 then [digit_char n] else show_nat (n div 10) @ [digit_char (n mod 10)])"

declare show_nat.simps [simp del]

definition show_nat_step :: "bool \<Rightarrow> nat \<Rightarrow> string" where
  "show_nat_step small n = (if small then [digit_char n] else show_nat (n div 10) @ [digit_char (n mod 10)])"

lemma show_nat_code [code]:
  "show_nat n = show_nat_step (n < 10) n"
  "show_nat_step True n = [digit_char n]"
  "show_nat_step False n = show_nat (n div 10) @ [digit_char (n mod 10)]"
  by (simp_all add: show_nat_step_def show_nat.simps)

definition read_digits :: "string \<Rightarrow> nat" where
  "read_digits s = foldl (\<lambda>a c. 10 * a + digit_val c) 0 s"

definition show_int :: "int \<Rightarrow> string" where
  "show_int i = (if i < 0 then ''-'' else []) @ show_nat (nat \<bar>i\<bar>)"

text \<open>\<open>pad0 w i\<close> is \<open>fmt.Sprintf("%0wd", i)\<close>: the sign counts towards the width.\<close>

definition pad0 :: "nat \<Rightarrow> int \<Rightarrow> string" where
  "pad0 w i =
     (let d = show_nat (nat \<bar>i\<bar>); w' = (if i < 0 then w - 1 else w)
      in (if i < 0 then ''-'' else []) @ replicate (w' - length d) CHR ''0'' @ d)"

definition show_bool :: "bool \<Rightarrow> string" where
  "show_bool b = (if b then ''true'' else ''false'')"

lemma digit_char_props [simp]:
  "d < 10 \<Longrightarrow> is_digit (digit_char d)" "d < 10 \<Longrightarrow> digit_val (digit_char d) = d"
  by (simp_all add: is_digit_def digit_char_def digit_val_def Let_def)

lemma show_nat_digits: "\<forall>c \<in> set (show_nat n). is_digit c"
proof (induction n rule: show_nat.induct)
  case (1 n)
  then show ?case by (subst show_nat.simps) auto
qed

lemma show_nat_nonempty [simp]: "show_nat n \<noteq> []"
  by (subst show_nat.simps) simp

lemma read_show_nat: "read_digits (show_nat n) = n"
proof (induction n rule: show_nat.induct)
  case (1 n)
  show ?case
  proof (cases "n < 10")
    case True
    then show ?thesis by (subst show_nat.simps) (simp add: read_digits_def)
  next
    case False
    with 1 have "read_digits (show_nat (n div 10)) = n div 10" by simp
    with False show ?thesis
      by (subst show_nat.simps) (simp add: read_digits_def)
  qed
qed

lemma read_digits_zeros: "read_digits (replicate k CHR ''0'' @ s) = read_digits s"
  by (induction k) (auto simp: read_digits_def digit_val_def)

lemma is_digit_zero [simp]: "is_digit CHR ''0''"
  by (simp add: is_digit_def Let_def)

lemma not_digit [simp]: "\<not> is_digit CHR ''-''" "\<not> is_digit CHR ''/''" "\<not> is_digit CHR '':''"
  "\<not> is_digit CHR ''e''"
  by (simp_all add: is_digit_def Let_def)

text \<open>A rendered number is a sign and a non-empty run of digits with the number's value.\<close>

lemma pad0_form:
  obtains ds where "pad0 w i = (if i < 0 then ''-'' else []) @ ds" "ds \<noteq> []"
    "\<forall>c \<in> set ds. is_digit c" "read_digits ds = nat \<bar>i\<bar>"
proof
  let ?d = "show_nat (nat \<bar>i\<bar>)" and ?w = "if i < 0 then w - 1 else w"
  let ?ds = "replicate (?w - length ?d) CHR ''0'' @ ?d"
  show "pad0 w i = (if i < 0 then ''-'' else []) @ ?ds" by (simp add: pad0_def Let_def)
  show "?ds \<noteq> []" by simp
  show "\<forall>c \<in> set ?ds. is_digit c" using show_nat_digits by auto
  show "read_digits ?ds = nat \<bar>i\<bar>" by (simp add: read_digits_zeros read_show_nat)
qed

lemma pad0_no_slash: "CHR ''/'' \<notin> set (pad0 w i)"
proof -
  obtain ds where "pad0 w i = (if i < 0 then ''-'' else []) @ ds"
    and "\<forall>c \<in> set ds. is_digit c" by (rule pad0_form)
  then show ?thesis using not_digit(2) by auto
qed

lemma digits_prefix_unique:
  assumes "\<forall>c \<in> set ds. is_digit c" and "\<forall>c \<in> set ds'. is_digit c"
    and "\<not> is_digit c" and "\<not> is_digit c'"
    and "ds @ c # r = ds' @ c' # r'"
  shows "ds = ds' \<and> c # r = c' # r'"
proof -
  have "takeWhile is_digit (ds @ c # r) = ds" "takeWhile is_digit (ds' @ c' # r') = ds'"
    using assms(1-4) by simp_all
  with assms(5) show ?thesis by simp
qed

text \<open>Two rendered numbers followed by the same non-digit are read back unambiguously.\<close>

lemma pad0_sep_inj:
  assumes "\<not> is_digit c" and "pad0 w i @ c # r = pad0 w i' @ c # r'"
  shows "i = i' \<and> r = r'"
proof -
  obtain ds where ds: "pad0 w i = (if i < 0 then ''-'' else []) @ ds" "ds \<noteq> []"
    "\<forall>c \<in> set ds. is_digit c" "read_digits ds = nat \<bar>i\<bar>" by (rule pad0_form)
  obtain ds' where ds': "pad0 w i' = (if i' < 0 then ''-'' else []) @ ds'" "ds' \<noteq> []"
    "\<forall>c \<in> set ds'. is_digit c" "read_digits ds' = nat \<bar>i'\<bar>" by (rule pad0_form)
  have neg: "i < 0 \<longleftrightarrow> i' < 0"
  proof (rule ccontr)
    assume "(i < 0) \<noteq> (i' < 0)"
    with assms(2) ds(1,2) ds'(1,2) have "hd ds = CHR ''-'' \<or> hd ds' = CHR ''-''"
      by (cases ds; cases ds') (auto split: if_splits)
    with ds(2,3) ds'(2,3) show False by (metis hd_in_set not_digit(1))
  qed
  with assms(2) ds(1) ds'(1) have "ds @ c # r = ds' @ c # r'" by (auto split: if_splits)
  from digits_prefix_unique [OF ds(3) ds'(3) assms(1) assms(1) this]
  have "ds = ds'" "r = r'" by auto
  moreover from this ds(4) ds'(4) neg have "i = i'" by (auto split: if_splits)
  ultimately show ?thesis by simp
qed

lemma pad0_inj: "pad0 w i = pad0 w i' \<Longrightarrow> i = i'"
  using pad0_sep_inj [of "CHR ''/''" w i "[]" i' "[]"] by simp

section \<open>Splitting at a separator\<close>

lemma last_sep_unique:
  assumes "c \<notin> set y" and "c \<notin> set y'" and "x @ c # y = x' @ c # y'"
  shows "x = x' \<and> y = y'"
proof -
  have "rev y @ c # rev x = rev y' @ c # rev x'"
    using arg_cong [OF assms(3), of rev] by simp
  moreover have "takeWhile (\<lambda>d. d \<noteq> c) (rev z @ c # r) = rev z" if "c \<notin> set z" for z r
    using that by (subst takeWhile_append2) auto
  ultimately show ?thesis using assms(1,2) by (metis append_same_eq list.inject rev_is_rev_conv same_append_eq)
qed

text \<open>\<open>strings.Split(s, sep)\<close> for a one-byte separator.\<close>

fun split_on :: "char \<Rightarrow> string \<Rightarrow> string list" where
  "split_on c [] = [[]]"
| "split_on c (d # s) =
     (if d = c then [] # split_on c s
      else case split_on c s of [] \<Rightarrow> [[d]] | p # ps \<Rightarrow> (d # p) # ps)"

fun join_with :: "string \<Rightarrow> string list \<Rightarrow> string" where
  "join_with sep [] = []"
| "join_with sep [p] = p"
| "join_with sep (p # q # ps) = p @ sep @ join_with sep (q # ps)"

lemma split_on_nonempty [simp]: "split_on c s \<noteq> []"
  by (induction s) (auto split: list.splits)

lemma join_split: "join_with [c] (split_on c s) = s"
proof (induction s)
  case Nil
  then show ?case by simp
next
  case (Cons d s)
  then show ?case
    by (cases "split_on c s"; cases "tl (split_on c s)") auto
qed

lemma split_on_no_sep: "p \<in> set (split_on c s) \<Longrightarrow> c \<notin> set p"
  by (induction s arbitrary: p) (auto split: if_splits list.splits)

lemma split_on_atom: "c \<notin> set p \<Longrightarrow> split_on c p = [p]"
  by (induction p) auto

lemma split_on_app: "c \<notin> set p \<Longrightarrow> split_on c (p @ c # s) = p # split_on c s"
  by (induction p) auto

lemma split_join:
  "ps \<noteq> [] \<Longrightarrow> \<forall>p \<in> set ps. c \<notin> set p \<Longrightarrow> split_on c (join_with [c] ps) = ps"
  by (induction "[c]" ps rule: join_with.induct) (auto simp: split_on_atom split_on_app)

section \<open>Fields\<close>

text \<open>\<open>strings.Fields\<close>: the maximal runs between white-space characters.\<close>

definition space_at :: "string \<Rightarrow> string option" where
  "space_at s = find (\<lambda>w. w \<noteq> [] \<and> prefix w s) utf8_spaces"

definition flush :: "string \<Rightarrow> string list" where
  "flush acc = (if acc = [] then [] else [rev acc])"

function fields_loop :: "string \<Rightarrow> string \<Rightarrow> string list" where
  "fields_loop acc [] = flush acc"
| "fields_loop acc (c # cs) =
     (case space_at (c # cs) of
        Some w \<Rightarrow> flush acc @ fields_loop [] (drop (length w) (c # cs))
      | None \<Rightarrow> fields_loop (c # acc) cs)"
  by pat_completeness auto
termination
  by (relation "measure (\<lambda>(acc, s). length s)")
    (auto simp: space_at_def find_Some_iff)

declare fields_loop.simps(2) [simp del]

definition split_fields :: "string \<Rightarrow> string list" where
  "split_fields s = fields_loop [] s"

lemma fields_loop_nonempty: "f \<in> set (fields_loop acc s) \<Longrightarrow> f \<noteq> []"
proof (induction acc s rule: fields_loop.induct)
  case (1 acc)
  then show ?case by (auto simp: flush_def split: if_splits)
next
  case (2 acc c cs)
  then show ?case
    by (cases "space_at (c # cs)") (auto simp: fields_loop.simps(2) flush_def split: if_splits)
qed

lemma split_fields_nonempty: "f \<in> set (split_fields s) \<Longrightarrow> f \<noteq> []"
  by (simp add: split_fields_def fields_loop_nonempty)

end
