(* ===== verification/Regex.thy ===== *)
theory Regex
  imports GoStrings
begin

text \<open>
  The regular expressions of Go's \<open>regexp\<close> the program uses, with its leftmost-first
  semantics: \<open>results r s i c\<close> lists the ways \<open>r\<close> can match \<open>s\<close> from position \<open>i\<close>, the
  preferred one first, each with its end and its captured groups. \<open>find_match\<close> is
  \<open>FindStringSubmatchIndex\<close>. \<open>results_span\<close> relates the engine to the language of the
  expression, stated as an inductive relation.
\<close>

datatype re =
    Eps
  | Cls "char \<Rightarrow> bool"
  | Seq re re
  | Alt re re
  | Star re
  | Cap nat re
  | Bos
  | Eos
  | WordB

type_synonym caps = "(nat \<times> nat \<times> nat) list"

definition is_word :: "char \<Rightarrow> bool" where
  "is_word c \<longleftrightarrow>
     (let n = of_char c :: nat
      in (48 \<le> n \<and> n \<le> 57) \<or> (65 \<le> n \<and> n \<le> 90) \<or> n = 95 \<or> (97 \<le> n \<and> n \<le> 122))"

definition at_word_boundary :: "string \<Rightarrow> nat \<Rightarrow> bool" where
  "at_word_boundary s i \<longleftrightarrow>
     (0 < i \<and> i \<le> length s \<and> is_word (s ! (i - 1))) \<noteq> (i < length s \<and> is_word (s ! i))"

function results :: "re \<Rightarrow> string \<Rightarrow> nat \<Rightarrow> caps \<Rightarrow> (nat \<times> caps) list" where
  "results Eps s i c = [(i, c)]"
| "results (Cls p) s i c = (if i < length s \<and> p (s ! i) then [(Suc i, c)] else [])"
| "results (Seq a b) s i c =
     concat (map (\<lambda>x. results b s (fst x) (snd x)) (results a s i c))"
| "results (Alt a b) s i c = results a s i c @ results b s i c"
| "results (Star a) s i c =
     concat (map (\<lambda>x. if i < fst x \<and> fst x \<le> length s
                        then results (Star a) s (fst x) (snd x) else [])
                 (results a s i c)) @ [(i, c)]"
| "results (Cap k a) s i c =
     map (\<lambda>x. (fst x, (k, i, fst x) # snd x)) (results a s i c)"
| "results Bos s i c = (if i = 0 then [(i, c)] else [])"
| "results Eos s i c = (if i = length s then [(i, c)] else [])"
| "results WordB s i c = (if at_word_boundary s i then [(i, c)] else [])"
  by pat_completeness auto
termination
  by (relation "measures [\<lambda>(r, s, i, c). size r, \<lambda>(r, s, i, c). length s - i]") auto

lemmas results_Star = results.simps(5)
declare results_Star [simp del]

text \<open>The language of an expression, as spans of the subject.\<close>

inductive spans :: "re \<Rightarrow> string \<Rightarrow> nat \<Rightarrow> nat \<Rightarrow> bool" where
  eps: "spans Eps s i i"
| cls: "i < length s \<Longrightarrow> p (s ! i) \<Longrightarrow> spans (Cls p) s i (Suc i)"
| seq: "spans a s i j \<Longrightarrow> spans b s j k \<Longrightarrow> spans (Seq a b) s i k"
| alt1: "spans a s i j \<Longrightarrow> spans (Alt a b) s i j"
| alt2: "spans b s i j \<Longrightarrow> spans (Alt a b) s i j"
| star0: "spans (Star a) s i i"
| star1: "spans a s i j \<Longrightarrow> i < j \<Longrightarrow> spans (Star a) s j k \<Longrightarrow> spans (Star a) s i k"
| cap: "spans a s i j \<Longrightarrow> spans (Cap n a) s i j"
| bos: "spans Bos s 0 0"
| eos: "spans Eos s (length s) (length s)"
| wordb: "at_word_boundary s i \<Longrightarrow> spans WordB s i i"

inductive_cases spans_Eps [elim!]: "spans Eps s i j"
inductive_cases spans_Cls [elim!]: "spans (Cls p) s i j"
inductive_cases spans_Seq [elim!]: "spans (Seq a b) s i j"
inductive_cases spans_Alt [elim!]: "spans (Alt a b) s i j"
inductive_cases spans_Cap [elim!]: "spans (Cap n a) s i j"
inductive_cases spans_Bos [elim!]: "spans Bos s i j"
inductive_cases spans_Eos [elim!]: "spans Eos s i j"
inductive_cases spans_WordB [elim!]: "spans WordB s i j"

lemma spans_bounds: "spans r s i j \<Longrightarrow> i \<le> length s \<Longrightarrow> i \<le> j \<and> j \<le> length s"
  by (induction rule: spans.induct) simp_all

lemma results_sound: "x \<in> set (results r s i c) \<Longrightarrow> spans r s i (fst x)"
proof (induction r s i c arbitrary: x rule: results.induct)
  case (3 a b s i c)
  from "3.prems" obtain y where "y \<in> set (results a s i c)"
    and "x \<in> set (results b s (fst y) (snd y))" by auto
  with "3.IH" show ?case by (meson spans.seq)
next
  case (5 a s i c)
  show ?case
  proof (cases "x = (i, c)")
    case True
    then show ?thesis by (auto intro: spans.star0)
  next
    case False
    with "5.prems" obtain y where y: "y \<in> set (results a s i c)" "i < fst y" "fst y \<le> length s"
      "x \<in> set (results (Star a) s (fst y) (snd y))"
      by (auto simp: results_Star [of a s i c] split: if_splits)
    with "5.IH"(1) "5.IH"(2) show ?thesis by (meson spans.star1)
  qed
qed (auto intro: spans.intros split: if_splits)

lemma results_complete:
  "spans r s i j \<Longrightarrow> i \<le> length s \<Longrightarrow> \<exists>c'. (j, c') \<in> set (results r s i c)"
proof (induction arbitrary: c rule: spans.induct)
  case (seq a s i j b k)
  then have "j \<le> length s" using spans_bounds by blast
  with seq obtain c1 c2 where "(j, c1) \<in> set (results a s i c)"
    and "(k, c2) \<in> set (results b s j c1)" by blast
  then show ?case by force
next
  case (star1 a s i j k)
  then have j: "j \<le> length s" using spans_bounds by blast
  with star1 obtain c1 c2 where "(j, c1) \<in> set (results a s i c)"
    and "(k, c2) \<in> set (results (Star a) s j c1)" by blast
  with \<open>i < j\<close> j show ?case by (subst results_Star) force
next
  case (alt1 a s i j b)
  then show ?case by (metis UnCI results.simps(4) set_append)
next
  case (alt2 b s i j a)
  then show ?case by (metis UnCI results.simps(4) set_append)
next
  case (cap a s i j n)
  then obtain c' where "(j, c') \<in> set (results a s i c)" by blast
  then have "(j, (n, i, j) # c') \<in> set (results (Cap n a) s i c)"
    by (auto simp: image_iff intro: bexI [where x = "(j, c')"])
  then show ?case by blast
next
  case (star0 a s i)
  have "(i, c) \<in> set (results (Star a) s i c)"
    by (simp add: results_Star [of a s i c])
  then show ?case by blast
qed simp_all

theorem results_span:
  "i \<le> length s \<Longrightarrow> (\<exists>c'. (j, c') \<in> set (results r s i c)) \<longleftrightarrow> spans r s i j"
  using results_sound results_complete by force

section \<open>Searching\<close>

fun search :: "re \<Rightarrow> string \<Rightarrow> nat list \<Rightarrow> (nat \<times> nat \<times> caps) option" where
  "search r s [] = None"
| "search r s (i # is) =
     (case results r s i [] of [] \<Rightarrow> search r s is | x # _ \<Rightarrow> Some (i, fst x, snd x))"

definition find_match :: "re \<Rightarrow> string \<Rightarrow> (nat \<times> nat \<times> caps) option" where
  "find_match r s = search r s [0 ..< Suc (length s)]"

definition match_string :: "re \<Rightarrow> string \<Rightarrow> bool" where
  "match_string r s \<longleftrightarrow> find_match r s \<noteq> None"

text \<open>\<open>substr s i j\<close> is \<open>s[i:j]\<close>; an unmatched group is the empty string.\<close>

definition substr :: "string \<Rightarrow> nat \<Rightarrow> nat \<Rightarrow> string" where
  "substr s i j = take (j - i) (drop i s)"

definition group :: "string \<Rightarrow> caps \<Rightarrow> nat \<Rightarrow> string" where
  "group s c k = (case map_of c k of None \<Rightarrow> [] | Some (i, j) \<Rightarrow> substr s i j)"

lemma search_None:
  "search r s is = None \<longleftrightarrow> (\<forall>i \<in> set is. results r s i [] = [])"
  by (induction "is") (auto split: list.splits)

lemma search_Some:
  "search r s is = Some (i, j, c) \<Longrightarrow> i \<in> set is \<and> (j, c) \<in> set (results r s i [])"
  by (induction "is") (auto split: list.splits)

lemma match_string_iff:
  "match_string r s \<longleftrightarrow> (\<exists>i j. i \<le> length s \<and> spans r s i j)"
proof -
  have "results r s i [] = [] \<longleftrightarrow> \<not> (\<exists>j. spans r s i j)" if "i \<le> length s" for i
    using results_span [OF that, where c = "[]" and r = r]
    by (metis empty_iff list.set(1) list.set_intros(1) neq_Nil_conv surj_pair)
  then show ?thesis
    by (auto simp: match_string_def find_match_def search_None less_Suc_eq_le simp del: upt_Suc)
qed

text \<open>A captured group is a span of an expression the pattern captures under that number.\<close>

fun caps_in :: "re \<Rightarrow> (nat \<times> re) list" where
  "caps_in (Seq a b) = caps_in a @ caps_in b"
| "caps_in (Alt a b) = caps_in a @ caps_in b"
| "caps_in (Star a) = caps_in a"
| "caps_in (Cap k a) = (k, a) # caps_in a"
| "caps_in _ = []"

lemma results_caps:
  "x \<in> set (results r s i c) \<Longrightarrow> i \<le> length s \<Longrightarrow> (k, a, b) \<in> set (snd x) \<Longrightarrow>
   (k, a, b) \<in> set c \<or> (\<exists>q. (k, q) \<in> set (caps_in r) \<and> spans q s a b \<and> a \<le> length s)"
proof (induction r s i c arbitrary: x rule: results.induct)
  case (3 r1 r2 s i c)
  from "3.prems" obtain y where y: "y \<in> set (results r1 s i c)"
    and x: "x \<in> set (results r2 s (fst y) (snd y))" by auto
  have "fst y \<le> length s"
    using spans_bounds [OF results_sound [OF y] "3.prems"(2)] by simp
  from "3.IH"(2) [OF y x this "3.prems"(3)]
  have "(k, a, b) \<in> set (snd y) \<or> (\<exists>q. (k, q) \<in> set (caps_in r2) \<and> spans q s a b \<and> a \<le> length s)" .
  with "3.IH"(1) [OF y "3.prems"(2)] show ?case by (metis Un_iff caps_in.simps(1) set_append)
next
  case (4 r1 r2 s i c)
  then show ?case by (metis Un_iff caps_in.simps(2) results.simps(4) set_append)
next
  case (5 r s i c)
  show ?case
  proof (cases "x = (i, c)")
    case True
    with "5.prems" show ?thesis by simp
  next
    case False
    with "5.prems" obtain y where y: "y \<in> set (results r s i c)" "i < fst y \<and> fst y \<le> length s"
      "x \<in> set (results (Star r) s (fst y) (snd y))"
      by (auto simp: results_Star [of r s i c] split: if_splits)
    from "5.IH"(2) [OF y(1) y(2) y(3) conjunct2 [OF y(2)] "5.prems"(3)]
    have "(k, a, b) \<in> set (snd y) \<or>
      (\<exists>q. (k, q) \<in> set (caps_in r) \<and> spans q s a b \<and> a \<le> length s)" by simp
    with "5.IH"(1) [OF y(1) "5.prems"(2)] show ?thesis by (metis caps_in.simps(3))
  qed
next
  case (6 n r s i c)
  from "6.prems" obtain y where y: "y \<in> set (results r s i c)" and x: "x = (fst y, (n, i, fst y) # snd y)"
    by auto
  show ?case
  proof (cases "(k, a, b) = (n, i, fst y)")
    case True
    with results_sound [OF y] "6.prems"(2) show ?thesis by auto
  next
    case False
    with "6.prems"(3) x have "(k, a, b) \<in> set (snd y)" by auto
    with "6.IH" [OF y "6.prems"(2)] show ?thesis by auto
  qed
qed (auto split: if_splits)

lemma group_span:
  assumes "find_match r s = Some (i, j, c)"
  shows "group s c k = [] \<or>
    (\<exists>q a b. (k, q) \<in> set (caps_in r) \<and> spans q s a b \<and> a \<le> length s \<and> group s c k = substr s a b)"
proof (cases "map_of c k")
  case None
  then show ?thesis by (simp add: group_def)
next
  case (Some ab)
  obtain a b where ab: "ab = (a, b)" by force
  with Some have "(k, a, b) \<in> set c" by (auto dest: map_of_SomeD)
  moreover have "i \<le> length s" "(j, c) \<in> set (results r s i [])"
    using search_Some [OF assms [unfolded find_match_def]] by auto
  ultimately obtain q where "(k, q) \<in> set (caps_in r)" "spans q s a b" "a \<le> length s"
    using results_caps [of "(j, c)" r s i "[]" k a b] by auto
  with Some ab show ?thesis by (auto simp: group_def)
qed

section \<open>The building blocks of the program's patterns\<close>

definition chr :: "char \<Rightarrow> re" where
  "chr c = Cls (\<lambda>d. d = c)"

definition one_of :: "string \<Rightarrow> re" where
  "one_of cs = Cls (\<lambda>d. d \<in> set cs)"

definition digit :: re where
  "digit = Cls is_digit"

text \<open>\<open>\s\<close> is the ASCII class of RE2.\<close>

definition space :: re where
  "space = Cls (\<lambda>c. of_char c \<in> {9, 10, 12, 13, 32 :: nat})"

definition opt :: "re \<Rightarrow> re" where
  "opt r = Alt r Eps"

definition plus_re :: "re \<Rightarrow> re" where
  "plus_re r = Seq r (Star r)"

fun upto_re :: "nat \<Rightarrow> re \<Rightarrow> re" where
  "upto_re 0 r = Eps"
| "upto_re (Suc n) r = opt (Seq r (upto_re n r))"

definition digits_upto :: "nat \<Rightarrow> re" where
  "digits_upto n = Seq digit (upto_re (n - 1) digit)"

text \<open>
  A letter under \<open>(?i)\<close>: either case, and for \<open>s\<close> and \<open>k\<close> also the one character outside
  ASCII that folds to it (the long s, the Kelvin sign), in UTF-8.
\<close>

definition letter_ci :: "char \<Rightarrow> re" where
  "letter_ci c =
     (let base = Cls (\<lambda>d. lower_char d = lower_char c)
      in if lower_char c = CHR ''s'' then Alt base (Seq (chr CHR 0xC5) (chr CHR 0xBF))
         else if lower_char c = CHR ''k'' then
           Alt base (Seq (chr CHR 0xE2) (Seq (chr CHR 0x84) (chr CHR 0xAA)))
         else base)"

fun word_ci :: "string \<Rightarrow> re" where
  "word_ci [] = Eps"
| "word_ci (c # cs) = Seq (letter_ci c) (word_ci cs)"

fun seqs :: "re list \<Rightarrow> re" where
  "seqs [] = Eps"
| "seqs [r] = r"
| "seqs (r # rs) = Seq r (seqs rs)"

fun alts :: "re list \<Rightarrow> re" where
  "alts [] = Cls (\<lambda>_. False)"
| "alts [r] = r"
| "alts (r # rs) = Alt r (alts rs)"

lemma caps_in_blocks [simp]:
  "caps_in (chr c) = []" "caps_in (one_of cs) = []" "caps_in digit = []" "caps_in space = []"
  "caps_in (opt r) = caps_in r" "caps_in (plus_re r) = caps_in r @ caps_in r"
  "caps_in (letter_ci c) = []"
  by (simp_all add: chr_def one_of_def digit_def space_def opt_def plus_re_def letter_ci_def Let_def)

lemma caps_in_word [simp]: "caps_in (word_ci cs) = []"
  by (induction cs) simp_all

lemma caps_in_upto [simp]: "caps_in r = [] \<Longrightarrow> caps_in (upto_re n r) = []"
  by (induction n) simp_all

lemma caps_in_digits [simp]: "caps_in (digits_upto n) = []"
  by (simp add: digits_upto_def)

lemma set_caps_in_seqs [simp]: "set (caps_in (seqs rs)) = (\<Union>r \<in> set rs. set (caps_in r))"
  by (induction rs rule: seqs.induct) simp_all

lemma set_caps_in_alts [simp]: "set (caps_in (alts rs)) = (\<Union>r \<in> set rs. set (caps_in r))"
  by (induction rs rule: alts.induct) simp_all

text \<open>What digit patterns capture.\<close>

lemma substr_step: "i < j \<Longrightarrow> j \<le> length s \<Longrightarrow> substr s i j = s ! i # substr s (Suc i) j"
  by (simp add: substr_def Cons_nth_drop_Suc [symmetric] take_Cons' Suc_diff_Suc)

lemma spans_upto_digit:
  "spans (upto_re n digit) s i j \<Longrightarrow> i \<le> length s \<Longrightarrow>
   j - i \<le> n \<and> list_all is_digit (substr s i j)"
proof (induction n arbitrary: i)
  case 0
  then show ?case by (auto simp: substr_def)
next
  case (Suc n)
  then consider "j = i" | "i < length s" "is_digit (s ! i)" "spans (upto_re n digit) s (Suc i) j"
    by (auto simp: opt_def digit_def)
  then show ?case
  proof cases
    case 1
    then show ?thesis by (simp add: substr_def)
  next
    case 2
    then have "j - Suc i \<le> n" "list_all is_digit (substr s (Suc i) j)" "Suc i \<le> j \<and> j \<le> length s"
      using Suc.IH [of "Suc i"] spans_bounds [OF 2(3)] by simp_all
    with 2 show ?thesis by (simp add: substr_step [of i j])
  qed
qed

lemma spans_digits_upto:
  assumes "spans (digits_upto n) s i j" and "i \<le> length s" and "0 < n"
  shows "list_all is_digit (substr s i j) \<and> substr s i j \<noteq> [] \<and> length (substr s i j) \<le> n"
proof -
  from assms(1) have i: "i < length s" "is_digit (s ! i)" "spans (upto_re (n - 1) digit) s (Suc i) j"
    by (auto simp: digits_upto_def digit_def)
  then have "j - Suc i \<le> n - 1" "list_all is_digit (substr s (Suc i) j)" "Suc i \<le> j \<and> j \<le> length s"
    using spans_upto_digit [OF i(3)] spans_bounds [OF i(3)] by simp_all
  with i assms(3) show ?thesis by (simp add: substr_step [of i j]) (simp add: substr_def)
qed

end
