(* ===== verification/MediaName.thy ===== *)
theory MediaName
  imports Regex
begin

text \<open>
  The data of package \<open>medianame\<close> (model.go, technical.go): the record of a parsed name, its
  semantic components, and the comparisons of components that need no parser. Go's \<open>int\<close>
  fields are \<open>int\<close>; the enumerations of string constants are datatypes where the code only
  uses the constants.
\<close>

record Parsed =
  pTitle :: string
  pYear :: int
  pSeason :: int
  pSeasonExplicit :: bool
  pEpisodeStart :: int
  pEpisodeEnd :: int
  pVersion :: int

definition empty_parsed :: Parsed where
  "empty_parsed = \<lparr> pTitle = [], pYear = 0, pSeason = 0, pSeasonExplicit = False,
     pEpisodeStart = 0, pEpisodeEnd = 0, pVersion = 0 \<rparr>"

datatype evidence = NoEvidence | Explicit | Publication | Differential | Weak

record Components =
  cTitle :: string
  cYear :: int
  cSeason :: int
  cSeasonExplicit :: bool
  cEpisodeStart :: int
  cEpisodeEnd :: int
  cVersion :: int
  cReleaseGroup :: string
  cMetadata :: "string list"
  cResolution :: string
  cSubtitle :: string
  cExtension :: string
  cEpisodeEvidence :: evidence

definition empty_components :: Components where
  "empty_components = \<lparr> cTitle = [], cYear = 0, cSeason = 0, cSeasonExplicit = False,
     cEpisodeStart = 0, cEpisodeEnd = 0, cVersion = 0, cReleaseGroup = [], cMetadata = [],
     cResolution = [], cSubtitle = [], cExtension = [], cEpisodeEvidence = NoEvidence \<rparr>"

record Name =
  nInput :: string
  nParsed :: Parsed
  nComponents :: Components

datatype component_role =
    RoleIdentity | RoleQualifier | RoleSequence | RoleRevision | RoleProvenance
  | RoleTechnical | RoleContainer

datatype change_expectation =
    ChangeInvariant | ChangeUsuallyStable | ChangeExpectedVarying | ChangeFreelyVarying

record Difference =
  dField :: string
  dRole :: component_role
  dExpectation :: change_expectation
  dStable :: bool
  dValues :: "string list"

record Cohort =
  coKey :: string
  coItemIndexes :: "nat list"
  coDifferences :: "Difference list"

record Batch =
  bItems :: "Name list"
  bCohorts :: "Cohort list"

definition batch_parsed :: "Batch \<Rightarrow> Parsed list" where
  "batch_parsed b = map nParsed (bItems b)"

fun differences_for_loop :: "Cohort list \<Rightarrow> nat \<Rightarrow> Difference list" where
  "differences_for_loop [] index = []"
| "differences_for_loop (co # cos) index =
     (if index \<in> set (coItemIndexes co) then coDifferences co else differences_for_loop cos index)"

definition differences_for :: "Batch \<Rightarrow> nat \<Rightarrow> Difference list" where
  "differences_for b index = differences_for_loop (bCohorts b) index"

definition reliable_episode_evidence :: "Components \<Rightarrow> bool" where
  "reliable_episode_evidence c =
     (case cEpisodeEvidence c of
        Explicit \<Rightarrow> True | Publication \<Rightarrow> True | Differential \<Rightarrow> True
      | Weak \<Rightarrow> False | NoEvidence \<Rightarrow> False)"

section \<open>Comparable values of components\<close>

definition show_num :: "int \<Rightarrow> string" where
  "show_num value = (if value = 0 then [] else show_int value)"

definition season_value :: "int \<Rightarrow> bool \<Rightarrow> string" where
  "season_value season explicit =
     (if season = 0 \<and> \<not> explicit then [] else show_num season)"

definition episode_value :: "Components \<Rightarrow> string" where
  "episode_value c =
     (if cEpisodeStart c = 0 then []
      else if cEpisodeEnd c > cEpisodeStart c
        then show_int (cEpisodeStart c) @ ''-'' @ show_int (cEpisodeEnd c)
      else show_int (cEpisodeStart c))"

text \<open>\<open>strings.NewReplacer(".", " ", "_", " ")\<close>, then fields joined by one space, lowered.\<close>

definition comparable_component :: "string \<Rightarrow> string" where
  "comparable_component value =
     to_lower (join_with '' '' (split_fields
       (map (\<lambda>c. if c = CHR ''.'' \<or> c = CHR ''_'' then CHR '' '' else c) value)))"

text \<open>The byte that separates the parts of a composed key (\<open>"\x00"\<close>).\<close>

abbreviation NUL :: char where
  "NUL \<equiv> CHR 0x00"

definition component_identity_key :: "Components \<Rightarrow> string" where
  "component_identity_key c =
     (let title = comparable_component (cTitle c)
      in if title = [] then []
         else title @ [NUL] @ show_int (cYear c) @ [NUL] @ show_int (cSeason c) @ [NUL] @
              show_bool (cSeasonExplicit c))"

definition component_fields ::
    "(string \<times> component_role \<times> change_expectation \<times> (Components \<Rightarrow> string)) list" where
  "component_fields =
     [(''title'', RoleIdentity, ChangeInvariant, \<lambda>c. comparable_component (cTitle c)),
      (''year'', RoleQualifier, ChangeUsuallyStable, \<lambda>c. show_num (cYear c)),
      (''season'', RoleQualifier, ChangeUsuallyStable, \<lambda>c. season_value (cSeason c) (cSeasonExplicit c)),
      (''episode'', RoleSequence, ChangeExpectedVarying, episode_value),
      (''version'', RoleRevision, ChangeFreelyVarying, \<lambda>c. show_num (cVersion c)),
      (''release_group'', RoleProvenance, ChangeFreelyVarying, cReleaseGroup),
      (''metadata'', RoleTechnical, ChangeFreelyVarying, \<lambda>c. join_with [CHR 0x1F] (cMetadata c)),
      (''resolution'', RoleTechnical, ChangeFreelyVarying, cResolution),
      (''subtitle'', RoleTechnical, ChangeFreelyVarying, cSubtitle),
      (''extension'', RoleContainer, ChangeFreelyVarying, cExtension)]"

definition show_unit_separators :: "string \<Rightarrow> string" where
  "show_unit_separators value =
     concat (map (\<lambda>c. if c = CHR 0x1F then '' | '' else [c]) value)"

text \<open>
  The values of a field: the set of values the items have, each with its unit separators
  replaced, in byte order. Two values that differ only in a replaced separator give two equal
  entries, as in the code.
\<close>

definition compare_components :: "Name list \<Rightarrow> nat list \<Rightarrow> Difference list" where
  "compare_components items indexes =
     map (\<lambda>(name, role, expectation, value).
       let values = sort (map show_unit_separators
             (remdups (map (\<lambda>i. value (nComponents (items ! i))) indexes)))
       in \<lparr> dField = name, dRole = role, dExpectation = expectation,
            dStable = (length values \<le> 1), dValues = values \<rparr>) component_fields"

section \<open>Technical traits\<close>

definition contains :: "string \<Rightarrow> string \<Rightarrow> bool" where
  "contains s t \<longleftrightarrow> sublist t s"

record TechnicalTraits =
  tSource :: string
  tSourceKind :: string
  tVideoCodec :: string
  tBitDepth :: string
  tAudioCodec :: string

text \<open>\<open>\s+\<close> of RE2 is ASCII white space; a run of it becomes one space.\<close>

definition is_ascii_space :: "char \<Rightarrow> bool" where
  "is_ascii_space c \<longleftrightarrow> of_char c \<in> {9, 10, 12, 13, 32 :: nat}"

fun squeeze_spaces :: "string \<Rightarrow> string" where
  "squeeze_spaces [] = []"
| "squeeze_spaces [c] = [if is_ascii_space c then CHR '' '' else c]"
| "squeeze_spaces (c # d # s) =
     (if is_ascii_space c then
        (if is_ascii_space d then squeeze_spaces (d # s) else CHR '' '' # squeeze_spaces (d # s))
      else c # squeeze_spaces (d # s))"

fun first_token :: "(string \<Rightarrow> bool) \<Rightarrow> (string list \<times> 'a) list \<Rightarrow> 'a \<Rightarrow> 'a" where
  "first_token has [] d = d"
| "first_token has ((tokens, v) # cs) d =
     (if list_ex has tokens then v else first_token has cs d)"

definition technical_traits_of :: "string \<Rightarrow> TechnicalTraits" where
  "technical_traits_of input =
     (let value = to_lower input;
          normalized = squeeze_spaces
            (map (\<lambda>c. if c = CHR ''_'' \<or> c = CHR ''.'' then CHR '' '' else c) value);
          has = (\<lambda>t. contains value t \<or> contains normalized t);
          (source, kind) = first_token has
            [([''web-dl'', ''webdl'', ''web dl''], (''web-dl'', ''web'')),
             ([''webrip'', ''web-rip'', ''web rip''], (''webrip'', ''web'')),
             ([''blu-ray'', ''bluray'', ''blu ray'', ''bdremux'', ''bd-remux''], (''bluray'', ''disc'')),
             ([''bdrip'', ''bd-rip'', ''bd rip''], (''bdrip'', ''disc'')),
             ([''hdtv''], (''hdtv'', ''broadcast'')),
             ([''tvrip'', ''tv-rip'', ''tv rip''], (''tvrip'', ''broadcast''))] ([], [])
      in \<lparr> tSource = source, tSourceKind = kind,
           tVideoCodec = first_token has
             [([''av1''], ''av1''), ([''hevc'', ''h265'', ''h.265'', ''x265''], ''hevc''),
              ([''avc'', ''h264'', ''h.264'', ''x264''], ''avc'')] [],
           tBitDepth = first_token has
             [([''10bit'', ''10-bit'', ''10 bit'', ''hi10p''], ''10bit''),
              ([''12bit'', ''12-bit'', ''12 bit''], ''12bit''),
              ([''8bit'', ''8-bit'', ''8 bit''], ''8bit'')] [],
           tAudioCodec = first_token has
             [([''e-ac-3'', ''eac3'', ''e-ac3'', ''ddp'', ''dd+''], ''eac3''),
              ([''flac''], ''flac''), ([''opus''], ''opus''), ([''aac''], ''aac''),
              ([''ac3'', ''ac-3''], ''ac3'')] [] \<rparr>)"

section \<open>Resolution and subtitle language\<close>

definition resolution_re :: re where
  "resolution_re = Cap 1 (alts [word_ci ''2160p'', word_ci ''1080p'', word_ci ''720p'', word_ci ''480p''])"

definition resolution_of :: "string \<Rightarrow> string" where
  "resolution_of input =
     (case find_match resolution_re input of
        None \<Rightarrow> []
      | Some (_, _, c) \<Rightarrow> to_lower (group input c 1))"

text \<open>The UTF-8 encodings of the two characters for simplified and traditional script.\<close>

definition jian :: string where
  "jian = map char_of [0xE7, 0xAE, 0x80 :: nat]"

definition fan :: string where
  "fan = map char_of [0xE7, 0xB9, 0x81 :: nat]"

definition subtitle_of :: "string \<Rightarrow> string" where
  "subtitle_of input =
     (let lower = to_lower input
      in if contains input (jian @ fan) \<or> contains input (fan @ jian) \<or> contains lower ''chs&cht''
           then ''zh-Hans+zh-Hant''
         else if contains input jian \<or> contains lower ''chs'' \<or> contains lower ''zh-hans''
           then ''zh-Hans''
         else if contains input fan \<or> contains lower ''cht'' \<or> contains lower ''zh-hant''
           then ''zh-Hant''
         else [])"

end
