(* ===== verification/GoPath.thy ===== *)
theory GoPath
  imports GoStrings
begin

text \<open>
  Go's \<open>path/filepath\<close> on Linux, as far as the program uses it: \<open>Clean\<close>, \<open>Rel\<close>, \<open>Join\<close>,
  \<open>Dir\<close>, \<open>Base\<close>, \<open>Ext\<close>, \<open>IsAbs\<close>. The theorems reduce cleaned absolute paths to lists of
  proper names: \<open>within\<close>, which the program decides through \<open>Rel\<close>, is the prefix order of
  these lists (\<open>within_abs\<close>).
\<close>

section \<open>Clean\<close>

fun clean_comps :: "bool \<Rightarrow> string list \<Rightarrow> string list \<Rightarrow> string list" where
  "clean_comps rooted stack [] = rev stack"
| "clean_comps rooted stack (c # cs) =
     (if c = [] \<or> c = ''.'' then clean_comps rooted stack cs
      else if c = ''..'' then
        (case stack of
           [] \<Rightarrow> clean_comps rooted (if rooted then [] else [''..'']) cs
         | t # rest \<Rightarrow>
             if t = ''..'' then clean_comps rooted (''..'' # stack) cs
             else clean_comps rooted rest cs)
      else clean_comps rooted (c # stack) cs)"

definition is_abs :: "string \<Rightarrow> bool" where
  "is_abs p \<longleftrightarrow> p \<noteq> [] \<and> hd p = CHR ''/''"

definition comps :: "string \<Rightarrow> string list" where
  "comps p = clean_comps (is_abs p) [] (split_on CHR ''/'' p)"

definition render :: "bool \<Rightarrow> string list \<Rightarrow> string" where
  "render rooted cs =
     (if rooted then CHR ''/'' # join_with ''/'' cs
      else if cs = [] then ''.'' else join_with ''/'' cs)"

definition clean :: "string \<Rightarrow> string" where
  "clean p = render (is_abs p) (comps p)"

text \<open>Component lists \<open>Clean\<close> produces.\<close>

definition proper :: "string \<Rightarrow> bool" where
  "proper c \<longleftrightarrow> c \<noteq> [] \<and> c \<noteq> ''.'' \<and> c \<noteq> ''..'' \<and> CHR ''/'' \<notin> set c"

definition normal :: "bool \<Rightarrow> string list \<Rightarrow> bool" where
  "normal rooted cs \<longleftrightarrow>
     (\<exists>k ns. cs = replicate k ''..'' @ ns \<and> (\<forall>c \<in> set ns. proper c) \<and> (rooted \<longrightarrow> k = 0))"

lemma normal_Nil [simp]: "normal rooted []"
  by (auto simp: normal_def)

lemma normal_snoc_proper: "normal rooted cs \<Longrightarrow> proper c \<Longrightarrow> normal rooted (cs @ [c])"
  unfolding normal_def by (elim exE) (rule exI, rule_tac x = "ns @ [c]" in exI, auto)

lemma normal_butlast: "normal rooted (cs @ [c]) \<Longrightarrow> c \<noteq> ''..'' \<Longrightarrow> normal rooted cs"
proof -
  assume "normal rooted (cs @ [c])" and c: "c \<noteq> ''..''"
  then obtain k ns where *: "cs @ [c] = replicate k ''..'' @ ns" "\<forall>c \<in> set ns. proper c"
    "rooted \<longrightarrow> k = 0" by (auto simp: normal_def)
  have "ns \<noteq> []"
  proof
    assume "ns = []"
    with * have "c \<in> set (replicate k ''..'')" by (metis append_Nil2 in_set_conv_decomp)
    with c show False by (auto split: if_splits)
  qed
  then obtain ns' d where "ns = ns' @ [d]" by (metis rev_exhaust)
  with * have "cs = replicate k ''..'' @ ns'" "\<forall>c \<in> set ns'. proper c" by auto
  with * show ?thesis unfolding normal_def by blast
qed

lemma normal_snoc_dotdot:
  "normal False (cs @ [''..'']) \<Longrightarrow> normal False (cs @ [''..'', ''..''])"
proof -
  assume "normal False (cs @ [''..''])"
  then obtain k ns where *: "cs @ [''..''] = replicate k ''..'' @ ns" "\<forall>c \<in> set ns. proper c"
    by (auto simp: normal_def)
  have "ns = []"
  proof (rule ccontr)
    assume "ns \<noteq> []"
    then obtain ns' d where "ns = ns' @ [d]" by (metis rev_exhaust)
    with * have "proper ''..''" by auto
    then show False by (simp add: proper_def)
  qed
  with * have "cs @ [''..'', ''..''] = replicate (Suc k) ''..'' @ []"
    by (metis append.right_neutral append_Cons append_Nil append_assoc replicate_Suc replicate_append_same)
  then show ?thesis unfolding normal_def by fastforce
qed

lemma clean_comps_normal:
  "normal rooted (rev stack) \<Longrightarrow> \<forall>c \<in> set cs. CHR ''/'' \<notin> set c \<Longrightarrow>
   normal rooted (clean_comps rooted stack cs)"
proof (induction rooted stack cs rule: clean_comps.induct)
  case (1 rooted stack)
  then show ?case by simp
next
  case (2 rooted stack c cs)
  consider "c = [] \<or> c = ''.''" | "c = ''..''" "stack = []"
    | t rest where "c = ''..''" "stack = t # rest" "t = ''..''"
    | t rest where "c = ''..''" "stack = t # rest" "t \<noteq> ''..''"
    | "c \<noteq> []" "c \<noteq> ''.''" "c \<noteq> ''..''"
    by (cases stack) auto
  then show ?case
  proof cases
    case 1
    with 2 show ?thesis by auto
  next
    case 2
    have "normal False [''..'']"
      unfolding normal_def by (rule exI [where x = 1], rule exI [where x = "[]"]) auto
    with 2 "2.IH"(2) "2.prems" show ?thesis by auto
  next
    case 3
    have nr: "\<not> rooted"
    proof
      assume "rooted"
      with "2.prems"(1) 3 have "\<forall>c \<in> set (rev stack). proper c" by (auto simp: normal_def)
      with 3 show False by (auto simp: proper_def)
    qed
    with 3 "2.prems"(1) have "normal rooted (rev (''..'' # stack))"
      using normal_snoc_dotdot by simp
    with 3 "2.IH"(3) "2.prems"(2) show ?thesis by simp
  next
    case 4
    with "2.prems"(1) have "normal rooted (rev rest)"
      using normal_butlast by simp
    with 4 "2.IH"(4) "2.prems"(2) show ?thesis by simp
  next
    case 5
    with "2.prems" have "normal rooted (rev (c # stack))"
      using normal_snoc_proper by (simp add: proper_def)
    with 5 "2.IH"(5) "2.prems"(2) show ?thesis by simp
  qed
qed

lemma comps_normal: "normal (is_abs p) (comps p)"
  unfolding comps_def by (rule clean_comps_normal) (auto dest: split_on_no_sep)

lemma clean_comps_proper:
  "\<forall>c \<in> set ns. proper c \<Longrightarrow> clean_comps rooted stack ns = rev stack @ ns"
  by (induction ns arbitrary: stack) (auto simp: proper_def)

lemma clean_comps_dotdots:
  "\<forall>c \<in> set stack. c = ''..'' \<Longrightarrow>
   clean_comps False stack (replicate k ''..'' @ cs) =
   clean_comps False (replicate k ''..'' @ stack) cs"
proof (induction k arbitrary: stack)
  case 0
  then show ?case by simp
next
  case (Suc k)
  have "clean_comps False stack (''..'' # replicate k ''..'' @ cs) =
    clean_comps False (''..'' # stack) (replicate k ''..'' @ cs)"
    using Suc.prems by (cases stack) auto
  with Suc show ?case by (simp add: replicate_app_Cons_same)
qed

lemma clean_comps_id: "normal rooted cs \<Longrightarrow> clean_comps rooted [] cs = cs"
  unfolding normal_def by (cases rooted) (auto simp: clean_comps_proper clean_comps_dotdots)

lemma normal_elem:
  assumes "normal rooted cs" and "c \<in> set cs"
  shows "c = ''..'' \<and> \<not> rooted \<or> proper c"
proof -
  obtain k ns where *: "cs = replicate k ''..'' @ ns" "\<forall>c \<in> set ns. proper c" "rooted \<longrightarrow> k = 0"
    using assms(1) unfolding normal_def by blast
  from assms(2) *(1) have "c \<in> set (replicate k ''..'') \<or> c \<in> set ns" by simp
  then show ?thesis
  proof
    assume "c \<in> set (replicate k ''..'')"
    then have "c = ''..''" "k \<noteq> 0" by (simp_all add: in_set_replicate)
    with *(3) show ?thesis by blast
  next
    assume "c \<in> set ns"
    with *(2) show ?thesis by blast
  qed
qed

lemma normal_no_slash: "normal rooted cs \<Longrightarrow> c \<in> set cs \<Longrightarrow> CHR ''/'' \<notin> set c"
  by (drule normal_elem, assumption, erule disjE) (simp_all add: proper_def)

lemma normal_nonempty: "normal rooted cs \<Longrightarrow> c \<in> set cs \<Longrightarrow> c \<noteq> []"
  by (drule normal_elem, assumption, erule disjE) (simp_all add: proper_def)

lemma is_abs_render: "normal rooted cs \<Longrightarrow> is_abs (render rooted cs) = rooted"
proof (cases rooted)
  case True
  then show ?thesis by (simp add: render_def is_abs_def)
next
  case False
  assume n: "normal rooted cs"
  show ?thesis
  proof (cases cs)
    case Nil
    with False show ?thesis by (simp add: render_def is_abs_def)
  next
    case (Cons c cs')
    with n have "c \<noteq> []" "CHR ''/'' \<notin> set c"
      using normal_nonempty normal_no_slash by (metis list.set_intros(1))+
    then have "hd (join_with ''/'' cs) \<noteq> CHR ''/''"
      using Cons by (cases cs'; cases c) auto
    with False Cons show ?thesis by (simp add: render_def is_abs_def)
  qed
qed

lemma comps_render:
  assumes "normal rooted cs"
  shows "comps (render rooted cs) = cs"
proof (cases "cs = []")
  case True
  then show ?thesis by (cases rooted) (simp_all add: comps_def render_def is_abs_def)
next
  case False
  have split: "split_on CHR ''/'' (join_with ''/'' cs) = cs"
    using False normal_no_slash [OF assms] by (intro split_join) auto
  show ?thesis
    using is_abs_render [OF assms] split False clean_comps_id [OF assms]
    by (cases rooted) (simp_all add: comps_def render_def)
qed

theorem clean_idem [simp]: "clean (clean p) = clean p"
  by (simp add: clean_def comps_render [OF comps_normal] is_abs_render [OF comps_normal])

lemma comps_clean [simp]: "comps (clean p) = comps p"
  by (simp add: clean_def comps_render [OF comps_normal])

lemma is_abs_clean [simp]: "is_abs (clean p) = is_abs p"
  by (simp add: clean_def is_abs_render [OF comps_normal])

lemma clean_eq_iff: "clean p = clean q \<longleftrightarrow> is_abs p = is_abs q \<and> comps p = comps q"
proof
  assume eq: "clean p = clean q"
  show "is_abs p = is_abs q \<and> comps p = comps q"
    using arg_cong [OF eq, of comps] arg_cong [OF eq, of is_abs] by simp
qed (simp add: clean_def)

lemma comps_abs_proper: "is_abs p \<Longrightarrow> c \<in> set (comps p) \<Longrightarrow> proper c"
  using normal_elem [OF comps_normal, of c p] by blast

section \<open>Rel and containment\<close>

text \<open>The elements \<open>Rel\<close> walks over: the root is one empty element.\<close>

definition elems :: "string \<Rightarrow> string list" where
  "elems p = (if p = ''/'' then [[]] else split_on CHR ''/'' p)"

fun strip_common :: "string list \<Rightarrow> string list \<Rightarrow> string list \<times> string list" where
  "strip_common (b # bs) (t # ts) = (if b = t then strip_common bs ts else (b # bs, t # ts))"
| "strip_common bs ts = (bs, ts)"

definition rel :: "string \<Rightarrow> string \<Rightarrow> string option" where
  "rel basepath targpath =
     (let base = clean basepath; targ = clean targpath
      in if targ = base then Some ''.''
         else if (base \<noteq> ''.'' \<and> is_abs base) \<noteq> is_abs targ then None
         else let (b, t) = strip_common (if base = ''.'' then [] else elems base) (elems targ)
              in if b \<noteq> [] \<and> hd b = ''..'' then None
                 else Some (join_with ''/'' (replicate (length b) ''..'' @ t)))"

definition escapes_up :: "string \<Rightarrow> bool" where
  "escapes_up r \<longleftrightarrow> r = ''..'' \<or> prefix ''../'' r"

definition within :: "string \<Rightarrow> string \<Rightarrow> bool" where
  "within root path =
     (case rel (clean root) (clean path) of None \<Rightarrow> False | Some r \<Rightarrow> \<not> escapes_up r)"

lemma strip_common_eq:
  "strip_common (cs @ bs) (cs @ ts) = strip_common bs ts"
  by (induction cs) auto

lemma strip_common_not_prefix:
  "\<not> prefix bs ts \<Longrightarrow> fst (strip_common bs ts) \<noteq> []"
  by (induction bs ts rule: strip_common.induct) (simp_all split: if_splits)

lemma strip_common_suffixes:
  "suffix (fst (strip_common bs ts)) bs \<and> suffix (snd (strip_common bs ts)) ts"
proof (induction bs ts rule: strip_common.induct)
  case (1 b bs t ts)
  then show ?case by (cases "b = t") (simp_all add: suffix_ConsI)
qed simp_all

lemma elems_clean_abs:
  assumes "is_abs p"
  shows "elems (clean p) = [] # comps p"
proof (cases "comps p = []")
  case True
  with assms show ?thesis by (simp add: clean_def render_def elems_def)
next
  case False
  have "join_with ''/'' (comps p) \<noteq> []"
  proof -
    obtain c cs where "comps p = c # cs" using False by (cases "comps p") auto
    with comps_abs_proper [OF assms, of c] show ?thesis by (cases cs) (auto simp: proper_def)
  qed
  moreover have "split_on CHR ''/'' (join_with ''/'' (comps p)) = comps p"
    using False comps_abs_proper [OF assms] by (intro split_join) (auto simp: proper_def)
  ultimately show ?thesis using assms by (simp add: clean_def render_def elems_def)
qed

lemma join_dotdot_escapes: "escapes_up (join_with ''/'' (replicate (Suc n) ''..'' @ t))"
  by (cases "replicate n ''..'' @ t") (auto simp: escapes_up_def)

lemma join_proper_not_escapes:
  assumes "\<forall>c \<in> set cs. proper c"
  shows "\<not> escapes_up (join_with ''/'' cs)"
proof (cases cs)
  case Nil
  then show ?thesis by (simp add: escapes_up_def)
next
  case (Cons c cs')
  with assms have c: "proper c" by simp
  have split: "split_on CHR ''/'' (join_with ''/'' cs) = cs"
    using Cons assms by (intro split_join) (auto simp: proper_def)
  have esc: "hd (split_on CHR ''/'' r) = ''..''" if "escapes_up r" for r
    using that by (auto simp: escapes_up_def prefix_def)
  show ?thesis
  proof
    assume "escapes_up (join_with ''/'' cs)"
    from esc [OF this] split Cons have "c = ''..''" by simp
    with c show False by (simp add: proper_def)
  qed
qed

text \<open>
  On absolute paths: the relative path exists, and it does not climb exactly when the root's
  names are a prefix of the path's; then it is the join of the remaining names.
\<close>

lemma rel_abs_prefix:
  assumes "is_abs root" and "is_abs path" and "comps path = comps root @ t" and "t \<noteq> []"
  shows "rel root path = Some (join_with ''/'' t)"
proof -
  have ne: "clean path \<noteq> clean root"
    using assms by (simp add: clean_eq_iff)
  have root_ne: "clean root \<noteq> ''.''"
    using assms(1) by (auto simp: clean_def render_def)
  have "strip_common ([] # comps root) ([] # comps root @ t) = ([], t)"
    using strip_common_eq [of "[] # comps root" "[]" t] by simp
  with ne root_ne assms show ?thesis
    by (simp add: rel_def Let_def elems_clean_abs)
qed

lemma rel_same: "clean root = clean path \<Longrightarrow> rel root path = Some ''.''"
  by (simp add: rel_def)

lemma rel_abs_not_prefix:
  assumes "is_abs root" and "is_abs path" and "\<not> prefix (comps root) (comps path)"
  shows "\<exists>r. rel root path = Some r \<and> escapes_up r"
proof -
  have ne: "clean path \<noteq> clean root"
    using assms by (auto simp: clean_eq_iff)
  have root_ne: "clean root \<noteq> ''.''"
    using assms(1) by (auto simp: clean_def render_def)
  obtain b t where bt: "strip_common (comps root) (comps path) = (b, t)" by force
  have "b \<noteq> []" using strip_common_not_prefix [OF assms(3)] bt by simp
  then obtain b0 bs where b: "b = b0 # bs" by (cases b) auto
  have "suffix b (comps root)" using strip_common_suffixes [of "comps root" "comps path"] bt by simp
  with b have "b0 \<in> set (comps root)" by (auto simp: suffix_def)
  then have "b0 \<noteq> ''..''" using comps_abs_proper [OF assms(1)] by (auto simp: proper_def)
  with ne root_ne assms b bt show ?thesis
    using join_dotdot_escapes [of "length bs" t]
    by (simp add: rel_def Let_def elems_clean_abs)
qed

theorem within_abs:
  assumes "is_abs root" and "is_abs path"
  shows "within root path \<longleftrightarrow> prefix (comps root) (comps path)"
proof (cases "prefix (comps root) (comps path)")
  case False
  with rel_abs_not_prefix [of "clean root" "clean path"] assms show ?thesis
    by (auto simp: within_def)
next
  case True
  then obtain t where t: "comps path = comps root @ t" by (auto simp: prefix_def)
  show ?thesis
  proof (cases "t = []")
    case True
    with t assms have "rel (clean root) (clean path) = Some ''.''"
      by (intro rel_same) (simp add: clean_eq_iff)
    with True t show ?thesis by (simp add: within_def escapes_up_def prefix_def)
  next
    case False
    have "\<forall>c \<in> set t. proper c" using t comps_abs_proper [OF assms(2)] by simp
    with rel_abs_prefix [of "clean root" "clean path" t] False t assms show ?thesis
      using join_proper_not_escapes by (simp add: within_def)
  qed
qed

section \<open>Join, Dir, Base, Ext\<close>

definition join_path :: "string list \<Rightarrow> string" where
  "join_path es =
     (let ne = filter (\<lambda>e. e \<noteq> []) es in if ne = [] then [] else clean (join_with ''/'' ne))"

definition dir :: "string \<Rightarrow> string" where
  "dir p = clean (rev (dropWhile (\<lambda>c. c \<noteq> CHR ''/'') (rev p)))"

definition base :: "string \<Rightarrow> string" where
  "base p =
     (if p = [] then ''.''
      else let q = rev (dropWhile (\<lambda>c. c = CHR ''/'') (rev p))
           in if q = [] then ''/'' else rev (takeWhile (\<lambda>c. c \<noteq> CHR ''/'') (rev q)))"

definition ext :: "string \<Rightarrow> string" where
  "ext p =
     (let f = takeWhile (\<lambda>c. c \<noteq> CHR ''/'') (rev p); t = takeWhile (\<lambda>c. c \<noteq> CHR ''.'') f
      in if length t < length f then CHR ''.'' # rev t else [])"

section \<open>Dir and the chain of parents\<close>

lemma join_snoc:
  "ds \<noteq> [] \<Longrightarrow> join_with sep (ds @ [d]) = join_with sep ds @ sep @ d"
  by (induction sep ds rule: join_with.induct) auto

lemma split_on_snoc_sep: "split_on c (s @ [c]) = split_on c s @ [[]]"
  by (induction s) (auto split: list.splits)

lemma is_abs_Cons [simp]: "is_abs (CHR ''/'' # s)"
  by (simp add: is_abs_def)

lemma comps_trailing_slash:
  assumes "\<forall>c \<in> set ds. proper c" and "ds \<noteq> []"
  shows "comps (CHR ''/'' # join_with ''/'' ds @ ''/'') = ds"
proof -
  have "split_on CHR ''/'' (join_with ''/'' ds) = ds"
    using assms by (intro split_join) (auto simp: proper_def)
  then have "split_on CHR ''/'' (CHR ''/'' # join_with ''/'' ds @ ''/'') = [] # ds @ [[]]"
    using split_on_snoc_sep [of "CHR ''/''" "join_with ''/'' ds"] by simp
  moreover have "clean_comps True [] (ds @ [[]]) = ds"
  proof -
    have "clean_comps True st (ns @ [[]]) = rev st @ ns" if "\<forall>c \<in> set ns. proper c" for st ns
      using that by (induction ns arbitrary: st) (auto simp: proper_def)
    with assms show ?thesis by simp
  qed
  ultimately show ?thesis by (simp add: comps_def)
qed

lemma dir_render:
  assumes "\<forall>c \<in> set cs. proper c"
  shows "dir (render True cs) = render True (butlast cs)"
proof (cases cs rule: rev_cases)
  case Nil
  then show ?thesis by (simp add: dir_def render_def clean_def comps_def is_abs_def)
next
  case (snoc ds d)
  have d: "CHR ''/'' \<notin> set d" "\<forall>c \<in> set ds. proper c" using assms snoc by (auto simp: proper_def)
  have dropw: "rev (dropWhile (\<lambda>c. c \<noteq> CHR ''/'') (rev (x @ CHR ''/'' # d))) = x @ ''/''" for x
    using d(1) by (subst rev_append) (auto simp: dropWhile_append)
  show ?thesis
  proof (cases "ds = []")
    case True
    with snoc dropw [of "[]"] show ?thesis
      by (simp add: dir_def render_def clean_def comps_def is_abs_def)
  next
    case False
    have r: "render True cs = (CHR ''/'' # join_with ''/'' ds) @ CHR ''/'' # d"
      using join_snoc [OF False, of "''/''" d] snoc by (simp add: render_def)
    show ?thesis
      unfolding dir_def r dropw using comps_trailing_slash [OF d(2) False] snoc
      by (simp add: clean_def)
  qed
qed

text \<open>
  \<open>dir_chain n p\<close>: the paths the loop \<open>current = filepath.Dir(current)\<close> visits from \<open>p\<close>, with
  at most \<open>n\<close> of them; on an absolute clean path one more than its names is enough.
\<close>

fun dir_chain :: "nat \<Rightarrow> string \<Rightarrow> string list" where
  "dir_chain 0 p = []"
| "dir_chain (Suc n) p = p # (if dir p = p then [] else dir_chain n (dir p))"

definition ancestors :: "string \<Rightarrow> string list" where
  "ancestors p = dir_chain (length p + 2) p"

lemma clean_abs_render: "is_abs p \<Longrightarrow> clean p = render True (comps p)"
  by (simp add: clean_def)

lemma render_inj:
  assumes "\<forall>c \<in> set cs. proper c" and "\<forall>c \<in> set ds. proper c" and "render True cs = render True ds"
  shows "cs = ds"
proof -
  have "normal True cs" "normal True ds" using assms(1,2) by (auto simp: normal_def intro: exI [of _ 0])
  with assms(3) show ?thesis by (metis comps_render)
qed

lemma dir_chain_render:
  "\<forall>c \<in> set cs. proper c \<Longrightarrow> length cs < n \<Longrightarrow>
   dir_chain n (render True cs) = map (render True) (rev (prefixes cs))"
proof (induction cs arbitrary: n rule: rev_induct)
  case Nil
  then obtain m where "n = Suc m" by (cases n) auto
  moreover have "dir (render True []) = render True []" using dir_render [of "[]"] by simp
  ultimately show ?case by simp
next
  case (snoc d ds)
  then obtain m where n: "n = Suc m" "length ds < m" by (cases n) auto
  have step: "dir (render True (ds @ [d])) = render True ds"
    using dir_render [of "ds @ [d]"] snoc.prems(1) by simp
  have "render True ds \<noteq> render True (ds @ [d])"
    using render_inj [of ds "ds @ [d]"] snoc.prems(1) by auto
  then show ?case using snoc.IH [of m] snoc.prems(1) n by (simp add: step prefixes_snoc)
qed

lemma length_join_ge: "\<forall>c \<in> set cs. c \<noteq> [] \<Longrightarrow> length cs \<le> length (join_with sep cs)"
proof (induction sep cs rule: join_with.induct)
  case (3 sep p q ps)
  then have "1 \<le> length p" by (cases p) auto
  with 3 show ?case by simp
qed (auto simp: Suc_le_eq)

lemma ancestors_render:
  assumes "\<forall>c \<in> set cs. proper c"
  shows "ancestors (render True cs) = map (render True) (rev (prefixes cs))"
proof -
  have "\<forall>c \<in> set cs. c \<noteq> []" using assms by (simp add: proper_def)
  then have "length cs < length (render True cs) + 2"
    using length_join_ge [of cs "''/''"] by (simp add: render_def)
  then show ?thesis unfolding ancestors_def by (rule dir_chain_render [OF assms])
qed

lemma ancestors_set:
  assumes "\<forall>c \<in> set cs. proper c"
  shows "set (ancestors (render True cs)) = render True ` {ds. prefix ds cs}"
  using ancestors_render [OF assms] by (auto simp: image_iff)

lemma distinct_ancestors:
  assumes "is_abs p"
  shows "distinct (ancestors (clean p))"
proof -
  have pr: "\<forall>c \<in> set (comps p). proper c" using comps_abs_proper [OF assms] by blast
  have "inj_on (render True) (set (rev (prefixes (comps p))))"
  proof (rule inj_onI)
    fix cs ds assume "cs \<in> set (rev (prefixes (comps p)))" "ds \<in> set (rev (prefixes (comps p)))"
      and eq: "render True cs = render True ds"
    then have "\<forall>c \<in> set cs. proper c" "\<forall>c \<in> set ds. proper c"
      using pr by (auto dest: set_mono_prefix)
    from render_inj [OF this eq] show "cs = ds" .
  qed
  then show ?thesis
    unfolding clean_abs_render [OF assms] ancestors_render [OF pr]
    by (simp add: distinct_map distinct_prefixes)
qed

lemma mem_ancestors:
  assumes "is_abs root" and "is_abs p"
  shows "clean root \<in> set (ancestors (clean p)) \<longleftrightarrow> within root p"
proof -
  have pr: "\<forall>c \<in> set (comps root). proper c" "\<forall>c \<in> set (comps p). proper c"
    using comps_abs_proper assms by blast+
  have "clean root \<in> set (ancestors (clean p)) \<longleftrightarrow> (\<exists>ds. prefix ds (comps p) \<and> render True (comps root) = render True ds)"
    using assms ancestors_set [OF pr(2)] by (auto simp: clean_abs_render)
  also have "\<dots> \<longleftrightarrow> prefix (comps root) (comps p)"
  proof
    assume "\<exists>ds. prefix ds (comps p) \<and> render True (comps root) = render True ds"
    then obtain ds where ds: "prefix ds (comps p)" "render True (comps root) = render True ds" by blast
    from ds(1) pr(2) have "\<forall>c \<in> set ds. proper c" using set_mono_prefix by blast
    from render_inj [OF pr(1) this ds(2)] ds(1) show "prefix (comps root) (comps p)" by simp
  qed blast
  finally show ?thesis using within_abs [OF assms] by simp
qed

end
