(* ===== verification/GoText.thy ===== *)
theory GoText
  imports Regex GoPath
begin

text \<open>
  More of Go's standard library over byte strings: UTF-8 runes (\<open>[]rune(s)\<close>, \<open>string(r)\<close>),
  \<open>unicode.IsDigit\<close>, \<open>strconv.Atoi\<close>, \<open>strings.Trim\<close>, \<open>TrimPrefix\<close>, \<open>TrimSuffix\<close>,
  \<open>IndexByte\<close>, \<open>LastIndexByte\<close>, and \<open>FindAllStringSubmatch\<close> for a pattern that never
  matches the empty string.
\<close>

section \<open>Runes\<close>

definition byte_in :: "nat \<Rightarrow> nat \<Rightarrow> char \<Rightarrow> bool" where
  "byte_in lo hi c \<longleftrightarrow> lo \<le> of_char c \<and> (of_char c :: nat) \<le> hi"

abbreviation cont :: "char \<Rightarrow> nat" where
  "cont c \<equiv> (of_char c :: nat) mod 64"

text \<open>The first rune of a non-empty string and its width; an invalid byte is U+FFFD, width 1.\<close>

fun decode_rune :: "string \<Rightarrow> nat \<times> nat" where
  "decode_rune (a # b # c # d # s) =
     (let n = of_char a :: nat in
      if n < 0x80 then (n, 1)
      else if 0xC2 \<le> n \<and> n \<le> 0xDF \<and> byte_in 0x80 0xBF b then ((n mod 32) * 64 + cont b, 2)
      else if 0xE0 \<le> n \<and> n \<le> 0xEF \<and>
              byte_in (if n = 0xE0 then 0xA0 else 0x80) (if n = 0xED then 0x9F else 0xBF) b \<and>
              byte_in 0x80 0xBF c
        then ((n mod 16) * 4096 + cont b * 64 + cont c, 3)
      else if 0xF0 \<le> n \<and> n \<le> 0xF4 \<and>
              byte_in (if n = 0xF0 then 0x90 else 0x80) (if n = 0xF4 then 0x8F else 0xBF) b \<and>
              byte_in 0x80 0xBF c \<and> byte_in 0x80 0xBF d
        then ((n mod 8) * 262144 + cont b * 4096 + cont c * 64 + cont d, 4)
      else (0xFFFD, 1))"
| "decode_rune [a, b, c] =
     (let n = of_char a :: nat in
      if n < 0x80 then (n, 1)
      else if 0xC2 \<le> n \<and> n \<le> 0xDF \<and> byte_in 0x80 0xBF b then ((n mod 32) * 64 + cont b, 2)
      else if 0xE0 \<le> n \<and> n \<le> 0xEF \<and>
              byte_in (if n = 0xE0 then 0xA0 else 0x80) (if n = 0xED then 0x9F else 0xBF) b \<and>
              byte_in 0x80 0xBF c
        then ((n mod 16) * 4096 + cont b * 64 + cont c, 3)
      else (0xFFFD, 1))"
| "decode_rune [a, b] =
     (let n = of_char a :: nat in
      if n < 0x80 then (n, 1)
      else if 0xC2 \<le> n \<and> n \<le> 0xDF \<and> byte_in 0x80 0xBF b then ((n mod 32) * 64 + cont b, 2)
      else (0xFFFD, 1))"
| "decode_rune [a] = (if (of_char a :: nat) < 0x80 then (of_char a, 1) else (0xFFFD, 1))"
| "decode_rune [] = (0xFFFD, 0)"

lemma decode_rune_width: "s \<noteq> [] \<Longrightarrow> 0 < snd (decode_rune s)"
  by (cases s rule: decode_rune.cases) (auto simp: Let_def)

function runes :: "string \<Rightarrow> nat list" where
  "runes [] = []"
| "runes (c # s) =
     (let (r, w) = decode_rune (c # s) in r # runes (drop w (c # s)))"
  by pat_completeness auto
termination
proof (relation "measure length")
  fix c :: char and s :: string and x r w
  assume "x = decode_rune (c # s)" and "(r, w) = x"
  then have "0 < w" using decode_rune_width [of "c # s"] by (metis list.distinct(1) snd_conv)
  then show "(drop w (c # s), c # s) \<in> measure length" by simp
qed simp

declare runes.simps(2) [simp del]

definition encode_rune :: "nat \<Rightarrow> string" where
  "encode_rune r =
     map char_of
      (if r < 0x80 then [r]
       else if r < 0x800 then [0xC0 + r div 64, 0x80 + r mod 64]
       else if r < 0x10000 then [0xE0 + r div 4096, 0x80 + r div 64 mod 64, 0x80 + r mod 64]
       else [0xF0 + r div 262144, 0x80 + r div 4096 mod 64, 0x80 + r div 64 mod 64, 0x80 + r mod 64])"

definition from_runes :: "nat list \<Rightarrow> string" where
  "from_runes rs = concat (map encode_rune rs)"

text \<open>The first code points of the decimal digits 0 to 9 of every script (category Nd).\<close>

definition nd_zeros :: "nat list" where
  "nd_zeros =
     [0x30, 0x660, 0x6F0, 0x7C0, 0x966, 0x9E6, 0xA66, 0xAE6, 0xB66, 0xBE6, 0xC66, 0xCE6, 0xD66,
      0xDE6, 0xE50, 0xED0, 0xF20, 0x1040, 0x1090, 0x17E0, 0x1810, 0x1946, 0x19D0, 0x1A80, 0x1A90,
      0x1B50, 0x1BB0, 0x1C40, 0x1C50, 0xA620, 0xA8D0, 0xA900, 0xA9D0, 0xA9F0, 0xAA50, 0xABF0,
      0xFF10, 0x104A0, 0x10D30, 0x11066, 0x110F0, 0x11136, 0x111D0, 0x112F0, 0x11450, 0x114D0,
      0x11650, 0x116C0, 0x11730, 0x118E0, 0x11950, 0x11C50, 0x11D50, 0x11DA0, 0x11F50, 0x16A60,
      0x16AC0, 0x16B50, 0x1D7CE, 0x1D7D8, 0x1D7E2, 0x1D7EC, 0x1D7F6, 0x1E140, 0x1E2F0, 0x1E4F0,
      0x1E950, 0x1FBF0]"

definition rune_is_digit :: "nat \<Rightarrow> bool" where
  "rune_is_digit r \<longleftrightarrow> list_ex (\<lambda>z. z \<le> r \<and> r < z + 10) nd_zeros"

section \<open>Numbers\<close>

definition max_int :: int where
  "max_int = 2 ^ 63 - 1"

text \<open>
  \<open>strconv.Atoi\<close>: the value, and whether there was no error. Out of range the value is the
  nearest representable one, with an error; a syntax error gives zero.
\<close>

definition atoi_full :: "string \<Rightarrow> int \<times> bool" where
  "atoi_full s =
     (let neg = (s \<noteq> [] \<and> hd s = CHR ''-'');
          ds = (if s \<noteq> [] \<and> (hd s = CHR ''-'' \<or> hd s = CHR ''+'') then tl s else s);
          n = int (read_digits ds)
      in if ds = [] \<or> \<not> list_all is_digit ds then (0, False)
         else if neg then (if n \<le> max_int + 1 then (- n, True) else (- max_int - 1, False))
         else if n \<le> max_int then (n, True) else (max_int, False))"

definition atoi :: "string \<Rightarrow> int" where
  "atoi s = fst (atoi_full s)"

lemma atoi_Nil [simp]: "atoi [] = 0"
  by (simp add: atoi_def atoi_full_def)

section \<open>Trimming and searching\<close>

definition trim_set :: "string \<Rightarrow> string \<Rightarrow> string" where
  "trim_set cutset s =
     rev (dropWhile (\<lambda>c. c \<in> set cutset) (rev (dropWhile (\<lambda>c. c \<in> set cutset) s)))"

definition trim_prefix :: "string \<Rightarrow> string \<Rightarrow> string" where
  "trim_prefix s p = (if prefix p s then drop (length p) s else s)"

definition trim_suffix :: "string \<Rightarrow> string \<Rightarrow> string" where
  "trim_suffix s p = (if suffix p s then take (length s - length p) s else s)"

definition index_byte :: "string \<Rightarrow> char \<Rightarrow> nat option" where
  "index_byte s c =
     (let n = length (takeWhile (\<lambda>d. d \<noteq> c) s) in if n < length s then Some n else None)"

definition last_index_byte :: "string \<Rightarrow> char \<Rightarrow> nat option" where
  "last_index_byte s c =
     (let n = length (takeWhile (\<lambda>d. d \<noteq> c) (rev s))
      in if n < length s then Some (length s - 1 - n) else None)"

lemma index_byte_Some:
  assumes "index_byte s c = Some n"
  shows "n < length s \<and> s ! n = c \<and> c \<notin> set (take n s)"
proof -
  let ?t = "takeWhile (\<lambda>d. d \<noteq> c) s"
  from assms have n: "n = length ?t" "n < length s"
    by (simp_all add: index_byte_def Let_def split: if_splits)
  have "take n s = ?t" unfolding n(1) by (rule takeWhile_eq_take [THEN sym])
  moreover have "c \<notin> set ?t" by (metis set_takeWhileD)
  moreover have "s ! n = c" using nth_length_takeWhile [of "\<lambda>d. d \<noteq> c" s] n by simp
  ultimately show ?thesis using n(2) by simp
qed

lemma index_byte_None: "index_byte s c = None \<longleftrightarrow> c \<notin> set s"
proof -
  have "length (takeWhile (\<lambda>d. d \<noteq> c) s) < length s \<longleftrightarrow> c \<in> set s"
    by (induction s) auto
  then show ?thesis by (simp add: index_byte_def Let_def)
qed

section \<open>All matches\<close>

text \<open>Matches that do not overlap, from left to right; every match is non-empty.\<close>

fun find_all_from :: "nat \<Rightarrow> re \<Rightarrow> string \<Rightarrow> nat \<Rightarrow> caps list" where
  "find_all_from 0 r s i = []"
| "find_all_from (Suc n) r s i =
     (case search r s [i ..< Suc (length s)] of
        None \<Rightarrow> []
      | Some (_, j, c) \<Rightarrow> c # find_all_from n r s j)"

definition find_all :: "re \<Rightarrow> string \<Rightarrow> caps list" where
  "find_all r s = find_all_from (Suc (length s)) r s 0"

end
