(* ===== verification/MediaParser.thy ===== *)
theory MediaParser
  imports MediaName GoText
begin

text \<open>
  The context-free parser of package \<open>medianame\<close> (parser.go): its regular expressions, the
  splitting of a name into bracket groups and a core, the strong and weak episode syntax, and
  the identity (title, year, season) left of the episode. In the source
  \<open>hasExplicitSeasonSyntax\<close>, \<open>parseFullyBracketed\<close>, \<open>parseLeadingBracketWeakEpisode\<close> and
  \<open>rawTitleFromPrefix\<close> call each other; here the last three take the first as an argument,
  and \<open>has_explicit n\<close> unrolls the recursion \<open>n\<close> times. \<open>has_explicit_stable\<close> shows that
  two unrollings are all the recursion there is, whatever the name.
\<close>

section \<open>The patterns\<close>

abbreviation seps :: re where
  "seps \<equiv> Star (one_of '' ._-'')"

definition start_or_sep :: re where
  "start_or_sep = Alt Bos (one_of '' ._-'')"

definition version_tail :: "nat \<Rightarrow> re" where
  "version_tail k = opt (Seq (letter_ci CHR ''v'') (Cap k (plus_re digit)))"

definition range_tail_e :: "nat \<Rightarrow> re" where
  "range_tail_e k =
     opt (seqs [seps, chr CHR ''-'', seps, opt (letter_ci CHR ''e''), Cap k (digits_upto 4)])"

definition sxe_body :: re where
  "sxe_body = seqs [letter_ci CHR ''s'', Cap 1 (digits_upto 2), seps, letter_ci CHR ''e'',
     Cap 2 (digits_upto 4), range_tail_e 3, version_tail 4]"

definition x_body :: re where
  "x_body = seqs [Cap 1 (digits_upto 2), letter_ci CHR ''x'', Cap 2 (digits_upto 4),
     opt (Seq (chr CHR ''-'') (Cap 3 (digits_upto 4))), version_tail 4]"

definition ep_body :: re where
  "ep_body = seqs [Alt (word_ci ''ep'') (word_ci ''e''), Cap 1 (digits_upto 4), range_tail_e 2,
     version_tail 3]"

definition weak_body :: re where
  "weak_body = seqs [Cap 1 (digits_upto 4),
     opt (seqs [Star space, one_of ''-~'', Star space, Cap 2 (digits_upto 4)]), version_tail 3]"

definition season_word :: re where
  "season_word = alts
     [seqs [word_ci ''season'', seps, Cap 1 (digits_upto 2)],
      seqs [Cap 2 (digits_upto 2), alts [word_ci ''st'', word_ci ''nd'', word_ci ''rd'', word_ci ''th''],
            plus_re (one_of '' ._-''), word_ci ''season''],
      Seq (letter_ci CHR ''s'') (Cap 3 (digits_upto 2))]"

definition season_word_plain :: re where
  "season_word_plain = alts
     [seqs [word_ci ''season'', Star (one_of ''._ -''), digits_upto 2],
      seqs [digits_upto 2, alts [word_ci ''st'', word_ci ''nd'', word_ci ''rd'', word_ci ''th''],
            plus_re (one_of ''._ -''), word_ci ''season''],
      Seq (letter_ci CHR ''s'') (digits_upto 2)]"

definition year_digits :: re where
  "year_digits = Alt (seqs [chr CHR ''1'', chr CHR ''9'', digit, digit])
                     (seqs [chr CHR ''2'', chr CHR ''0'', digit, digit])"

definition sxe_re :: re where
  "sxe_re = seqs [start_or_sep, sxe_body, WordB]"
definition x_re :: re where
  "x_re = seqs [start_or_sep, x_body, WordB]"
definition season_episode_re :: re where
  "season_episode_re = seqs [start_or_sep, word_ci ''season'', plus_re (one_of '' ._-''),
     Cap 1 (digits_upto 2), plus_re (one_of '' ._-''), word_ci ''episode'', plus_re (one_of '' ._-''),
     Cap 2 (digits_upto 4), opt (seqs [seps, chr CHR ''-'', seps, Cap 3 (digits_upto 4)]),
     version_tail 4, WordB]"
definition explicit_episode_re :: re where
  "explicit_episode_re = seqs [start_or_sep, ep_body, WordB]"
definition weak_tail_re :: re where
  "weak_tail_re = seqs [plus_re space, chr CHR ''-'', plus_re space, weak_body, Star space, Eos]"
definition weak_bracket_re :: re where
  "weak_bracket_re = seqs [Bos, Star space, weak_body, Star space, Eos]"
definition bracket_sxe_re :: re where
  "bracket_sxe_re = seqs [Bos, Star space, sxe_body, Star space, Eos]"
definition bracket_x_re :: re where
  "bracket_x_re = seqs [Bos, Star space, x_body, Star space, Eos]"
definition bracket_episode_re :: re where
  "bracket_episode_re = seqs [Bos, Star space, ep_body, Star space, Eos]"
definition season_suffix_re :: re where
  "season_suffix_re = seqs [start_or_sep, season_word, Star space, Eos]"
definition season_atom_re :: re where
  "season_atom_re = seqs [Bos, Star space, season_word, Star space, Eos]"
definition suffix_version_re :: re where
  "suffix_version_re = seqs [plus_re space, chr CHR ''-'', plus_re space, letter_ci CHR ''v'',
     Cap 1 (plus_re digit), Star space, Eos]"
definition title_version_re :: re where
  "title_version_re = seqs [Alt (plus_re space) (plus_re (one_of ''._-'')), letter_ci CHR ''v'',
     Cap 1 (plus_re digit), Star space, Eos]"
definition year_tail_re :: re where
  "year_tail_re = seqs [start_or_sep, Cap 1 year_digits, Star space, Eos]"
definition year_paren_tail_re :: re where
  "year_paren_tail_re = seqs [Star space, chr CHR ''('', Cap 1 year_digits, chr CHR '')'', Star space, Eos]"
definition year_atom_re :: re where
  "year_atom_re = seqs [Bos, Star space, Cap 1 year_digits, Star space, Eos]"
definition scene_year_hint_re :: re where
  "scene_year_hint_re = seqs [Alt Bos (one_of ''._''), Cap 1 year_digits,
     opt (Seq (plus_re (one_of ''._ -'')) season_word_plain), Star space, Eos]"

text \<open>\<open>FindStringSubmatch\<close>, with the span: start, end, and the texts of groups 0 to \<open>n\<close>.\<close>

definition find_sub :: "re \<Rightarrow> nat \<Rightarrow> string \<Rightarrow> (nat \<times> nat \<times> string list) option" where
  "find_sub r n s =
     (case find_match r s of
        None \<Rightarrow> None
      | Some (i, j, c) \<Rightarrow> Some (i, j, substr s i j # map (group s c) [1 ..< Suc n]))"

section \<open>Small parsers\<close>

record nameStructure =
  sCore :: string
  sLeading :: "string list"
  sTrailing :: "string list"
  sFullyBracketed :: bool

record episodeAtom =
  aSeason :: int
  aHasSeason :: bool
  aStart :: int
  aEnd :: int
  aVersion :: int
  aExplicit :: bool

definition clean_title :: "string \<Rightarrow> string" where
  "clean_title s = join_with '' '' (split_fields (trim_set '' ._-'' s))"

definition valid_episode_range :: "int \<Rightarrow> int \<Rightarrow> bool" where
  "valid_episode_range start stop \<longleftrightarrow> start > 0 \<and> start \<le> 9999 \<and> stop \<ge> start \<and> stop \<le> 9999"

definition media_suffixes :: "string list" where
  "media_suffixes = [''.mkv'', ''.mp4'', ''.avi'', ''.mov'', ''.m4v'', ''.ts'', ''.webm'']"

definition strip_media_extension :: "string \<Rightarrow> string \<times> string" where
  "strip_media_extension value0 =
     (let value = trim_space value0; e = to_lower (ext value)
      in if e \<in> set media_suffixes then (trim_space (trim_suffix value (ext value)), e)
         else (value, []))"

fun season_from_parts :: "string list \<Rightarrow> int option" where
  "season_from_parts [] = None"
| "season_from_parts (part # parts) =
     (if part = [] then season_from_parts parts
      else let (n, ok) = atoi_full part
           in if ok \<and> 0 \<le> n \<and> n \<le> 99 then Some n else season_from_parts parts)"

definition season_from_atom :: "string \<Rightarrow> int option" where
  "season_from_atom value =
     (case find_sub season_atom_re 3 (trim_space value) of
        None \<Rightarrow> None
      | Some (_, _, m) \<Rightarrow> season_from_parts (tl m))"

definition standalone_year :: "string \<Rightarrow> int" where
  "standalone_year value =
     (case find_sub year_atom_re 1 (trim_space value) of
        None \<Rightarrow> 0
      | Some (_, _, m) \<Rightarrow> atoi (m ! 1))"

definition weak_episode_atom :: "string list \<Rightarrow> episodeAtom" where
  "weak_episode_atom m =
     \<lparr> aSeason = 0, aHasSeason = False,
       aStart = (if length m > 1 then atoi (m ! 1) else 0),
       aEnd = (if length m > 2 \<and> m ! 2 \<noteq> [] then atoi (m ! 2)
               else if length m > 1 then atoi (m ! 1) else 0),
       aVersion = (if length m > 3 \<and> m ! 3 \<noteq> [] \<and> atoi (m ! 3) > 0 then atoi (m ! 3) else 1),
       aExplicit = False \<rparr>"

text \<open>The strong atoms of a bracket: pattern, and the season, episode, end, version groups.\<close>

definition bracket_atoms :: "(re \<times> nat \<times> nat \<times> nat \<times> nat) list" where
  "bracket_atoms = [(bracket_sxe_re, 1, 2, 3, 4), (bracket_x_re, 1, 2, 3, 4), (bracket_episode_re, 0, 1, 2, 3)]"

definition atom_of :: "string list \<Rightarrow> nat \<Rightarrow> nat \<Rightarrow> nat \<Rightarrow> nat \<Rightarrow> episodeAtom" where
  "atom_of m sg eg ng vg =
     \<lparr> aSeason = (if sg > 0 then atoi (m ! sg) else 0), aHasSeason = (sg > 0),
       aStart = atoi (m ! eg),
       aEnd = (if ng > 0 \<and> m ! ng \<noteq> [] then atoi (m ! ng) else atoi (m ! eg)),
       aVersion = (if vg > 0 \<and> m ! vg \<noteq> [] \<and> atoi (m ! vg) > 0 then atoi (m ! vg) else 1),
       aExplicit = True \<rparr>"

definition valid_atom :: "episodeAtom \<Rightarrow> episodeAtom option" where
  "valid_atom a = (if valid_episode_range (aStart a) (aEnd a) then Some a else None)"

fun bracket_atom_loop ::
    "(re \<times> nat \<times> nat \<times> nat \<times> nat) list \<Rightarrow> string \<Rightarrow> episodeAtom option option" where
  "bracket_atom_loop [] value = None"
| "bracket_atom_loop ((r, sg, eg, ng, vg) # cs) value =
     (case find_sub r 4 value of
        None \<Rightarrow> bracket_atom_loop cs value
      | Some (_, _, m) \<Rightarrow> Some (valid_atom (atom_of m sg eg ng vg)))"

definition parse_bracket_episode_atom :: "string \<Rightarrow> episodeAtom option" where
  "parse_bracket_episode_atom value =
     (case bracket_atom_loop bracket_atoms value of
        Some r \<Rightarrow> r
      | None \<Rightarrow>
          (case find_sub weak_bracket_re 3 value of
             None \<Rightarrow> None
           | Some (_, _, m) \<Rightarrow> valid_atom (weak_episode_atom m)))"

section \<open>The outer shape of a name\<close>

function leading_groups :: "string \<Rightarrow> string list \<times> string" where
  "leading_groups rest =
     (if rest \<noteq> [] \<and> hd rest = CHR ''['' then
        (case index_byte rest CHR '']'' of
           None \<Rightarrow> ([], rest)
         | Some e \<Rightarrow>
             let (gs, r) = leading_groups (trim_space (drop (Suc e) rest))
             in (trim_space (substr rest 1 e) # gs, r))
      else ([], rest))"
  by pat_completeness auto
termination
proof (relation "measure length")
  fix rest :: string and e :: nat
  assume "index_byte rest CHR '']'' = Some e"
  then have "e < length rest" by (auto dest: index_byte_Some)
  then show "(trim_space (drop (Suc e) rest), rest) \<in> measure length"
    using trim_space_length [of "drop (Suc e) rest"] by simp
qed simp

declare leading_groups.simps [simp del]

definition trailing_group :: "string \<Rightarrow> char \<Rightarrow> char \<Rightarrow> (string \<times> string) option" where
  "trailing_group value0 opening closing =
     (let value = trim_space value0
      in if value = [] \<or> last value \<noteq> closing then None
         else case last_index_byte value opening of
                None \<Rightarrow> None
              | Some start \<Rightarrow>
                  if start = 0 then None
                  else Some (trim_space (take start value),
                             trim_space (substr value (Suc start) (length value - 1))))"

lemma trailing_group_shorter:
  assumes "trailing_group v opening closing = Some (b, g)"
  shows "length b < length v"
proof -
  let ?v = "trim_space v"
  from assms obtain start where "last_index_byte ?v opening = Some start" "?v \<noteq> []"
    and b: "b = trim_space (take start ?v)"
    by (auto simp: trailing_group_def Let_def split: if_splits option.splits)
  then have "start < length ?v" by (auto simp: last_index_byte_def Let_def split: if_splits)
  then have "length (take start ?v) < length ?v" by simp
  moreover have "length b \<le> length (take start ?v)" unfolding b by (rule trim_space_length)
  ultimately show ?thesis using trim_space_length [of v] by linarith
qed

function trailing_groups :: "string \<Rightarrow> string \<times> string list" where
  "trailing_groups core =
     (case trailing_group core CHR ''['' CHR '']'' of
        None \<Rightarrow> (core, [])
      | Some (b, g) \<Rightarrow> let (c, gs) = trailing_groups b in (c, gs @ [g]))"
  by pat_completeness auto
termination
  by (relation "measure length") (auto dest: trailing_group_shorter)

declare trailing_groups.simps [simp del]

definition split_name_structure :: "string \<Rightarrow> nameStructure" where
  "split_name_structure stem =
     (let (leading, rest) = leading_groups (trim_space stem)
      in if rest = [] \<and> leading \<noteq> []
           then \<lparr> sCore = [], sLeading = leading, sTrailing = [], sFullyBracketed = True \<rparr>
         else let (core, trailing) = trailing_groups rest
              in \<lparr> sCore = trim_space core, sLeading = leading, sTrailing = trailing,
                   sFullyBracketed = False \<rparr>)"

section \<open>Titles\<close>

text \<open>The separators \<open>_\<close> and \<open>.\<close> become spaces, except a dot between two digits.\<close>

fun scene_runes :: "bool \<Rightarrow> nat list \<Rightarrow> nat list" where
  "scene_runes prev_digit [] = []"
| "scene_runes prev_digit (ch # rest) =
     (let ch' = (if ch = 0x5F then 0x20
                 else if ch = 0x2E then
                   (if \<not> prev_digit \<or> \<not> (rest \<noteq> [] \<and> rune_is_digit (hd rest)) then 0x20 else ch)
                 else ch)
      in ch' # scene_runes (rune_is_digit ch') rest)"

definition normalize_scene_separators :: "string \<Rightarrow> string" where
  "normalize_scene_separators s = clean_title (from_runes (scene_runes False (runes s)))"

definition strip_year :: "re \<Rightarrow> string \<Rightarrow> (string \<times> int) option" where
  "strip_year r s0 =
     (let s = clean_title s0
      in case find_sub r 1 s of
           None \<Rightarrow> None
         | Some (i, _, m) \<Rightarrow>
             let p = trim_set '' ._-'' (trim_space (take i s))
             in if p = [] then None else Some (clean_title p, atoi (m ! 1)))"

definition strip_parenthesized_year :: "string \<Rightarrow> (string \<times> int) option" where
  "strip_parenthesized_year s = strip_year year_paren_tail_re s"

definition strip_bare_year :: "string \<Rightarrow> (string \<times> int) option" where
  "strip_bare_year s = strip_year year_tail_re s"

definition strip_season_suffix :: "string \<Rightarrow> (string \<times> int) option" where
  "strip_season_suffix title =
     (case find_sub season_suffix_re 3 title of
        None \<Rightarrow> None
      | Some (i, _, m) \<Rightarrow>
          (case season_from_parts (tl m) of
             None \<Rightarrow> None
           | Some season \<Rightarrow>
               let cleaned = trim_set ''-_. '' (trim_space (take i title))
               in if cleaned = [] then None else Some (cleaned, season)))"

fun title_identity_loop ::
    "nat \<Rightarrow> bool \<Rightarrow> string \<Rightarrow> int \<Rightarrow> int \<Rightarrow> bool \<Rightarrow> string \<times> int \<times> int" where
  "title_identity_loop 0 bare title year season has_season = (title, year, season)"
| "title_identity_loop (Suc i) bare title year season has_season =
     (case (if year = 0 then
              (case strip_parenthesized_year title of
                 Some r \<Rightarrow> Some r
               | None \<Rightarrow> if bare then strip_bare_year title else None)
            else None) of
        Some (stripped, value) \<Rightarrow> title_identity_loop i bare stripped value season has_season
      | None \<Rightarrow>
          (case (if has_season then None else strip_season_suffix title) of
             Some (stripped, value) \<Rightarrow> title_identity_loop i bare stripped year value True
           | None \<Rightarrow> (title, year, season)))"

definition title_identity :: "string \<Rightarrow> bool \<Rightarrow> string \<times> int \<times> int" where
  "title_identity title bare =
     (let (t, year, season) = title_identity_loop 4 bare (clean_title title) 0 0 False
      in (clean_title t, year, season))"

definition title_identity_from_raw :: "string \<Rightarrow> string \<times> int \<times> int" where
  "title_identity_from_raw raw = title_identity (normalize_scene_separators raw) False"

definition title_and_version :: "string \<Rightarrow> string \<times> int" where
  "title_and_version title =
     (case find_sub title_version_re 1 (trim_space title) of
        None \<Rightarrow> (title, 0)
      | Some (i, _, m) \<Rightarrow>
          if i = 0 \<or> atoi (m ! 1) \<le> 0 then (title, 0)
          else (trim_set ''-_. '' (take i (trim_space title)), atoi (m ! 1)))"

definition strip_leading_release_group :: "string \<Rightarrow> string" where
  "strip_leading_release_group s0 =
     (let s = trim_space s0
      in if s \<noteq> [] \<and> hd s = CHR ''['' then
           (case index_byte s CHR '']'' of
              Some i \<Rightarrow> trim_space (drop (Suc i) s)
            | None \<Rightarrow> s)
         else s)"

definition season_identity_prefix :: "string \<Rightarrow> string" where
  "season_identity_prefix value0 =
     (let value = normalize_scene_separators value0
      in case strip_parenthesized_year value of Some (title, _) \<Rightarrow> title | None \<Rightarrow> value)"

text \<open>
  A complete episode tail after a bracketed title: the tail pattern must match right after
  the word a title is replaced by.
\<close>

definition leading_episode_tail :: "string \<Rightarrow> string list option" where
  "leading_episode_tail value =
     (case find_sub weak_tail_re 3 (''Title '' @ trim_space value) of
        None \<Rightarrow> None
      | Some (i, _, m) \<Rightarrow> if i = 5 then Some m else None)"

fun qualifiers_loop :: "string list \<Rightarrow> int \<Rightarrow> int option \<Rightarrow> int \<times> int option" where
  "qualifiers_loop [] year season = (year, season)"
| "qualifiers_loop (g # gs) year season =
     qualifiers_loop gs (if year = 0 then standalone_year g else year)
       (case season of None \<Rightarrow> season_from_atom g | Some n \<Rightarrow> Some n)"

definition qualifiers_from_groups :: "string list \<Rightarrow> int \<times> int option" where
  "qualifiers_from_groups groups = qualifiers_loop groups 0 None"

definition apply_qualifiers :: "int \<Rightarrow> int option \<Rightarrow> Parsed \<Rightarrow> Parsed" where
  "apply_qualifiers year season p =
     (let p1 = (if pYear p = 0 \<and> year > 0 then p\<lparr> pYear := year \<rparr> else p)
      in case season of
           Some n \<Rightarrow>
             if pSeason p1 = 0 \<and> \<not> pSeasonExplicit p1
             then p1\<lparr> pSeason := n, pSeasonExplicit := True \<rparr> else p1
         | None \<Rightarrow> p1)"

section \<open>Brackets and explicit seasons\<close>

text \<open>
  The loop of \<open>parseFullyBracketed\<close> over the groups after the title: \<open>Inl\<close> is a return from
  inside the loop (the parsed name, or that there is none), \<open>Inr\<close> the state after the loop.
\<close>

fun bracketed_loop ::
    "(string \<Rightarrow> bool) \<Rightarrow> string list \<Rightarrow> string list \<Rightarrow> Parsed \<Rightarrow> Parsed option + Parsed" where
  "bracketed_loop hes [] title_groups p = Inr p"
| "bracketed_loop hes (g0 # gs) title_groups p =
     (let g = trim_space g0
      in if g = [] then bracketed_loop hes gs title_groups p
         else if standalone_year g > 0 then
           bracketed_loop hes gs title_groups
             (if pYear p = 0 then p\<lparr> pYear := standalone_year g \<rparr> else p)
         else case season_from_atom g of
             Some season \<Rightarrow>
               bracketed_loop hes gs title_groups (p\<lparr> pSeason := season, pSeasonExplicit := True \<rparr>)
           | None \<Rightarrow>
               (case parse_bracket_episode_atom g of
                  None \<Rightarrow> bracketed_loop hes gs (title_groups @ [g]) p
                | Some atom \<Rightarrow>
                    (let joined = join_with '' '' title_groups;
                         (title, year, title_season) = title_identity (clean_title joined) False
                     in if title = [] then Inl None
                        else
                          let p1 = p\<lparr> pTitle := title, pYear := (if pYear p = 0 then year else pYear p) \<rparr>;
                              p2 = (if aHasSeason atom
                                      then p1\<lparr> pSeason := aSeason atom, pSeasonExplicit := True \<rparr>
                                    else if pSeason p1 = 0 \<and> \<not> pSeasonExplicit p1
                                      then p1\<lparr> pSeason := title_season, pSeasonExplicit := hes joined \<rparr>
                                    else p1)
                          in Inl (Some (p2\<lparr> pEpisodeStart := aStart atom, pEpisodeEnd := aEnd atom,
                               pVersion := (if aVersion atom \<le> 0 then 1 else aVersion atom) \<rparr>)))))"

definition fully_bracketed_with :: "(string \<Rightarrow> bool) \<Rightarrow> string list \<Rightarrow> Parsed option" where
  "fully_bracketed_with hes groups =
     (if length groups < 2 then None
      else case bracketed_loop hes (drop 2 groups) [groups ! 1] empty_parsed of
          Inl r \<Rightarrow> r
        | Inr p \<Rightarrow>
            (let (title, year, season) = title_identity (clean_title (groups ! 1)) False;
                 p1 = (if pYear p = 0 then p\<lparr> pYear := year \<rparr> else p);
                 p2 = (if pSeason p1 = 0 \<and> \<not> pSeasonExplicit p1
                         then p1\<lparr> pSeason := season, pSeasonExplicit := hes (groups ! 1) \<rparr> else p1)
             in if title = [] then None else Some (p2\<lparr> pTitle := title \<rparr>)))"

definition raw_title_with :: "(string \<Rightarrow> bool) \<Rightarrow> string \<Rightarrow> string" where
  "raw_title_with hes s =
     (let st = split_name_structure s
      in if sFullyBracketed st then
           (case fully_bracketed_with hes (sLeading st) of Some p \<Rightarrow> pTitle p | None \<Rightarrow> [])
         else trim_space (sCore st))"

text \<open>The value the tail is read from, and the year of a stripped parenthesis.\<close>

definition leading_value :: "string \<Rightarrow> string \<times> int" where
  "leading_value core =
     (let value = trim_space core
      in case trailing_group value CHR ''('' CHR '')'' of
           Some (b, g) \<Rightarrow>
             if leading_episode_tail (trim_space b) \<noteq> None then (b, standalone_year g) else (value, 0)
         | None \<Rightarrow> (value, 0))"

definition leading_weak_with ::
    "(string \<Rightarrow> bool) \<Rightarrow> string list \<Rightarrow> string \<Rightarrow> int \<Rightarrow> int option \<Rightarrow> Parsed option" where
  "leading_weak_with hes leading core qual_year qual_season =
     (let (value, paren_year) = leading_value core
      in case leading_episode_tail value of
           None \<Rightarrow> None
         | Some m \<Rightarrow>
             (case fully_bracketed_with hes leading of
                None \<Rightarrow> None
              | Some identity \<Rightarrow>
                  if trim_space (pTitle identity) = [] then None
                  else
                    let atom = weak_episode_atom m
                    in if \<not> valid_episode_range (aStart atom) (aEnd atom) then None
                       else Some (apply_qualifiers
                              (if qual_year = 0 then paren_year else qual_year) qual_season
                              \<lparr> pTitle = pTitle identity, pYear = pYear identity,
                                pSeason = pSeason identity,
                                pSeasonExplicit = pSeasonExplicit identity,
                                pEpisodeStart = aStart atom, pEpisodeEnd = aEnd atom,
                                pVersion = (if aVersion atom \<le> 0 then 1 else aVersion atom) \<rparr>)))"

definition season_group :: "string \<Rightarrow> bool" where
  "season_group g \<longleftrightarrow>
     season_from_atom g \<noteq> None \<or> match_string bracket_sxe_re g \<or> match_string bracket_x_re g"

definition has_explicit_with :: "(string \<Rightarrow> bool) \<Rightarrow> string \<Rightarrow> bool" where
  "has_explicit_with hes stem =
     (if list_ex (\<lambda>r. match_string r stem) [sxe_re, x_re, season_episode_re] then True
      else
        let st = split_name_structure stem; leading = sLeading st;
            leading_identity =
              (if length leading \<ge> 2 \<and> \<not> sFullyBracketed st
               then leading_weak_with hes leading (sCore st) 0 None \<noteq> None
               else sFullyBracketed st)
        in if leading_identity \<and>
              (list_ex season_group (tl leading) \<or>
               length leading > 1 \<and>
                 strip_season_suffix (season_identity_prefix (leading ! 1)) \<noteq> None) then True
           else if leading_identity \<and> sFullyBracketed st then False
           else if list_ex season_group (sTrailing st) then True
           else
             let core0 = sCore st;
                 core1 = (case find_match weak_tail_re core0 of
                            Some (i, _, _) \<Rightarrow> take i core0 | None \<Rightarrow> core0);
                 core = raw_title_with hes core1
             in core \<noteq> [] \<and> strip_season_suffix (season_identity_prefix core) \<noteq> None)"

text \<open>The recursion, unrolled \<open>n\<close> times.\<close>

fun has_explicit :: "nat \<Rightarrow> string \<Rightarrow> bool" where
  "has_explicit 0 stem = False"
| "has_explicit (Suc n) stem = has_explicit_with (has_explicit n) stem"

definition has_explicit_season_syntax :: "string \<Rightarrow> bool" where
  "has_explicit_season_syntax stem = has_explicit 2 stem"

definition parse_fully_bracketed :: "string list \<Rightarrow> Parsed option" where
  "parse_fully_bracketed groups = fully_bracketed_with has_explicit_season_syntax groups"

definition raw_title_from_prefix :: "string \<Rightarrow> string" where
  "raw_title_from_prefix s = raw_title_with has_explicit_season_syntax s"

definition parse_leading_bracket_weak_episode ::
    "string list \<Rightarrow> string \<Rightarrow> int \<Rightarrow> int option \<Rightarrow> Parsed option" where
  "parse_leading_bracket_weak_episode leading core year season =
     leading_weak_with has_explicit_season_syntax leading core year season"

section \<open>Two unrollings are enough\<close>

text \<open>A text without a closing bracket has no groups, so the recursion stops there.\<close>

abbreviation flat :: "string \<Rightarrow> bool" where
  "flat s \<equiv> CHR '']'' \<notin> set s"

lemma flat_trim: "flat s \<Longrightarrow> flat (trim_space s)"
  using trim_space_set by blast

lemma leading_groups_flat: "g \<in> set (fst (leading_groups s)) \<Longrightarrow> flat g"
proof (induction s rule: leading_groups.induct)
  case (1 rest)
  show ?case
  proof (cases "rest \<noteq> [] \<and> hd rest = CHR ''['' \<and> index_byte rest CHR '']'' \<noteq> None")
    case False
    then have "fst (leading_groups rest) = []"
      by (subst leading_groups.simps) auto
    with "1.prems" show ?thesis by simp
  next
    case True
    then obtain e where e: "index_byte rest CHR '']'' = Some e" by auto
    obtain gs r where lg: "leading_groups (trim_space (drop (Suc e) rest)) = (gs, r)" by force
    have "leading_groups rest = (trim_space (substr rest 1 e) # gs, r)"
      using True e lg by (subst leading_groups.simps) simp
    with "1.prems" consider "g = trim_space (substr rest 1 e)" | "g \<in> set gs" by auto
    then show ?thesis
    proof cases
      case 1
      have "set (substr rest 1 e) \<subseteq> set (take e rest)"
        by (simp add: substr_def drop_take [symmetric] set_drop_subset)
      with 1 index_byte_Some [OF e] show ?thesis using flat_trim by blast
    next
      case 2
      with "1.IH" True e lg show ?thesis by simp
    qed
  qed
qed

lemma split_leading_flat: "g \<in> set (sLeading (split_name_structure s)) \<Longrightarrow> flat g"
  using leading_groups_flat [of g "trim_space s"]
  by (auto simp: split_name_structure_def split: prod.splits if_splits)

lemma split_flat:
  assumes "flat s"
  shows "split_name_structure s =
    \<lparr> sCore = trim_space (trim_space s), sLeading = [], sTrailing = [], sFullyBracketed = False \<rparr>"
proof -
  have "index_byte (trim_space s) CHR '']'' = None"
    using flat_trim [OF assms] by (simp add: index_byte_None)
  then have "leading_groups (trim_space s) = ([], trim_space s)"
    by (subst leading_groups.simps) auto
  moreover have "trailing_group (trim_space s) CHR ''['' CHR '']'' = None"
  proof (cases "trim_space s = []")
    case False
    then have "last (trim_space s) \<noteq> CHR '']''"
      using flat_trim [OF assms] last_in_set by metis
    then show ?thesis by (simp add: trailing_group_def)
  qed (simp add: trailing_group_def)
  then have "trailing_groups (trim_space s) = (trim_space s, [])"
    by (subst trailing_groups.simps) simp
  ultimately show ?thesis by (simp add: split_name_structure_def)
qed

lemma raw_title_flat: "flat s \<Longrightarrow> raw_title_with hes s = trim_space s"
  by (simp add: raw_title_with_def split_flat)

lemma flat_take: "flat s \<Longrightarrow> flat (take i s)"
  by (meson in_set_takeD)

lemma has_explicit_flat: "flat s \<Longrightarrow> has_explicit_with hes s = has_explicit_with hes' s"
  by (simp add: has_explicit_with_def split_flat Let_def raw_title_flat flat_take flat_trim
      split: option.splits)

lemma flat_join: "\<forall>g \<in> set gs. flat g \<Longrightarrow> flat (join_with '' '' gs)"
proof -
  have "set (join_with sep gs) \<subseteq> set sep \<union> (\<Union>g \<in> set gs. set g)" for sep
    by (induction sep gs rule: join_with.induct) auto
  moreover assume "\<forall>g \<in> set gs. flat g"
  ultimately show ?thesis by fastforce
qed

definition agree_flat :: "(string \<Rightarrow> bool) \<Rightarrow> (string \<Rightarrow> bool) \<Rightarrow> bool" where
  "agree_flat h h' \<longleftrightarrow> (\<forall>s. flat s \<longrightarrow> h s = h' s)"

lemma bracketed_loop_agree:
  assumes "agree_flat h h'"
  shows "\<forall>g \<in> set tg. flat g \<Longrightarrow> \<forall>g \<in> set gs. flat g \<Longrightarrow>
    bracketed_loop h gs tg p = bracketed_loop h' gs tg p"
proof (induction gs arbitrary: tg p)
  case Nil
  then show ?case by simp
next
  case (Cons g0 gs)
  have flat_g: "flat (trim_space g0)" using Cons.prems(2) flat_trim by simp
  have joined: "h (join_with '' '' tg) = h' (join_with '' '' tg)"
    using assms flat_join [OF Cons.prems(1)] by (simp add: agree_flat_def)
  have IH: "bracketed_loop h gs tg' p' = bracketed_loop h' gs tg' p'"
    if "\<forall>g \<in> set tg'. flat g" for tg' p'
    using Cons.IH [OF that] Cons.prems(2) by simp
  show ?case
    using flat_g Cons.prems(1)
    by (simp add: Let_def joined IH del: join_with.simps cong: option.case_cong if_cong)
qed

lemma fully_bracketed_agree:
  assumes "agree_flat h h'" and "\<forall>g \<in> set groups. flat g"
  shows "fully_bracketed_with h groups = fully_bracketed_with h' groups"
proof (cases "length groups < 2")
  case True
  then show ?thesis by (simp add: fully_bracketed_with_def)
next
  case False
  then have flat1: "flat (groups ! 1)" using assms(2) by simp
  then have h1: "h (groups ! 1) = h' (groups ! 1)" using assms(1) by (simp add: agree_flat_def)
  from flat1 assms(2) have eq: "bracketed_loop h (drop 2 groups) [groups ! 1] empty_parsed =
    bracketed_loop h' (drop 2 groups) [groups ! 1] empty_parsed"
    by (intro bracketed_loop_agree [OF assms(1)]) (auto dest: in_set_dropD)
  show ?thesis unfolding fully_bracketed_with_def eq h1 ..
qed

lemma raw_title_agree:
  assumes "agree_flat h h'"
  shows "raw_title_with h s = raw_title_with h' s"
proof -
  have eq: "fully_bracketed_with h (sLeading (split_name_structure s)) =
    fully_bracketed_with h' (sLeading (split_name_structure s))"
    using split_leading_flat by (intro fully_bracketed_agree [OF assms]) blast
  show ?thesis unfolding raw_title_with_def Let_def eq ..
qed

lemma leading_weak_agree:
  "agree_flat h h' \<Longrightarrow> \<forall>g \<in> set leading. flat g \<Longrightarrow>
   leading_weak_with h leading core y s = leading_weak_with h' leading core y s"
  unfolding leading_weak_with_def by (simp only: fully_bracketed_agree [of h h' leading])

lemma has_explicit_agree:
  assumes "agree_flat h h'"
  shows "has_explicit_with h s = has_explicit_with h' s"
proof -
  have eq: "leading_weak_with h (sLeading (split_name_structure s)) core y q =
    leading_weak_with h' (sLeading (split_name_structure s)) core y q" for core y q
    using leading_weak_agree [OF assms] split_leading_flat by blast
  show ?thesis
    unfolding has_explicit_with_def Let_def raw_title_agree [OF assms] eq ..
qed

lemma has_explicit_stable: "has_explicit (Suc (Suc n)) s = has_explicit 2 s"
proof -
  have "agree_flat (has_explicit (Suc n)) (has_explicit 1)"
    unfolding agree_flat_def using has_explicit_flat by (metis One_nat_def has_explicit.simps(2))
  from has_explicit_agree [OF this] show ?thesis by (simp add: numeral_2_eq_2)
qed

text \<open>So the unrolled definition satisfies the recursive equation of the code.\<close>


end
