(* ===== verification/MediaParse.thy ===== *)
theory MediaParse
  imports MediaParser
begin

text \<open>
  The parser of one name (parser.go, cache.go): the strong syntax (\<open>parse_strong\<close>), the weak
  syntax (\<open>parse_weak\<close>), their choice (\<open>parse_one\<close>), and the season context a directory gives
  (\<open>episode_with_season_hint\<close>). \<open>parsed_ok\<close> is the well-formedness every parsed name has:
  an episode range within 1 to 9999 with a positive version, or none with version zero; a
  season within 0 to 99; a year within 1900 to 2099, or none. Captured numbers have the shape
  their pattern says (\<open>find_sub_group\<close>).
\<close>

section \<open>The strong syntax\<close>

definition parse_identity_prefix :: "string \<Rightarrow> bool \<Rightarrow> Parsed" where
  "parse_identity_prefix raw0 allow_bare_year =
     (let raw = trim_space raw0
      in if raw = [] then empty_parsed
         else
           let season_explicit = has_explicit_season_syntax raw;
               st = split_name_structure raw;
               bracketed = (if sFullyBracketed st \<and> length (sLeading st) \<ge> 2
                            then parse_fully_bracketed (sLeading st) else None)
           in case bracketed of
                Some p \<Rightarrow> p\<lparr> pSeasonExplicit := pSeasonExplicit p \<or> season_explicit \<rparr>
              | None \<Rightarrow>
                  let raw' = strip_leading_release_group raw;
                      (title, year, season) = title_identity (normalize_scene_separators raw')
                        (allow_bare_year \<and> match_string scene_year_hint_re raw')
                  in empty_parsed\<lparr> pTitle := title, pYear := year, pSeason := season,
                       pSeasonExplicit := season_explicit \<rparr>)"

text \<open>Pattern, and the season, episode, end and version groups (season 0: none).\<close>

definition strong_matchers :: "(re \<times> nat \<times> nat \<times> nat \<times> nat) list" where
  "strong_matchers =
     [(sxe_re, 1, 2, 3, 4), (season_episode_re, 1, 2, 3, 4), (x_re, 1, 2, 3, 4),
      (explicit_episode_re, 0, 1, 2, 3)]"

definition suffix_version :: "string \<Rightarrow> int \<Rightarrow> int" where
  "suffix_version rest version =
     (case find_sub suffix_version_re 1 rest of
        Some (_, _, vm) \<Rightarrow> if atoi (vm ! 1) > 0 then atoi (vm ! 1) else version
      | None \<Rightarrow> version)"

definition strong_match :: "string \<Rightarrow> nat \<times> nat \<times> nat \<times> nat \<Rightarrow> nat \<times> nat \<times> string list \<Rightarrow> Parsed option" where
  "strong_match stem groups loc =
     (let (sg, eg, ng, vg) = groups; (i, j, sub) = loc;
          start = atoi (sub ! eg);
          stop = (if ng > 0 \<and> sub ! ng \<noteq> [] then atoi (sub ! ng) else start)
      in if \<not> valid_episode_range start stop then None
         else
           let version0 = (if vg > 0 \<and> sub ! vg \<noteq> [] \<and> atoi (sub ! vg) > 0 then atoi (sub ! vg) else 1);
               version = suffix_version (drop j stem) version0;
               identity = parse_identity_prefix (take i stem) True
           in if pTitle identity = [] then None
              else Some \<lparr> pTitle = pTitle identity, pYear = pYear identity,
                     pSeason = (if sg > 0 then atoi (sub ! sg) else pSeason identity),
                     pSeasonExplicit = False,
                     pEpisodeStart = start, pEpisodeEnd = stop, pVersion = version \<rparr>)"

text \<open>The first pattern that matches decides, also when its range is invalid.\<close>

fun strong_loop :: "(re \<times> nat \<times> nat \<times> nat \<times> nat) list \<Rightarrow> string \<Rightarrow> Parsed option" where
  "strong_loop [] stem = None"
| "strong_loop ((r, groups) # ms) stem =
     (case find_sub r 4 stem of
        None \<Rightarrow> strong_loop ms stem
      | Some loc \<Rightarrow> strong_match stem groups loc)"

definition parse_strong :: "string \<Rightarrow> Parsed option" where
  "parse_strong stem = strong_loop strong_matchers stem"

definition has_strong_episode_syntax :: "string \<Rightarrow> bool" where
  "has_strong_episode_syntax stem \<longleftrightarrow> parse_strong stem \<noteq> None"

section \<open>The weak syntax\<close>

definition parsed_weak_episode_atom :: "string \<Rightarrow> episodeAtom \<Rightarrow> Parsed option" where
  "parsed_weak_episode_atom title_value atom =
     (if \<not> valid_episode_range (aStart atom) (aEnd atom) then None
      else
        let raw0 = raw_title_from_prefix (trim_space title_value)
        in if raw0 = [] then None
           else
             let (raw, title_version) = title_and_version raw0;
                 (title, year, season) = title_identity_from_raw raw;
                 version0 = (if aVersion atom \<le> 0 then 1 else aVersion atom);
                 version = (if version0 = 1 \<and> title_version > 0 then title_version else version0)
             in Some \<lparr> pTitle = title, pYear = year,
                  pSeason = (if aHasSeason atom then aSeason atom else season),
                  pSeasonExplicit = (aHasSeason atom \<or> has_explicit_season_syntax raw),
                  pEpisodeStart = aStart atom, pEpisodeEnd = aEnd atom, pVersion = version \<rparr>)"

text \<open>The first trailing group that holds an episode of a title that is not empty.\<close>

fun trailing_episode :: "string \<Rightarrow> string list \<Rightarrow> Parsed option" where
  "trailing_episode cleaned [] = None"
| "trailing_episode cleaned (g # gs) =
     (if standalone_year g > 0 \<or> season_from_atom g \<noteq> None then trailing_episode cleaned gs
      else case parse_bracket_episode_atom g of
          None \<Rightarrow> trailing_episode cleaned gs
        | Some atom \<Rightarrow>
            (case parsed_weak_episode_atom cleaned atom of
               None \<Rightarrow> trailing_episode cleaned gs
             | Some p \<Rightarrow> Some p))"

text \<open>The end of \<open>parseWeak\<close>: the tail of the core, or a title without an episode.\<close>

definition weak_title :: "string \<Rightarrow> int \<Rightarrow> int option \<Rightarrow> Parsed" where
  "weak_title cleaned qual_year qual_season =
     (let raw0 = raw_title_from_prefix cleaned;
          raw = (if raw0 = [] then trim_space cleaned else raw0);
          (title, year, season) = title_identity_from_raw raw
      in (apply_qualifiers qual_year qual_season
            (empty_parsed\<lparr> pTitle := title, pYear := year, pSeason := season \<rparr>)))"

definition weak_tail :: "string \<Rightarrow> int \<Rightarrow> int option \<Rightarrow> Parsed" where
  "weak_tail cleaned0 qual_year qual_season =
     (let (cleaned, paren_year) =
            (case trailing_group cleaned0 CHR ''('' CHR '')'' of
               Some (b, g) \<Rightarrow>
                 if match_string weak_tail_re b then (b, standalone_year g) else (cleaned0, 0)
             | None \<Rightarrow> (cleaned0, 0));
          tail = (case find_sub weak_tail_re 3 cleaned of
               None \<Rightarrow> None
             | Some (i, _, m) \<Rightarrow> parsed_weak_episode_atom (take i cleaned) (weak_episode_atom m))
      in case tail of
           Some p \<Rightarrow> apply_qualifiers (if qual_year = 0 then paren_year else qual_year) qual_season p
         | None \<Rightarrow> weak_title cleaned qual_year qual_season)"

definition parse_weak :: "string \<Rightarrow> Parsed" where
  "parse_weak stem =
     (let st = split_name_structure stem;
          bracketed = (if sFullyBracketed st then parse_fully_bracketed (sLeading st) else None)
      in case bracketed of
           Some p \<Rightarrow> p
         | None \<Rightarrow>
             let (qual_year, qual_season) = qualifiers_from_groups (sTrailing st);
                 leading = (if length (sLeading st) \<ge> 2
                   then parse_leading_bracket_weak_episode (sLeading st) (sCore st) qual_year qual_season
                   else None)
             in case leading of
                  Some p \<Rightarrow> p
                | None \<Rightarrow>
                    let cleaned = (if length (sLeading st) \<ge> 2
                          then join_with '' '' (tl (sLeading st)) @ '' '' @ sCore st else sCore st)
                    in case trailing_episode cleaned (sTrailing st) of
                         Some p \<Rightarrow> apply_qualifiers qual_year qual_season p
                       | None \<Rightarrow> weak_tail cleaned qual_year qual_season)"

definition parse_one_uncached :: "string \<Rightarrow> Parsed" where
  "parse_one_uncached stem =
     (case parse_strong stem of
        Some p \<Rightarrow> p\<lparr> pSeasonExplicit := has_explicit_season_syntax stem \<rparr>
      | None \<Rightarrow> (parse_weak stem)\<lparr> pSeasonExplicit := has_explicit_season_syntax stem \<rparr>)"

section \<open>The season context of a directory\<close>

definition hint_stem :: "Name \<Rightarrow> string" where
  "hint_stem name =
     (if cExtension (nComponents name) \<noteq> [] then
        (let value = trim_space (nInput name) in trim_space (trim_suffix value (ext value)))
      else fst (strip_media_extension (nInput name)))"

definition hinted :: "int \<Rightarrow> int \<Rightarrow> int \<Rightarrow> int \<Rightarrow> Parsed" where
  "hinted season start stop version =
     empty_parsed\<lparr> pSeason := season, pEpisodeStart := start, pEpisodeEnd := stop, pVersion := version \<rparr>"

definition episode_with_season_hint :: "Name \<Rightarrow> int \<Rightarrow> Parsed \<times> bool" where
  "episode_with_season_hint name hint =
     (let p = nParsed name; stem = hint_stem name
      in if pEpisodeStart p > 0 then
           (let p' = (if pSeason p = 0 \<and> hint \<ge> 0 \<and> \<not> pSeasonExplicit p
                      then p\<lparr> pSeason := hint \<rparr> else p)
            in (p', pSeason p' \<ge> 0 \<and> valid_episode_range (pEpisodeStart p') (pEpisodeEnd p')))
         else if hint < 0 \<or> stem = [] then (empty_parsed, False)
         else
           let tail = (case find_sub weak_tail_re 3 stem of
                  None \<Rightarrow> None
                | Some (_, _, m) \<Rightarrow> valid_atom (weak_episode_atom m))
           in case tail of
                Some a \<Rightarrow> (hinted hint (aStart a) (aEnd a) (aVersion a), True)
              | None \<Rightarrow>
                  if \<not> list_all is_digit stem then (empty_parsed, False)
                  else
                    let (n, ok) = atoi_full stem
                    in if \<not> ok \<or> n \<le> 0 \<or> n > 9999 then (empty_parsed, False)
                       else (hinted hint n n 1, True))"

section \<open>The cache of context-free results\<close>

type_synonym parser_cache = "(string, Parsed) gomap"

definition parse_cache_limit :: nat where
  "parse_cache_limit = 8192"

definition cache_get :: "parser_cache \<Rightarrow> string \<Rightarrow> Parsed option" where
  "cache_get c stem = get c stem"

definition cache_put :: "string \<Rightarrow> Parsed \<Rightarrow> parser_cache \<Rightarrow> parser_cache" where
  "cache_put stem value c =
     put stem value (if length c \<ge> parse_cache_limit then [] else c)"

definition parse_one :: "parser_cache \<Rightarrow> string \<Rightarrow> Parsed \<times> parser_cache" where
  "parse_one c stem =
     (if stem = [] then (empty_parsed, c)
      else case cache_get c stem of
          Some p \<Rightarrow> (p, c)
        | None \<Rightarrow> let p = parse_one_uncached stem in (p, cache_put stem p c))"

text \<open>What the cache may hold: results of the parser, at most \<open>parse_cache_limit\<close> of them.\<close>

definition cache_ok :: "parser_cache \<Rightarrow> bool" where
  "cache_ok c \<longleftrightarrow> wf_map c \<and> length c \<le> parse_cache_limit \<and>
     (\<forall>(stem, p) \<in> set c. p = parse_one_uncached stem)"

definition parse_plain :: "string \<Rightarrow> Parsed" where
  "parse_plain stem = (if stem = [] then empty_parsed else parse_one_uncached stem)"

lemma cache_put_ok:
  assumes "cache_ok c"
  shows "cache_ok (cache_put stem (parse_one_uncached stem) c)"
proof -
  let ?d = "if length c \<ge> parse_cache_limit then [] else c"
  have d: "wf_map ?d" "length ?d < parse_cache_limit" "set ?d \<subseteq> set c"
    using assms by (auto simp: cache_ok_def parse_cache_limit_def)
  have "length (put stem (parse_one_uncached stem) ?d) \<le> parse_cache_limit"
    using d(2) by (simp add: length_put)
  moreover have "\<forall>(s, p) \<in> set (put stem (parse_one_uncached stem) ?d). p = parse_one_uncached s"
    using set_put [of stem "parse_one_uncached stem" ?d] d(3) assms
    unfolding cache_ok_def by blast
  ultimately show ?thesis using d(1) by (simp add: cache_ok_def cache_put_def)
qed

text \<open>Parsing through any such cache gives the parser's result and keeps the cache such.\<close>

text \<open>C37. Parsing through the bounded cache gives what parsing without it gives, and keeps the cache
  within its limit and free of wrong entries.\<close>

theorem parse_one_cache:
  assumes "cache_ok c"
  shows "fst (parse_one c stem) = parse_plain stem \<and> cache_ok (snd (parse_one c stem))"
proof (cases "get c stem")
  case None
  then show ?thesis
    using assms cache_put_ok [OF assms] by (simp add: parse_one_def parse_plain_def cache_get_def Let_def)
next
  case (Some p)
  then have "(stem, p) \<in> set c" by (rule map_of_SomeD)
  then have "p = parse_one_uncached stem" using assms unfolding cache_ok_def by blast
  with Some assms show ?thesis by (simp add: parse_one_def parse_plain_def cache_get_def)
qed

section \<open>What captured numbers can be\<close>

lemma read_digits_append1: "read_digits (s @ [c]) = 10 * read_digits s + digit_val c"
  by (simp add: read_digits_def)

lemma read_digits_bound: "list_all is_digit s \<Longrightarrow> read_digits s < 10 ^ length s"
proof (induction s rule: rev_induct)
  case Nil
  then show ?case by (simp add: read_digits_def)
next
  case (snoc c s)
  then have "read_digits s < 10 ^ length s" "digit_val c < 10"
    by (auto simp: digit_val_def is_digit_def Let_def)
  then show ?case by (simp add: read_digits_append1)
qed

lemma atoi_digits:
  assumes "list_all is_digit s"
  shows "0 \<le> atoi s \<and> atoi s < 10 ^ length s"
proof (cases s)
  case Nil
  then show ?thesis by simp
next
  case (Cons c cs)
  have c: "c \<noteq> CHR ''-''" "c \<noteq> CHR ''+''"
    using assms Cons by (auto simp: is_digit_def Let_def)
  have "int (read_digits s) < 10 ^ length s"
    using read_digits_bound [OF assms] by (metis of_nat_less_iff of_nat_numeral of_nat_power)
  with c Cons assms show ?thesis
    by (auto simp: atoi_def atoi_full_def Let_def max_int_def)
qed

lemma find_sub_group:
  assumes "find_sub r n s = Some (i, j, m)" and "1 \<le> k" and "k \<le> n"
  shows "m ! k = [] \<or> (\<exists>q a b. (k, q) \<in> set (caps_in r) \<and> spans q s a b \<and> a \<le> length s \<and>
    m ! k = substr s a b)"
proof -
  from assms(1) obtain c where c: "find_match r s = Some (i, j, c)"
    and m: "m = substr s i j # map (group s c) [1 ..< Suc n]"
    by (auto simp: find_sub_def split: option.splits)
  have "m ! k = group s c k"
    using assms(2,3) m by (cases k) (auto simp del: upt_Suc simp: nth_map)
  with group_span [OF c] show ?thesis by simp
qed

text \<open>A group that only captures up to \<open>w\<close> digits is a number below \<open>10 ^ w\<close>.\<close>

definition captures_digits :: "re \<Rightarrow> nat \<Rightarrow> nat \<Rightarrow> bool" where
  "captures_digits r k w \<longleftrightarrow> 0 < w \<and> (\<forall>q. (k, q) \<in> set (caps_in r) \<longrightarrow> q = digits_upto w)"

lemma group_number:
  assumes "find_sub r n s = Some (i, j, m)" and "1 \<le> k" and "k \<le> n" and "captures_digits r k w"
  shows "0 \<le> atoi (m ! k) \<and> atoi (m ! k) < 10 ^ w"
proof (cases "m ! k = []")
  case True
  then show ?thesis by simp
next
  case False
  with find_sub_group [OF assms(1-3)] assms(4) obtain a b
    where "spans (digits_upto w) s a b" "a \<le> length s" "m ! k = substr s a b" "0 < w"
    unfolding captures_digits_def by blast
  then have d: "list_all is_digit (m ! k)" "length (m ! k) \<le> w"
    using spans_digits_upto by metis+
  have "(10 :: int) ^ length (m ! k) \<le> 10 ^ w" using d(2) by (simp add: power_increasing)
  with atoi_digits [OF d(1)] show ?thesis by linarith
qed

lemma captures_season:
  "captures_digits sxe_re 1 2" "captures_digits season_episode_re 1 2" "captures_digits x_re 1 2"
  "captures_digits bracket_sxe_re 1 2" "captures_digits bracket_x_re 1 2"
  by (simp_all add: captures_digits_def sxe_re_def season_episode_re_def x_re_def bracket_sxe_re_def
      bracket_x_re_def sxe_body_def x_body_def start_or_sep_def range_tail_e_def version_tail_def)

text \<open>The year patterns capture a year of the twentieth or twenty-first century.\<close>

lemma spans_year:
  assumes "spans year_digits s a b" and "a \<le> length s"
  shows "1900 \<le> atoi (substr s a b) \<and> atoi (substr s a b) \<le> 2099"
proof -
  from assms(1) have b: "b = a + 4" "a + 4 \<le> length s" "is_digit (s ! (a + 2))" "is_digit (s ! (a + 3))"
    and hd: "s ! a = CHR ''1'' \<and> s ! Suc a = CHR ''9'' \<or> s ! a = CHR ''2'' \<and> s ! Suc a = CHR ''0''"
    by (auto simp: year_digits_def chr_def digit_def numeral_eq_Suc)
  then have "substr s a b = [s ! a, s ! Suc a, s ! (a + 2), s ! (a + 3)]"
    by (simp add: substr_step numeral_eq_Suc) (simp add: substr_def)
  moreover have "digit_val (s ! (a + 2)) \<le> 9" "digit_val (s ! (a + 3)) \<le> 9"
    using b(3,4) by (auto simp: is_digit_def digit_val_def Let_def)
  ultimately show ?thesis
    using hd b(3,4) by (auto simp: atoi_def atoi_full_def Let_def read_digits_def max_int_def
        is_digit_def digit_val_def)
qed

definition year_ok :: "int \<Rightarrow> bool" where
  "year_ok y \<longleftrightarrow> y = 0 \<or> 1900 \<le> y \<and> y \<le> 2099"

lemma year_group:
  assumes "find_sub r 1 s = Some (i, j, m)"
    and "\<forall>q. (1, q) \<in> set (caps_in r) \<longrightarrow> q = year_digits"
  shows "year_ok (atoi (m ! 1))"
proof (cases "m ! 1 = []")
  case True
  then show ?thesis by (simp add: year_ok_def)
next
  case False
  with find_sub_group [OF assms(1), of 1] assms(2) obtain a b
    where "spans year_digits s a b" "a \<le> length s" "m ! 1 = substr s a b" by auto
  then show ?thesis using spans_year by (simp add: year_ok_def)
qed

section \<open>Well-formed results\<close>

named_theorems parse_ok \<open>what each parser function keeps of the bounds of its result\<close>

definition season_ok :: "int \<Rightarrow> bool" where
  "season_ok n \<longleftrightarrow> 0 \<le> n \<and> n \<le> 99"

text \<open>The range of an episode, as the program promises it: from 1 to 9999, not ending before it starts.\<close>

definition episode_range :: "int \<Rightarrow> int \<Rightarrow> bool" where
  "episode_range start stop \<longleftrightarrow> 0 < start \<and> start \<le> stop \<and> stop \<le> 9999"

definition episode_ok :: "int \<Rightarrow> int \<Rightarrow> int \<Rightarrow> bool" where
  "episode_ok start stop version \<longleftrightarrow>
     start = 0 \<and> stop = 0 \<and> version = 0 \<or> episode_range start stop \<and> 1 \<le> version"

lemma valid_range_iff: "valid_episode_range start stop \<longleftrightarrow> episode_range start stop"
  by (auto simp: valid_episode_range_def episode_range_def)

lemma episode_ok_iff: "episode_ok start stop version \<longleftrightarrow>
    start = 0 \<and> stop = 0 \<and> version = 0 \<or> valid_episode_range start stop \<and> 1 \<le> version"
  by (simp add: episode_ok_def valid_range_iff)

definition parsed_ok :: "Parsed \<Rightarrow> bool" where
  "parsed_ok p \<longleftrightarrow> year_ok (pYear p) \<and> season_ok (pSeason p) \<and>
     episode_ok (pEpisodeStart p) (pEpisodeEnd p) (pVersion p)"

lemma ok_zero [parse_ok]: "year_ok 0" "season_ok 0" "episode_ok 0 0 0" "parsed_ok empty_parsed"
  by (simp_all add: year_ok_def season_ok_def episode_ok_iff parsed_ok_def empty_parsed_def)

lemma parsed_okI:
  "year_ok y \<Longrightarrow> season_ok n \<Longrightarrow> episode_ok s e v \<Longrightarrow>
   parsed_ok \<lparr> pTitle = t, pYear = y, pSeason = n, pSeasonExplicit = x,
     pEpisodeStart = s, pEpisodeEnd = e, pVersion = v \<rparr>"
  by (simp add: parsed_ok_def)

lemma parsed_ok_update [simp]:
  "parsed_ok (p\<lparr> pSeasonExplicit := x \<rparr>) = parsed_ok p"
  "parsed_ok (p\<lparr> pTitle := t \<rparr>) = parsed_ok p"
  "parsed_ok (p\<lparr> pSeason := n \<rparr>) \<longleftrightarrow>
     year_ok (pYear p) \<and> season_ok n \<and> episode_ok (pEpisodeStart p) (pEpisodeEnd p) (pVersion p)"
  "parsed_ok (p\<lparr> pYear := y \<rparr>) \<longleftrightarrow>
     year_ok y \<and> season_ok (pSeason p) \<and> episode_ok (pEpisodeStart p) (pEpisodeEnd p) (pVersion p)"
  by (auto simp: parsed_ok_def)

lemma parsed_okD:
  "parsed_ok p \<Longrightarrow> year_ok (pYear p) \<and> season_ok (pSeason p) \<and>
     episode_ok (pEpisodeStart p) (pEpisodeEnd p) (pVersion p)"
  by (simp add: parsed_ok_def)

lemma season_from_parts_ok: "season_from_parts ps = Some n \<Longrightarrow> season_ok n"
  by (induction ps) (auto simp: season_ok_def split: if_splits prod.splits)

lemma season_from_atom_ok: "season_from_atom v = Some n \<Longrightarrow> season_ok n"
  by (auto simp: season_from_atom_def split: option.splits dest: season_from_parts_ok)

lemma strip_season_suffix_ok: "strip_season_suffix t = Some (c, n) \<Longrightarrow> season_ok n"
  by (auto simp: strip_season_suffix_def Let_def split: option.splits if_splits
      dest: season_from_parts_ok)

lemma standalone_year_ok: "year_ok (standalone_year v)"
proof (cases "find_sub year_atom_re 1 (trim_space v)")
  case None
  then show ?thesis by (simp add: standalone_year_def year_ok_def)
next
  case (Some x)
  obtain i j m where x: "x = (i, j, m)" by (cases x)
  have "year_ok (atoi (m ! 1))"
    using Some unfolding x by (rule year_group) (simp add: year_atom_re_def year_digits_def)
  with Some x show ?thesis by (simp add: standalone_year_def)
qed

lemma strip_year_ok:
  assumes "strip_year r s = Some (t, y)" and "\<forall>q. (1, q) \<in> set (caps_in r) \<longrightarrow> q = year_digits"
  shows "year_ok y"
proof -
  from assms(1) obtain i j m where "find_sub r 1 (clean_title s) = Some (i, j, m)" "y = atoi (m ! 1)"
    by (auto simp: strip_year_def Let_def split: option.splits if_splits)
  with year_group assms(2) show ?thesis by blast
qed

lemma strip_years_ok:
  "strip_parenthesized_year s = Some (t, y) \<Longrightarrow> year_ok y"
  "strip_bare_year s = Some (t, y) \<Longrightarrow> year_ok y"
  unfolding strip_parenthesized_year_def strip_bare_year_def
  by (erule strip_year_ok, simp add: year_paren_tail_re_def year_tail_re_def start_or_sep_def
      year_digits_def)+

lemma title_identity_loop_ok:
  "title_identity_loop i bare t y n h = (t', y', n') \<Longrightarrow> year_ok y \<Longrightarrow> season_ok n \<Longrightarrow>
   year_ok y' \<and> season_ok n'"
proof (induction i arbitrary: t y n h)
  case 0
  then show ?case by simp
next
  case (Suc i)
  let ?a = "if y = 0 then (case strip_parenthesized_year t of Some r \<Rightarrow> Some r
    | None \<Rightarrow> if bare then strip_bare_year t else None) else None"
  let ?b = "if h then None else strip_season_suffix t"
  consider s v where "?a = Some (s, v)" | s v where "?a = None" "?b = Some (s, v)"
    | "?a = None" "?b = None"
    by (cases ?a; cases ?b; fastforce)
  then show ?case
  proof cases
    case 1
    then have "year_ok v"
      by (auto split: if_splits option.splits dest: strip_years_ok)
    with 1 Suc show ?thesis by (simp del: if_split_asm split del: if_split)
  next
    case 2
    then have "season_ok v"
      by (auto split: if_splits dest: strip_season_suffix_ok)
    with 2 Suc show ?thesis by (simp split del: if_split)
  next
    case 3
    with Suc show ?thesis by (simp split del: if_split)
  qed
qed

lemma title_identity_ok:
  assumes "title_identity t bare = (t', y, n)"
  shows "year_ok y \<and> season_ok n"
proof -
  obtain u y' n' where l: "title_identity_loop 4 bare (clean_title t) 0 0 False = (u, y', n')"
    by (cases "title_identity_loop 4 bare (clean_title t) 0 0 False")
  with assms title_identity_loop_ok [OF l] ok_zero show ?thesis by (simp add: title_identity_def)
qed

lemma title_identity_from_raw_ok: "title_identity_from_raw t = (t', y, n) \<Longrightarrow> year_ok y \<and> season_ok n"
  unfolding title_identity_from_raw_def by (rule title_identity_ok)

definition atom_ok :: "episodeAtom \<Rightarrow> bool" where
  "atom_ok a \<longleftrightarrow> season_ok (aSeason a) \<and> valid_episode_range (aStart a) (aEnd a) \<and> 1 \<le> aVersion a"

lemma weak_atom_ok: "valid_episode_range (aStart (weak_episode_atom m)) (aEnd (weak_episode_atom m)) \<Longrightarrow>
  atom_ok (weak_episode_atom m)"
  by (auto simp: atom_ok_def weak_episode_atom_def season_ok_def)

lemma bracket_atom_loop_ok:
  assumes "bracket_atom_loop cs v = Some (Some a)"
    and "\<forall>(r, sg, eg, ng, vg) \<in> set cs. sg = 0 \<or> sg = 1 \<and> captures_digits r 1 2"
  shows "atom_ok a"
  using assms
proof (induction cs)
  case Nil
  then show ?case by simp
next
  case (Cons c cs)
  obtain r sg eg ng vg where c: "c = (r, sg, eg, ng, vg)" by (cases c)
  show ?case
  proof (cases "find_sub r 4 v")
    case None
    with Cons c show ?thesis by simp
  next
    case (Some x)
    obtain i j m where x: "x = (i, j, m)" by (cases x)
    have a: "a = atom_of m sg eg ng vg" "valid_episode_range (aStart a) (aEnd a)"
      using Cons.prems(1) Some c x by (auto simp: valid_atom_def split: if_splits)
    have "sg = 0 \<or> sg = 1 \<and> 0 \<le> atoi (m ! 1) \<and> atoi (m ! 1) < 10 ^ 2"
      using Cons.prems(2) c Some x group_number [of r 4 v i j m 1 2] by auto
    with a show ?thesis by (auto simp: atom_ok_def atom_of_def season_ok_def)
  qed
qed

lemma parse_bracket_atom_ok: "parse_bracket_episode_atom v = Some a \<Longrightarrow> atom_ok a"
proof (cases "bracket_atom_loop bracket_atoms v")
  case None
  assume "parse_bracket_episode_atom v = Some a"
  with None show ?thesis
    by (auto simp: parse_bracket_episode_atom_def valid_atom_def split: option.splits if_splits
        dest: weak_atom_ok)
next
  case (Some r)
  assume "parse_bracket_episode_atom v = Some a"
  with Some have "bracket_atom_loop bracket_atoms v = Some (Some a)"
    by (simp add: parse_bracket_episode_atom_def)
  then show ?thesis
    by (rule bracket_atom_loop_ok) (use captures_season in \<open>simp add: bracket_atoms_def\<close>)
qed

lemma bracketed_loop_ok:
  assumes "parsed_ok p" and "pEpisodeStart p = 0"
  shows "case bracketed_loop hes gs tg p of
      Inl None \<Rightarrow> True | Inl (Some q) \<Rightarrow> parsed_ok q
    | Inr q \<Rightarrow> parsed_ok q \<and> pEpisodeStart q = 0"
  using assms
proof (induction gs arbitrary: tg p)
  case Nil
  then show ?case by simp
next
  case (Cons g0 gs)
  let ?g = "trim_space g0"
  consider "?g = []" | "?g \<noteq> []" "standalone_year ?g > 0"
    | n where "?g \<noteq> []" "\<not> standalone_year ?g > 0" "season_from_atom ?g = Some n"
    | "?g \<noteq> []" "\<not> standalone_year ?g > 0" "season_from_atom ?g = None"
      "parse_bracket_episode_atom ?g = None"
    | a where "?g \<noteq> []" "\<not> standalone_year ?g > 0" "season_from_atom ?g = None"
      "parse_bracket_episode_atom ?g = Some a"
    by (cases "season_from_atom ?g"; cases "parse_bracket_episode_atom ?g"; blast)
  then show ?case
  proof cases
    case 2
    let ?p' = "if pYear p = 0 then p\<lparr> pYear := standalone_year ?g \<rparr> else p"
    have "parsed_ok ?p'" "pEpisodeStart ?p' = 0"
      using Cons.prems standalone_year_ok [of ?g] by (simp_all add: parsed_ok_def)
    from Cons.IH [OF this, of tg] 2 show ?thesis by (simp split del: if_split)
  next
    case 3
    have "parsed_ok (p\<lparr> pSeason := n, pSeasonExplicit := True \<rparr>)"
      "pEpisodeStart (p\<lparr> pSeason := n, pSeasonExplicit := True \<rparr>) = 0"
      using Cons.prems season_from_atom_ok [OF 3(3)] by (simp_all add: parsed_ok_def)
    from Cons.IH [OF this, of tg] 3 show ?thesis by simp
  next
    case 5
    obtain t y n where ti: "title_identity (clean_title (join_with '' '' tg)) False = (t, y, n)"
      by (cases "title_identity (clean_title (join_with '' '' tg)) False")
    from parse_bracket_atom_ok [OF 5(4)] title_identity_ok [OF ti] Cons.prems(1)
    have ok: "atom_ok a" "year_ok y" "season_ok n" "year_ok (pYear p)" "season_ok (pSeason p)"
      by (simp_all add: parsed_okD)
    with 5 ti show ?thesis
      by (auto simp: Let_def parsed_ok_def episode_ok_iff atom_ok_def)
  qed (use Cons in simp_all)
qed

lemma fully_bracketed_ok:
  assumes "fully_bracketed_with hes gs = Some p"
  shows "parsed_ok p"
proof (cases "bracketed_loop hes (drop 2 gs) [gs ! 1] empty_parsed")
  case (Inl r)
  with assms have "r = Some p" by (simp add: fully_bracketed_with_def split: if_splits)
  with Inl bracketed_loop_ok [of empty_parsed hes "drop 2 gs" "[gs ! 1]"] ok_zero(4)
  show ?thesis by (simp add: empty_parsed_def)
next
  case (Inr q)
  obtain t y n where ti: "title_identity (clean_title (gs ! 1)) False = (t, y, n)"
    by (cases "title_identity (clean_title (gs ! 1)) False")
  have q: "parsed_ok q"
    using Inr bracketed_loop_ok [of empty_parsed hes "drop 2 gs" "[gs ! 1]"] ok_zero(4)
    by (simp add: empty_parsed_def)
  from assms Inr ti have "p = (let p1 = (if pYear q = 0 then q\<lparr> pYear := y \<rparr> else q);
      p2 = (if pSeason p1 = 0 \<and> \<not> pSeasonExplicit p1
        then p1\<lparr> pSeason := n, pSeasonExplicit := hes (gs ! 1) \<rparr> else p1) in p2\<lparr> pTitle := t \<rparr>)"
    by (auto simp: fully_bracketed_with_def Let_def split: if_splits)
  with q title_identity_ok [OF ti] show ?thesis by (simp add: Let_def parsed_okD)
qed

lemma apply_qualifiers_ok:
  assumes "parsed_ok p" and "year_ok y" and "\<And>n. s = Some n \<Longrightarrow> season_ok n"
  shows "parsed_ok (apply_qualifiers y s p)"
  using assms by (cases s) (simp_all add: apply_qualifiers_def Let_def parsed_okD)

lemma qualifiers_loop_ok:
  "qualifiers_loop gs y s = (y', s') \<Longrightarrow> year_ok y \<Longrightarrow> \<forall>n. s = Some n \<longrightarrow> season_ok n \<Longrightarrow>
   year_ok y' \<and> (\<forall>n. s' = Some n \<longrightarrow> season_ok n)"
proof (induction gs arbitrary: y s)
  case Nil
  then show ?case by simp
next
  case (Cons g gs)
  have "year_ok (if y = 0 then standalone_year g else y)"
    using Cons.prems(2) standalone_year_ok by simp
  moreover have "\<forall>n. (case s of None \<Rightarrow> season_from_atom g | Some n \<Rightarrow> Some n) = Some n \<longrightarrow> season_ok n"
    using Cons.prems(3) season_from_atom_ok by (cases s) auto
  moreover have "qualifiers_loop gs (if y = 0 then standalone_year g else y)
      (case s of None \<Rightarrow> season_from_atom g | Some n \<Rightarrow> Some n) = (y', s')"
    using Cons.prems(1) by (simp only: qualifiers_loop.simps)
  ultimately show ?case by (intro Cons.IH)
qed

lemma qualifiers_ok:
  "qualifiers_from_groups gs = (y, s) \<Longrightarrow> year_ok y \<and> (\<forall>n. s = Some n \<longrightarrow> season_ok n)"
  unfolding qualifiers_from_groups_def by (erule qualifiers_loop_ok) (simp_all add: ok_zero)

lemma leading_value_ok: "leading_value core = (v, y) \<Longrightarrow> year_ok y"
  by (auto simp: leading_value_def Let_def ok_zero standalone_year_ok split: option.splits if_splits)

lemma leading_weak_ok:
  assumes "leading_weak_with hes gs core y s = Some p" and "year_ok y"
    and "\<And>n. s = Some n \<Longrightarrow> season_ok n"
  shows "parsed_ok p"
proof -
  obtain v py where lv: "leading_value core = (v, py)" by force
  from assms(1) lv obtain m q where q: "fully_bracketed_with hes gs = Some q"
    and a: "valid_episode_range (aStart (weak_episode_atom m)) (aEnd (weak_episode_atom m))"
    and p: "p = apply_qualifiers (if y = 0 then py else y) s
      \<lparr> pTitle = pTitle q, pYear = pYear q, pSeason = pSeason q, pSeasonExplicit = pSeasonExplicit q,
        pEpisodeStart = aStart (weak_episode_atom m), pEpisodeEnd = aEnd (weak_episode_atom m),
        pVersion = (if aVersion (weak_episode_atom m) \<le> 0 then 1 else aVersion (weak_episode_atom m)) \<rparr>"
    by (auto simp: leading_weak_with_def Let_def split: option.splits if_splits)
  show ?thesis
    unfolding p
    using parsed_okD [OF fully_bracketed_ok [OF q]] assms(2,3) a leading_value_ok [OF lv]
    by (intro apply_qualifiers_ok parsed_okI) (auto simp: episode_ok_iff)
qed

lemma parse_identity_prefix_ok: "parsed_ok (parse_identity_prefix raw bare)"
proof -
  have "parsed_ok (let (title, year, season) = title_identity t b
    in empty_parsed\<lparr> pTitle := title, pYear := year, pSeason := season, pSeasonExplicit := x \<rparr>)" for t b x
    using title_identity_ok [of t b] ok_zero(4)
    by (auto simp: parsed_ok_def empty_parsed_def split: prod.splits)
  then show ?thesis
    by (auto simp: parse_identity_prefix_def Let_def ok_zero parse_fully_bracketed_def
        dest: fully_bracketed_ok split: option.splits if_splits)
qed

lemma suffix_version_pos: "1 \<le> v \<Longrightarrow> 1 \<le> suffix_version rest v"
  by (auto simp: suffix_version_def split: option.splits)

lemma strong_match_ok:
  assumes "strong_match stem (sg, eg, ng, vg) loc = Some p" and "find_sub r 4 stem = Some loc"
    and "sg = 0 \<or> sg = 1 \<and> captures_digits r 1 2"
  shows "parsed_ok p \<and> valid_episode_range (pEpisodeStart p) (pEpisodeEnd p) \<and> pTitle p \<noteq> []"
proof -
  obtain i j sub where loc: "loc = (i, j, sub)" by (cases loc)
  have "sg = 0 \<or> sg = 1 \<and> season_ok (atoi (sub ! 1))"
    using assms(2,3) loc group_number [of r 4 stem i j sub 1 2] by (auto simp: season_ok_def)
  moreover have "year_ok (pYear (parse_identity_prefix (take i stem) True))"
    "season_ok (pSeason (parse_identity_prefix (take i stem) True))"
    using parse_identity_prefix_ok parsed_okD by blast+
  ultimately show ?thesis
    using assms(1) loc
    by (auto simp: strong_match_def Let_def episode_ok_iff intro!: parsed_okI suffix_version_pos
        split: if_splits)
qed

lemma strong_loop_ok:
  assumes "strong_loop ms stem = Some p"
    and "\<forall>(r, sg, eg, ng, vg) \<in> set ms. sg = 0 \<or> sg = 1 \<and> captures_digits r 1 2"
  shows "parsed_ok p \<and> valid_episode_range (pEpisodeStart p) (pEpisodeEnd p) \<and> pTitle p \<noteq> []"
  using assms
proof (induction ms stem rule: strong_loop.induct)
  case (2 r groups ms stem)
  obtain sg eg ng vg where g: "groups = (sg, eg, ng, vg)" by (cases groups)
  show ?case
  proof (cases "find_sub r 4 stem")
    case None
    with 2 show ?thesis by simp
  next
    case (Some loc)
    with 2 g show ?thesis using strong_match_ok [of stem sg eg ng vg loc p r] by simp
  qed
qed simp

lemma parse_strong_ok:
  "parse_strong stem = Some p \<Longrightarrow>
   parsed_ok p \<and> valid_episode_range (pEpisodeStart p) (pEpisodeEnd p) \<and> pTitle p \<noteq> []"
  unfolding parse_strong_def
  by (erule strong_loop_ok) (use captures_season in \<open>simp add: strong_matchers_def\<close>)

lemma parsed_weak_ok:
  assumes "parsed_weak_episode_atom t a = Some p" and "atom_ok a"
  shows "parsed_ok p"
proof -
  obtain raw tv where tv: "title_and_version (raw_title_from_prefix (trim_space t)) = (raw, tv)" by force
  obtain u y n where ti: "title_identity_from_raw raw = (u, y, n)"
    by (cases "title_identity_from_raw raw")
  from title_identity_from_raw_ok [OF ti] assms tv ti show ?thesis
    by (auto simp: parsed_weak_episode_atom_def Let_def atom_ok_def episode_ok_iff
        intro!: parsed_okI split: if_splits)
qed

lemma trailing_episode_ok: "trailing_episode c gs = Some p \<Longrightarrow> parsed_ok p"
  by (induction gs)
    (auto split: if_splits option.splits dest: parse_bracket_atom_ok parsed_weak_ok)

lemma weak_title_ok:
  assumes "year_ok y" and "\<And>n. s = Some n \<Longrightarrow> season_ok n"
  shows "parsed_ok (weak_title c y s)"
proof -
  have "parsed_ok (let (title, year, season) = title_identity_from_raw t
    in apply_qualifiers y s (empty_parsed\<lparr> pTitle := title, pYear := year, pSeason := season \<rparr>))" for t
  proof -
    obtain u y' n where ti: "title_identity_from_raw t = (u, y', n)"
      by (cases "title_identity_from_raw t")
    have "parsed_ok (empty_parsed\<lparr> pTitle := u, pYear := y', pSeason := n \<rparr>)"
      using title_identity_from_raw_ok [OF ti] by (simp add: parsed_ok_def empty_parsed_def episode_ok_iff)
    with ti assms apply_qualifiers_ok show ?thesis by simp
  qed
  then show ?thesis by (simp add: weak_title_def Let_def)
qed

lemma weak_tail_ok:
  assumes "year_ok y" and "\<And>n. s = Some n \<Longrightarrow> season_ok n"
  shows "parsed_ok (weak_tail c0 y s)"
proof -
  obtain c py where c: "(case trailing_group c0 CHR ''('' CHR '')'' of
       Some (b, g) \<Rightarrow> if match_string weak_tail_re b then (b, standalone_year g) else (c0, 0)
     | None \<Rightarrow> (c0, 0)) = (c, py)" by force
  then have "year_ok py"
    by (auto simp: ok_zero standalone_year_ok split: option.splits if_splits)
  moreover have "parsed_ok p" if "parsed_weak_episode_atom t (weak_episode_atom m) = Some p" for t m p
  proof -
    have "valid_episode_range (aStart (weak_episode_atom m)) (aEnd (weak_episode_atom m))"
      using that by (simp add: parsed_weak_episode_atom_def split: if_splits)
    with that show ?thesis by (intro parsed_weak_ok [OF _ weak_atom_ok])
  qed
  ultimately show ?thesis
    using assms c weak_title_ok [OF assms]
    by (auto simp: weak_tail_def intro!: apply_qualifiers_ok split: option.splits)
qed

lemma parse_weak_ok: "parsed_ok (parse_weak stem)"
proof -
  let ?st = "split_name_structure stem"
  obtain y s where ys: "qualifiers_from_groups (sTrailing ?st) = (y, s)" by force
  from qualifiers_ok [OF ys] have ok: "year_ok y" "\<And>n. s = Some n \<Longrightarrow> season_ok n" by simp_all
  have b: "parsed_ok p" if "parse_fully_bracketed gs = Some p" for gs p
    using that unfolding parse_fully_bracketed_def by (rule fully_bracketed_ok)
  have l: "parsed_ok p" if "parse_leading_bracket_weak_episode gs c y s = Some p" for gs c p
    using that ok unfolding parse_leading_bracket_weak_episode_def by (rule leading_weak_ok)
  have t: "parsed_ok (apply_qualifiers y s p)" if "trailing_episode c gs = Some p" for c gs p
    using trailing_episode_ok [OF that] ok by (rule apply_qualifiers_ok)
  show ?thesis
    using ys weak_tail_ok [OF ok]
    by (auto simp: parse_weak_def Let_def intro: b l t split: option.splits if_splits)
qed

lemma parse_one_ok: "parsed_ok (parse_plain stem)"
  using parse_weak_ok [of stem] ok_zero(4)
  by (auto simp: parse_plain_def parse_one_uncached_def split: option.splits dest: parse_strong_ok)

lemma parsed_ok_range:
  "parsed_ok p \<Longrightarrow> pEpisodeStart p > 0 \<Longrightarrow> valid_episode_range (pEpisodeStart p) (pEpisodeEnd p)"
  by (auto simp: parsed_ok_def episode_ok_iff)

text \<open>An episode accepted with the season context of a directory has a range within 1 to 9999 and
  a season that is not negative.\<close>

theorem hint_valid:
  assumes "episode_with_season_hint name hint = (p, True)"
  shows "episode_range (pEpisodeStart p) (pEpisodeEnd p) \<and> 0 \<le> pSeason p"
  using assms
  by (auto simp: episode_range_def episode_with_season_hint_def Let_def hinted_def empty_parsed_def valid_atom_def
      valid_episode_range_def split: if_splits option.splits prod.splits)

text \<open>A name a strong pattern accepts has a title, an episode range within 1 to 9999 and a
  well-formed year, season and version.\<close>

theorem strong_names_valid:
  "pred_option (\<lambda>p. parsed_ok p \<and> episode_range (pEpisodeStart p) (pEpisodeEnd p) \<and> pTitle p \<noteq> [])
     (parse_strong stem)"
  using parse_strong_ok [of stem] by (cases "parse_strong stem") (simp_all add: valid_range_iff)

lemma parse_one_cache_witness:
  "fst (parse_one [] ''A'') = parse_plain ''A'' \<and> cache_ok (snd (parse_one [] ''A''))"
  by (rule parse_one_cache) (simp add: cache_ok_def)

lemma hint_valid_witness:
  "episode_range 1 2 \<and> (0 :: int) \<le> 3"
proof -
  let ?n = "\<lparr> nInput = ''a'', nParsed = empty_parsed\<lparr> pEpisodeStart := 1, pEpisodeEnd := 2 \<rparr>,
    nComponents = empty_components \<rparr>"
  have "episode_with_season_hint ?n 3 = (empty_parsed\<lparr> pEpisodeStart := 1, pEpisodeEnd := 2, pSeason := 3 \<rparr>, True)"
    by (simp add: episode_with_season_hint_def empty_parsed_def valid_episode_range_def)
  from hint_valid [OF this] show ?thesis by (simp add: empty_parsed_def)
qed

end
