(* ===== verification/MediaBatch.thy ===== *)
theory MediaBatch
  imports MediaParse "HOL-Library.Product_Lexorder"
begin

text \<open>
  The analysis of a batch of names (batch.go, and \<open>buildBatch\<close> with the evidence functions of
  model.go): each name is parsed alone, a varying number at the same position of several names
  then gives an episode to the names still without one, and the items are grouped into cohorts
  of equal identity. The order in which the code ranges over the map of candidate cohorts is
  the argument \<open>ord\<close>, a permutation of the cohorts.
\<close>

section \<open>Evidence and components\<close>

definition has_fully_bracketed_episode_syntax :: "string \<Rightarrow> bool" where
  "has_fully_bracketed_episode_syntax stem =
     (let st = split_name_structure stem
      in if \<not> sFullyBracketed st then False
         else case parse_fully_bracketed (sLeading st) of
             None \<Rightarrow> False | Some p \<Rightarrow> pEpisodeStart p > 0)"

definition has_publication_episode_syntax :: "string \<Rightarrow> bool" where
  "has_publication_episode_syntax stem =
     (let st = split_name_structure stem
      in if sFullyBracketed st \<or> sLeading st = [] then False
         else
           let cleaned = (case trailing_group (sCore st) CHR ''('' CHR '')'' of
                 Some (b, _) \<Rightarrow> if match_string weak_tail_re b then b else sCore st
               | None \<Rightarrow> sCore st)
           in match_string weak_tail_re cleaned \<or>
              list_ex (\<lambda>g. \<not> standalone_year g > 0 \<and> season_from_atom g = None \<and>
                           parse_bracket_episode_atom g \<noteq> None) (sTrailing st))"

definition episode_evidence_of :: "string \<Rightarrow> Parsed \<Rightarrow> bool \<Rightarrow> evidence" where
  "episode_evidence_of input p differential =
     (if pEpisodeStart p \<le> 0 then NoEvidence
      else if differential then Differential
      else if has_strong_episode_syntax input \<or> has_fully_bracketed_episode_syntax input \<or>
              has_explicit_season_syntax input then Explicit
      else if has_publication_episode_syntax input then Publication
      else Weak)"

definition bracket_belongs_to_identity :: "string \<Rightarrow> Parsed \<Rightarrow> bool" where
  "bracket_belongs_to_identity value p =
     (if standalone_year value > 0 \<or> season_from_atom value \<noteq> None then True
      else case parse_bracket_episode_atom value of
          Some atom \<Rightarrow>
            pEpisodeStart p > 0 \<and> aStart atom = pEpisodeStart p \<and> aEnd atom = pEpisodeEnd p
        | None \<Rightarrow>
            (let (title, year, season) = title_identity value False
             in if comparable_component title \<noteq> comparable_component (pTitle p) then False
                else if year > 0 \<and> year \<noteq> pYear p then False
                else if has_explicit_season_syntax value \<and> season \<noteq> pSeason p then False
                else title \<noteq> []))"

definition component_bracket_re :: re where
  "component_bracket_re =
     seqs [chr CHR ''['', Cap 1 (Star (Cls (\<lambda>c. c \<noteq> CHR '']''))), chr CHR '']'']"

fun bracket_components ::
    "string \<Rightarrow> Parsed \<Rightarrow> bool \<Rightarrow> string list \<Rightarrow> Components \<Rightarrow> Components" where
  "bracket_components input p first [] c = c"
| "bracket_components input p first (m # ms) c =
     (let value = trim_space m;
          c' = (if value = [] then c
                else if first \<and> prefix ''['' (trim_space input) then c\<lparr> cReleaseGroup := value \<rparr>
                else if bracket_belongs_to_identity value p then c
                else c\<lparr> cMetadata := cMetadata c @ [value] \<rparr>)
      in bracket_components input p False ms c')"

definition components_of :: "string \<Rightarrow> Parsed \<Rightarrow> bool \<Rightarrow> Components" where
  "components_of input p differential =
     (let c = empty_components\<lparr> cTitle := pTitle p, cYear := pYear p, cSeason := pSeason p,
            cSeasonExplicit := pSeasonExplicit p, cEpisodeStart := pEpisodeStart p,
            cEpisodeEnd := pEpisodeEnd p, cVersion := pVersion p,
            cEpisodeEvidence := episode_evidence_of input p differential \<rparr>;
          matches = map (\<lambda>g. group input g 1) (find_all component_bracket_re input);
          c' = bracket_components input p True matches c
      in c'\<lparr> cResolution := resolution_of input, cSubtitle := subtitle_of input \<rparr>)"

section \<open>The lexer of a batch\<close>

record batchToken =
  btValue :: string
  btStart :: nat
  btEnd :: nat

record batchRow =
  brIndex :: nat
  brSource :: string
  brValues :: "string list"
  brStarts :: "(nat, nat) gomap"
  brNumbers :: "(nat, int) gomap"
  brSuffix :: "(nat, string) gomap"

text \<open>The width of the delimiter at the start of a text, if there is one.\<close>

definition batch_delimiter :: "string \<Rightarrow> nat option" where
  "batch_delimiter s =
     (case space_at s of
        Some w \<Rightarrow> Some (length w)
      | None \<Rightarrow> if s \<noteq> [] \<and> hd s \<in> set ''[]()._-'' then Some 1 else None)"

lemma batch_delimiter_pos: "batch_delimiter s = Some w \<Longrightarrow> 0 < w \<and> s \<noteq> []"
  by (auto simp: batch_delimiter_def space_at_def find_Some_iff split: option.splits if_splits)

definition flush_token :: "nat \<Rightarrow> string \<Rightarrow> batchToken list" where
  "flush_token pos acc =
     (if acc = [] then []
      else [\<lparr> btValue = rev acc, btStart = pos - length acc, btEnd = pos \<rparr>])"

function batch_lex_loop :: "nat \<Rightarrow> string \<Rightarrow> string \<Rightarrow> batchToken list" where
  "batch_lex_loop pos acc [] = flush_token pos acc"
| "batch_lex_loop pos acc (c # cs) =
     (case batch_delimiter (c # cs) of
        Some w \<Rightarrow> flush_token pos acc @ batch_lex_loop (pos + w) [] (drop w (c # cs))
      | None \<Rightarrow> batch_lex_loop (Suc pos) (c # acc) cs)"
  by pat_completeness auto
termination
  by (relation "measure (\<lambda>(pos, acc, s). length s)") (auto dest: batch_delimiter_pos)

declare batch_lex_loop.simps(2) [simp del]

definition batch_leading_group_re :: re where
  "batch_leading_group_re =
     seqs [Bos, Star space, chr CHR ''['', plus_re (Cls (\<lambda>c. c \<noteq> CHR '']'')), chr CHR '']'', Star space]"

definition batch_lex :: "string \<Rightarrow> string \<times> batchToken list" where
  "batch_lex stem =
     (let rest = (case find_match batch_leading_group_re stem of
                    Some (_, j, _) \<Rightarrow> drop j stem | None \<Rightarrow> stem);
          source = trim_space rest
      in (source, batch_lex_loop 0 [] source))"

definition batch_episode_token_re :: re where
  "batch_episode_token_re =
     seqs [Bos, Cap 1 (digits_upto 4),
           opt (Cap 2 (Alt (letter_ci CHR ''p'') (Seq (letter_ci CHR ''v'') (plus_re digit)))), Eos]"

definition token_number :: "string \<Rightarrow> (int \<times> string) option" where
  "token_number token =
     (case find_sub batch_episode_token_re 2 token of
        None \<Rightarrow> None
      | Some (_, _, m) \<Rightarrow>
          let (episode, ok) = atoi_full (m ! 1)
          in if \<not> ok \<or> episode \<le> 0 \<or> episode > 9999 then None else Some (episode, to_lower (m ! 2)))"

fun numbered :: "nat \<Rightarrow> string list \<Rightarrow> (nat \<times> int \<times> string) list" where
  "numbered pos [] = []"
| "numbered pos (t # ts) =
     (case token_number t of
        None \<Rightarrow> numbered (Suc pos) ts
      | Some (n, suf) \<Rightarrow> (pos, n, suf) # numbered (Suc pos) ts)"

definition batch_row :: "nat \<Rightarrow> string \<Rightarrow> batchRow" where
  "batch_row index stem =
     (let (source, tokens) = batch_lex stem; values = map btValue tokens; ns = numbered 0 values
      in \<lparr> brIndex = index, brSource = source, brValues = values,
           brStarts = enumerate 0 (map btStart tokens),
           brNumbers = map (\<lambda>(p, n, _). (p, n)) ns, brSuffix = map (\<lambda>(p, _, suf). (p, suf)) ns \<rparr>)"

definition row_number :: "batchRow \<Rightarrow> nat \<Rightarrow> int" where
  "row_number row position = get_or 0 (brNumbers row) position"

section \<open>The score of an axis\<close>

definition row_year_at :: "batchRow \<Rightarrow> nat \<Rightarrow> bool" where
  "row_year_at row position =
     (case get (brNumbers row) position of
        None \<Rightarrow> False | Some v \<Rightarrow> 1900 \<le> v \<and> v \<le> 2099)"

definition has_varying_year_suffix :: "batchRow list \<Rightarrow> nat \<Rightarrow> bool" where
  "has_varying_year_suffix rows position =
     (let max_position = fold (\<lambda>row m. max m (length (brValues row) - 1)) rows position
      in list_ex (\<lambda>candidate.
           list_all (\<lambda>row. row_year_at row candidate) rows \<and>
           length (remdups (map (\<lambda>row. row_number row candidate) rows)) > 1)
         [Suc position ..< Suc max_position])"

definition batch_axis_score :: "batchRow list \<Rightarrow> nat \<Rightarrow> int list \<Rightarrow> int" where
  "batch_axis_score rows position distinct_values =
     (let values = map (\<lambda>row. row_number row position) rows;
          min_value = fold min values 10000; max_value = fold max values 0;
          count = int (length distinct_values)
      in 20 + int position
         + (if max_value - min_value + 1 = count then 50 else 0)
         + (if max_value \<le> 200 then 20 else 0)
         + (if count \<ge> 3 \<and> max_value \<le> 200 then 15 else 0)
         - (if list_all (\<lambda>v. 1900 \<le> v \<and> v \<le> 2099) values then 55 else 0)
         - (if list_all (\<lambda>v. v = 480 \<or> v = 720 \<or> v = 1080 \<or> v = 2160) values then 45 else 0)
         - (if list_ex (\<lambda>row. get_or [] (brSuffix row) position = ''p'') rows then 60 else 0)
         - (if has_varying_year_suffix rows position then 70 else 0))"

section \<open>Differential episodes\<close>

type_synonym cohort_map = "(string, (batchRow \<times> nat) list) gomap"

definition cohort_key :: "batchRow \<Rightarrow> nat \<Rightarrow> string" where
  "cohort_key row position =
     to_lower (join_with [NUL] (take position (brValues row))) @ [NUL] @ ''#number#''"

text \<open>
  Every number of every row, in the order of the rows and positions, grouped by the text
  before it. An element keeps its position; the code keeps the last one of the group.
\<close>

definition batch_cohorts :: "batchRow list \<Rightarrow> cohort_map" where
  "batch_cohorts rows =
     group_into (\<lambda>(row, position). cohort_key row position)
       (concat (map (\<lambda>row. map (\<lambda>(p, _). (row, p)) (brNumbers row)) rows))"

record batchCandidate =
  bcRows :: "batchRow list"
  bcPosition :: nat
  bcScore :: int

definition offer :: "batchCandidate \<Rightarrow> batchRow \<Rightarrow> (nat, batchCandidate) gomap \<Rightarrow> (nat, batchCandidate) gomap" where
  "offer cand row best =
     (case get best (brIndex row) of
        Some old \<Rightarrow> if bcScore cand > bcScore old then put (brIndex row) cand best else best
      | None \<Rightarrow> put (brIndex row) cand best)"

definition consider_cohort ::
    "string \<times> (batchRow \<times> nat) list \<Rightarrow> (nat, batchCandidate) gomap \<Rightarrow> (nat, batchCandidate) gomap" where
  "consider_cohort co best =
     (let rows = map fst (snd co)
      in if length rows < 2 then best
         else
           let position = snd (last (snd co));
               distinct_values = remdups (map (\<lambda>row. row_number row position) rows)
           in if length distinct_values < 2 then best
              else
                let score = batch_axis_score rows position distinct_values
                in if score \<ge> 50
                   then fold (offer \<lparr> bcRows = rows, bcPosition = position, bcScore = score \<rparr>) rows best
                   else best)"

definition best_candidates :: "(cohort_map \<Rightarrow> cohort_map) \<Rightarrow> batchRow list \<Rightarrow> (nat, batchCandidate) gomap" where
  "best_candidates ord rows = fold consider_cohort (ord (batch_cohorts rows)) []"

definition parse_batch_identity :: "string \<Rightarrow> Parsed" where
  "parse_batch_identity prefix_text =
     parse_identity_prefix (trim_set ''-_. '' (trim_space prefix_text)) True"

definition differential_episode :: "batchRow \<Rightarrow> nat \<Rightarrow> Parsed \<Rightarrow> Parsed" where
  "differential_episode row position p =
     (let episode = row_number row position;
          suf = get_or [] (brSuffix row) position;
          version = (if prefix ''v'' suf \<and> atoi (trim_prefix suf ''v'') > 0
                     then atoi (trim_prefix suf ''v'') else 1);
          p1 = p\<lparr> pEpisodeStart := episode, pEpisodeEnd := episode, pVersion := version \<rparr>
      in case get (brStarts row) position of
           Some start \<Rightarrow>
             if 0 < start \<and> start \<le> length (brSource row) then
               (let identity = parse_batch_identity (take start (brSource row));
                    p2 = (if pTitle identity \<noteq> [] then p1\<lparr> pTitle := pTitle identity \<rparr> else p1);
                    p3 = (if pYear p2 = 0 then p2\<lparr> pYear := pYear identity \<rparr> else p2)
                in if pSeason p3 = 0 \<and> \<not> pSeasonExplicit p3
                   then p3\<lparr> pSeason := pSeason identity, pSeasonExplicit := pSeasonExplicit identity \<rparr>
                   else p3)
             else p1
         | None \<Rightarrow> p1)"

text \<open>The refined result of one name, and whether its episode is differential.\<close>

definition refine :: "(nat, batchCandidate) gomap \<Rightarrow> nat \<Rightarrow> Parsed \<Rightarrow> Parsed \<times> bool" where
  "refine best index p =
     (case get best index of
        None \<Rightarrow> (p, False)
      | Some cand \<Rightarrow>
          if pEpisodeStart p > 0 then (p, False)
          else (case find (\<lambda>row. brIndex row = index) (bcRows cand) of
              None \<Rightarrow> (p, False)
            | Some row \<Rightarrow>
                if row_number row (bcPosition cand) \<le> 0 then (p, False)
                else (differential_episode row (bcPosition cand) p, True)))"

definition episode_cohort_key :: "Parsed \<Rightarrow> string" where
  "episode_cohort_key p =
     (let title = comparable_component (pTitle p)
      in if title = [] then []
         else title @ [NUL] @ show_int (pYear p) @ [NUL] @ show_int (pSeason p) @ [NUL] @
              show_bool (pSeasonExplicit p))"

text \<open>
  The indexes whose weak episode a sibling of the same identity varies: members of a cohort of
  weak episodes with two different numbers.
\<close>

definition weak_member :: "string list \<Rightarrow> Parsed list \<Rightarrow> nat \<Rightarrow> bool" where
  "weak_member stems out i \<longleftrightarrow>
     pEpisodeStart (out ! i) > 0 \<and> \<not> has_strong_episode_syntax (stems ! i) \<and>
     episode_cohort_key (out ! i) \<noteq> []"

definition weak_cohorts :: "string list \<Rightarrow> Parsed list \<Rightarrow> (string, nat list) gomap" where
  "weak_cohorts stems out =
     group_into (\<lambda>i. episode_cohort_key (out ! i))
       (filter (weak_member stems out) [0 ..< length out])"

definition weak_differential :: "string list \<Rightarrow> Parsed list \<Rightarrow> nat list" where
  "weak_differential stems out =
     concat (map snd (filter
       (\<lambda>(_, is). length (remdups (map (\<lambda>i. pEpisodeStart (out ! i)) is)) \<ge> 2)
       (weak_cohorts stems out)))"

section \<open>The analysis\<close>

definition stem_of :: "bool \<Rightarrow> string \<Rightarrow> string \<times> string" where
  "stem_of files name =
     (if files then
        (let value = trim_space name; extension = ext value
         in (trim_space (trim_suffix value extension), to_lower extension))
      else strip_media_extension name)"

definition item_key :: "Name list \<Rightarrow> nat \<Rightarrow> string" where
  "item_key items i =
     (let key = component_identity_key (nComponents (items ! i))
      in if key = [] then ''#unknown-'' @ show_nat i else key)"

definition build_batch ::
    "string list \<Rightarrow> string list \<Rightarrow> string list \<Rightarrow> Parsed list \<Rightarrow> (nat \<Rightarrow> bool) \<Rightarrow> Batch" where
  "build_batch inputs stems extensions parsed differential =
     (let items = map (\<lambda>i. \<lparr> nInput = inputs ! i, nParsed = parsed ! i,
             nComponents = (components_of (stems ! i) (parsed ! i) (differential i))
               \<lparr> cExtension := extensions ! i \<rparr> \<rparr>) [0 ..< length inputs]
      in \<lparr> bItems = items,
           bCohorts = map (\<lambda>(key, is). \<lparr> coKey = key, coItemIndexes = is,
               coDifferences = compare_components items is \<rparr>)
             (group_into (item_key items) [0 ..< length inputs]) \<rparr>)"

definition analyze :: "(cohort_map \<Rightarrow> cohort_map) \<Rightarrow> string list \<Rightarrow> bool \<Rightarrow> Batch" where
  "analyze ord names files =
     (let stems = map (fst \<circ> stem_of files) names;
          extensions = map (snd \<circ> stem_of files) names;
          alone = map parse_plain stems;
          rows = map (\<lambda>i. batch_row i (stems ! i)) [0 ..< length names];
          best = best_candidates ord rows;
          refined = map (\<lambda>i. refine best i (alone ! i)) [0 ..< length names];
          out = map fst refined;
          weak = weak_differential stems out
      in build_batch names stems extensions out
           (\<lambda>i. snd (refined ! i) \<or> i \<in> set weak))"

definition analyze_many :: "(cohort_map \<Rightarrow> cohort_map) \<Rightarrow> string list \<Rightarrow> Batch" where
  "analyze_many ord names = analyze ord names False"

definition analyze_files :: "(cohort_map \<Rightarrow> cohort_map) \<Rightarrow> string list \<Rightarrow> Batch" where
  "analyze_files ord names = analyze ord names True"

definition parse_many :: "(cohort_map \<Rightarrow> cohort_map) \<Rightarrow> string list \<Rightarrow> Parsed list" where
  "parse_many ord names = batch_parsed (analyze_many ord names)"

definition parse :: "(cohort_map \<Rightarrow> cohort_map) \<Rightarrow> string \<Rightarrow> Parsed" where
  "parse ord input = hd (parse_many ord [input])"

definition parse_episode_file :: "(cohort_map \<Rightarrow> cohort_map) \<Rightarrow> string \<Rightarrow> int \<Rightarrow> Parsed \<times> bool" where
  "parse_episode_file ord name hint =
     episode_with_season_hint (hd (bItems (analyze_files ord [name]))) hint"

section \<open>What the analysis guarantees\<close>

definition permutes :: "(cohort_map \<Rightarrow> cohort_map) \<Rightarrow> bool" where
  "permutes ord \<longleftrightarrow> (\<forall>m. set (ord m) = set m)"

definition number_ok :: "batchRow \<Rightarrow> bool" where
  "number_ok row \<longleftrightarrow> (\<forall>position. row_number row position \<le> 9999)"

lemma token_number_ok: "token_number t = Some (n, suf) \<Longrightarrow> 0 < n \<and> n \<le> 9999"
  by (auto simp: token_number_def split: option.splits prod.splits if_splits)

lemma numbered_ok: "(p, n, suf) \<in> set (numbered pos ts) \<Longrightarrow> 0 < n \<and> n \<le> 9999"
  by (induction ts arbitrary: pos) (auto split: option.splits dest: token_number_ok)

lemma batch_row_ok: "number_ok (batch_row i stem)"
proof -
  let ?ns = "numbered 0 (map btValue (snd (batch_lex stem)))"
  have "brNumbers (batch_row i stem) = map (\<lambda>(p, n, _). (p, n)) ?ns"
    by (simp add: batch_row_def Let_def case_prod_unfold)
  then have "n \<le> 9999" if "get (brNumbers (batch_row i stem)) p = Some n" for p n
    using map_of_SomeD [OF that] by (auto dest: numbered_ok)
  then show ?thesis
    by (auto simp: number_ok_def row_number_def get_or_def split: option.splits)
qed

lemma batch_row_index [simp]: "brIndex (batch_row i stem) = i"
  by (simp add: batch_row_def Let_def case_prod_unfold)

lemma cohort_rows:
  assumes "(k, es) \<in> set (batch_cohorts rows)"
  shows "fst ` set es \<subseteq> set rows"
proof -
  have "es = filter (\<lambda>(row, position). cohort_key row position = k)
      (concat (map (\<lambda>row. map (\<lambda>(p, _). (row, p)) (brNumbers row)) rows))"
    using group_into_elem [OF assms [unfolded batch_cohorts_def]] by (simp add: case_prod_unfold)
  then show ?thesis by auto
qed

definition candidates_from :: "batchRow set \<Rightarrow> (nat, batchCandidate) gomap \<Rightarrow> bool" where
  "candidates_from R best \<longleftrightarrow> (\<forall>(i, cand) \<in> set best. set (bcRows cand) \<subseteq> R)"

lemma offer_from:
  "candidates_from R best \<Longrightarrow> set (bcRows cand) \<subseteq> R \<Longrightarrow> candidates_from R (offer cand row best)"
  using set_put [of "brIndex row" cand best]
  by (auto simp: offer_def candidates_from_def split: option.splits)

lemma fold_offer_from:
  "candidates_from R best \<Longrightarrow> set (bcRows cand) \<subseteq> R \<Longrightarrow> candidates_from R (fold (offer cand) rs best)"
  by (induction rs arbitrary: best) (auto intro: offer_from)

lemma consider_from:
  "candidates_from R best \<Longrightarrow> fst ` set (snd co) \<subseteq> R \<Longrightarrow> candidates_from R (consider_cohort co best)"
  by (auto simp: consider_cohort_def Let_def intro!: fold_offer_from)

lemma best_from:
  assumes "permutes ord"
  shows "candidates_from (set rows) (best_candidates ord rows)"
proof -
  have step: "candidates_from (set rows) (fold consider_cohort cs best)"
    if "candidates_from (set rows) best" "\<forall>co \<in> set cs. fst ` set (snd co) \<subseteq> set rows" for cs best
    using that by (induction cs arbitrary: best) (auto intro: consider_from)
  have "\<forall>co \<in> set (ord (batch_cohorts rows)). fst ` set (snd co) \<subseteq> set rows"
  proof
    fix co assume "co \<in> set (ord (batch_cohorts rows))"
    then have "(fst co, snd co) \<in> set (batch_cohorts rows)"
      using assms by (simp add: permutes_def)
    then show "fst ` set (snd co) \<subseteq> set rows" by (rule cohort_rows)
  qed
  then show ?thesis
    unfolding best_candidates_def by (intro step) (simp add: candidates_from_def)
qed

lemma differential_ok:
  assumes "parsed_ok p" and "0 < row_number row position" and "number_ok row"
  shows "parsed_ok (differential_episode row position p)"
proof -
  have n: "valid_episode_range (row_number row position) (row_number row position)"
    using assms(2,3) by (simp add: valid_episode_range_def number_ok_def)
  let ?id = "\<lambda>s. parse_batch_identity (take s (brSource row))"
  have id: "year_ok (pYear (?id s))" "season_ok (pSeason (?id s))" for s
    using parsed_okD [OF parse_identity_prefix_ok] unfolding parse_batch_identity_def by blast+
  have p: "year_ok (pYear p)" "season_ok (pSeason p)" using parsed_okD [OF assms(1)] by simp_all
  show ?thesis
    using n id p
    by (simp add: differential_episode_def Let_def parsed_ok_def episode_ok_iff split: option.splits)
qed

lemma refine_ok:
  assumes "candidates_from R best" and "\<forall>row \<in> R. number_ok row" and "parsed_ok p"
  shows "parsed_ok (fst (refine best i p))"
proof (cases "get best i")
  case None
  with assms(3) show ?thesis by (simp add: refine_def)
next
  case (Some cand)
  then have sub: "set (bcRows cand) \<subseteq> R"
    using assms(1) map_of_SomeD [OF Some] by (auto simp: candidates_from_def)
  have "number_ok row" if "find (\<lambda>row. brIndex row = i) (bcRows cand) = Some row" for row
    using that sub assms(2) by (metis find_Some_iff nth_mem subsetD)
  with Some assms(3) show ?thesis
    by (auto simp: refine_def intro!: differential_ok split: option.splits)
qed

lemma refine_keeps: "0 < pEpisodeStart p \<Longrightarrow> refine best i p = (p, False)"
  by (auto simp: refine_def split: option.splits)

text \<open>The parsed name of each item: its own parse, refined.\<close>

definition refined_of :: "(cohort_map \<Rightarrow> cohort_map) \<Rightarrow> string list \<Rightarrow> bool \<Rightarrow> nat \<Rightarrow> Parsed \<times> bool" where
  "refined_of ord names files i =
     refine (best_candidates ord (map (\<lambda>i. batch_row i (fst (stem_of files (names ! i)))) [0 ..< length names]))
       i (parse_plain (fst (stem_of files (names ! i))))"

lemma length_analyze [simp]: "length (bItems (analyze ord names files)) = length names"
  by (simp add: analyze_def build_batch_def Let_def)

lemma analyze_item:
  assumes "i < length names"
  shows "nInput (bItems (analyze ord names files) ! i) = names ! i"
    and "nParsed (bItems (analyze ord names files) ! i) = fst (refined_of ord names files i)"
proof -
  have rows: "map (\<lambda>i. batch_row i (map (fst \<circ> stem_of files) names ! i)) [0 ..< length names] =
    map (\<lambda>i. batch_row i (fst (stem_of files (names ! i)))) [0 ..< length names]"
    by (rule map_cong) simp_all
  show "nInput (bItems (analyze ord names files) ! i) = names ! i"
    using assms by (simp add: analyze_def build_batch_def Let_def)
  show "nParsed (bItems (analyze ord names files) ! i) = fst (refined_of ord names files i)"
    using assms unfolding analyze_def build_batch_def Let_def rows
    by (simp add: refined_of_def)
qed

text \<open>C14. Whatever the names are and in whatever order the map of cohorts is visited, every parsed
  name of a batch is well formed: year, season, episode range and version are within bounds.\<close>

theorem analyze_parsed_ok:
  assumes "permutes ord" and "name \<in> set (bItems (analyze ord names files))"
  shows "parsed_ok (nParsed name)"
proof -
  obtain i where i: "i < length names" "name = bItems (analyze ord names files) ! i"
    using assms(2) by (auto simp: in_set_conv_nth)
  have "parsed_ok (fst (refined_of ord names files i))"
    unfolding refined_of_def
    by (rule refine_ok [OF best_from [OF assms(1)]]) (use batch_row_ok parse_one_ok in auto)
  with i analyze_item(2) [OF i(1)] show ?thesis by simp
qed

lemma analyze_keeps:
  assumes "i < length names" and "0 < pEpisodeStart (parse_plain (fst (stem_of files (names ! i))))"
  shows "nParsed (bItems (analyze ord names files) ! i) = parse_plain (fst (stem_of files (names ! i)))"
  using analyze_item(2) [OF assms(1)] refine_keeps [OF assms(2)] by (simp add: refined_of_def)

text \<open>A single name has no siblings: its analysis is its own parse.\<close>

lemma best_single:
  assumes "permutes ord"
  shows "best_candidates ord [row] = []"
proof -
  have "length (remdups (map (\<lambda>r. row_number r q) (map fst es))) < 2"
    if "(k, es) \<in> set (batch_cohorts [row])" for k es q
  proof -
    have "set (map (\<lambda>r. row_number r q) (map fst es)) \<subseteq> {row_number row q}"
      using cohort_rows [OF that] by auto
    then have "card (set (map (\<lambda>r. row_number r q) (map fst es))) \<le> card {row_number row q}"
      by (intro card_mono) simp_all
    then show ?thesis by (simp add: length_remdups_card_conv)
  qed
  then have none: "consider_cohort co [] = []" if "co \<in> set (batch_cohorts [row])" for co
    using that by (cases co) (auto simp: consider_cohort_def Let_def comp_def)
  have "fold consider_cohort cs [] = []" if "set cs \<subseteq> set (batch_cohorts [row])" for cs
    using that none by (induction cs) auto
  with assms show ?thesis by (simp add: best_candidates_def permutes_def)
qed

text \<open>The analysis of a single name is that name's own parse: without siblings there is no
  differential evidence.\<close>

theorem analyze_single:
  assumes "permutes ord"
  shows "nParsed (hd (bItems (analyze ord [name] files))) = parse_plain (fst (stem_of files name))"
proof -
  have "bItems (analyze ord [name] files) \<noteq> []" by (metis length_analyze list.size(3) length_Cons nat.distinct(1))
  then have "hd (bItems (analyze ord [name] files)) = bItems (analyze ord [name] files) ! 0"
    by (rule hd_conv_nth)
  with analyze_item(2) [of 0 "[name]" ord files] best_single [OF assms] show ?thesis
    by (simp add: refined_of_def refine_def)
qed

text \<open>Every item is in exactly one cohort, that of the items with its identity.\<close>

lemma unknown_not_identity: "component_identity_key c \<noteq> ''#unknown-'' @ show_nat i"
proof
  assume eq: "component_identity_key c = ''#unknown-'' @ show_nat i"
  then have "component_identity_key c \<noteq> []" by simp
  then have "NUL \<in> set (component_identity_key c)"
    by (simp add: component_identity_key_def Let_def split: if_splits)
  then have "NUL \<in> set (''#unknown-'' @ show_nat i)" unfolding eq .
  then have "NUL \<in> set (show_nat i)" by simp
  with show_nat_digits [of i] show False by (auto simp: is_digit_def Let_def)
qed

lemma find_group:
  assumes "wf_map m" and "(k, is) \<in> set m" and "i \<in> set is"
    and "\<forall>(k', is') \<in> set m. i \<in> set is' \<longrightarrow> k' = k"
  shows "differences_for_loop (map (\<lambda>(key, is). \<lparr> coKey = key, coItemIndexes = is, coDifferences = d is \<rparr>) m) i = d is"
  using assms
proof (induction m)
  case Nil
  then show ?case by simp
next
  case (Cons p m)
  obtain k' is' where p: "p = (k', is')" by (cases p)
  show ?case
  proof (cases "i \<in> set is'")
    case True
    with Cons.prems(4) p have "k' = k" by auto
    with Cons.prems(1,2) p have "is = is'" by (auto dest: in_set_get [THEN iffD1, rotated]) (metis fst_conv image_eqI)
    with True p show ?thesis by simp
  next
    case False
    with Cons p show ?thesis by auto
  qed
qed

text \<open>The differences reported for an item are those among the items with the same identity,
  itself included: every item is in exactly one cohort.\<close>

theorem differences_analyze:
  assumes "i < length names"
  shows "differences_for (analyze ord names files) i =
    compare_components (bItems (analyze ord names files))
      (filter (\<lambda>j. item_key (bItems (analyze ord names files)) j = item_key (bItems (analyze ord names files)) i)
         [0 ..< length names])"
proof -
  let ?b = "analyze ord names files"
  let ?key = "item_key (bItems ?b)" and ?ix = "[0 ..< length names]"
  have cohorts: "bCohorts ?b = map (\<lambda>(key, is). \<lparr> coKey = key, coItemIndexes = is,
      coDifferences = compare_components (bItems ?b) is \<rparr>) (group_into ?key ?ix)"
    by (simp add: analyze_def build_batch_def Let_def)
  have "?key i \<in> ?key ` set ?ix" using assms by simp
  then have mem: "(?key i, filter (\<lambda>j. ?key j = ?key i) ?ix) \<in> set (group_into ?key ?ix)"
    by (simp add: in_set_get get_group_into)
  have uniq: "\<forall>(k', is') \<in> set (group_into ?key ?ix). i \<in> set is' \<longrightarrow> k' = ?key i"
    by (auto dest: group_into_elem)
  show ?thesis
    unfolding differences_for_def cohorts
    by (rule find_group [OF wf_group_into mem _ uniq]) (use assms in simp)
qed

section \<open>Reliable titles\<close>

definition non_content_title_re :: re where
  "non_content_title_re = seqs
     [Alt Bos (one_of '' ._-''),
      alts [word_ci ''ncop'', word_ci ''nced'', Seq (word_ci ''sp'') (Star digit), word_ci ''sample'',
            word_ci ''menu'', Seq (word_ci ''scan'') (opt (letter_ci CHR ''s'')),
            Seq (word_ci ''font'') (opt (letter_ci CHR ''s''))],
      Alt Eos (one_of '' ._-'')]"

definition reliable_episode_title :: "Name \<Rightarrow> string option" where
  "reliable_episode_title name =
     (let title = join_with '' '' (split_fields (trim_space (cTitle (nComponents name))))
      in if title = [] \<or> pEpisodeStart (nParsed name) \<le> 0 \<or>
            \<not> reliable_episode_evidence (nComponents name) \<or> match_string non_content_title_re title
         then None else Some title)"

fun reliable_titles_loop :: "Name list \<Rightarrow> string list \<Rightarrow> string list \<Rightarrow> string list" where
  "reliable_titles_loop [] seen out = out"
| "reliable_titles_loop (item # items) seen out =
     (case reliable_episode_title item of
        None \<Rightarrow> reliable_titles_loop items seen out
      | Some title \<Rightarrow>
          if comparable_component title \<in> set seen then reliable_titles_loop items seen out
          else reliable_titles_loop items (comparable_component title # seen) (out @ [title]))"

definition reliable_episode_titles :: "Batch \<Rightarrow> string list" where
  "reliable_episode_titles batch =
     sort_key (\<lambda>t. (comparable_component t, t)) (reliable_titles_loop (bItems batch) [] [])"

lemma permutes_id: "permutes (\<lambda>m. m)"
  by (simp add: permutes_def)

text \<open>A name with an episode of its own keeps it whatever its siblings are; only a name
  without one is refined by them.\<close>

theorem batch_keeps_own:
  assumes "i < length names"
  shows "nParsed (bItems (analyze ord names files) ! i) =
    (let p = parse_plain (fst (stem_of files (names ! i)))
     in if 0 < pEpisodeStart p then p else fst (refined_of ord names files i))"
  using analyze_keeps [OF assms] analyze_item(2) [OF assms] by (simp add: Let_def)

lemma batch_keeps_own_witness:
  "nParsed (bItems (analyze (\<lambda>m. m) [''a'', ''b''] False) ! 1) =
    (let p = parse_plain (fst (stem_of False ([''a'', ''b''] ! 1)))
     in if 0 < pEpisodeStart p then p else fst (refined_of (\<lambda>m. m) [''a'', ''b''] False 1))"
  by (rule batch_keeps_own) simp

lemma analyze_parsed_ok_witness:
  "parsed_ok (nParsed (bItems (analyze (\<lambda>m. m) [''a'', ''b''] False) ! 1))"
  by (rule analyze_parsed_ok [OF permutes_id, of _ "[''a'', ''b'']" False]) simp

lemma analyze_single_witness:
  "nParsed (hd (bItems (analyze (\<lambda>m. m) [''a.mkv''] True))) = parse_plain (fst (stem_of True ''a.mkv''))"
  by (rule analyze_single [OF permutes_id])

lemma differences_analyze_witness:
  "differences_for (analyze (\<lambda>m. m) [''a'', ''b''] False) 0 =
    compare_components (bItems (analyze (\<lambda>m. m) [''a'', ''b''] False))
      (filter (\<lambda>j. item_key (bItems (analyze (\<lambda>m. m) [''a'', ''b''] False)) j =
                   item_key (bItems (analyze (\<lambda>m. m) [''a'', ''b''] False)) 0)
         [0 ..< length [''a'', ''b'']])"
  by (rule differences_analyze) simp

end
