(* ===== verification/Identity.thy ===== *)
theory Identity
  imports GoText
begin

text \<open>
  Package \<open>acquisition\<close> (identity.go): the stable identity of a download. The hexadecimal and
  base32 codecs of the standard library are modelled; the SHA-256 digest and \<open>net/url\<close>'s
  parser and printers are arguments (\<open>url_ops\<close>), about which nothing is assumed.
\<close>

record IdentityInput =
  iiInfoHash :: string
  iiMagnetURL :: string
  iiDownloadURL :: string
  iiGUID :: string

record Identity =
  idID :: string
  idKind :: string
  idCanonical :: string

datatype identity_error =
    InvalidInfoHash | InvalidMagnet | MagnetWithoutTopic | BadURL | UnsupportedScheme | NoHost | NoIdentity

record URL =
  uScheme :: string
  uHostname :: string
  uPort :: string
  uHost :: string
  uPath :: string
  uFragment :: string
  uRawQuery :: string

text \<open>
  What the code uses of \<open>net/url\<close> and \<open>crypto/sha256\<close>: \<open>url.Parse\<close>, \<open>URL.Query()[key]\<close>,
  \<open>URL.Query().Encode()\<close>, \<open>URL.String()\<close>, and the hexadecimal SHA-256 digest.
\<close>

record url_ops =
  url_parse :: "string \<Rightarrow> URL option"
  url_query :: "URL \<Rightarrow> string \<Rightarrow> string list"
  url_encode_query :: "URL \<Rightarrow> string"
  url_string :: "URL \<Rightarrow> string"
  sha256_hex :: "string \<Rightarrow> string"

section \<open>Hexadecimal and base32\<close>

definition hex_digit :: "nat \<Rightarrow> char" where
  "hex_digit d = (if d < 10 then char_of (48 + d) else char_of (87 + d))"

definition hex_encode :: "nat list \<Rightarrow> string" where
  "hex_encode bs = concat (map (\<lambda>b. [hex_digit (b div 16), hex_digit (b mod 16)]) bs)"

definition is_hex :: "char \<Rightarrow> bool" where
  "is_hex c \<longleftrightarrow>
     (let n = of_char c :: nat
      in 48 \<le> n \<and> n \<le> 57 \<or> 65 \<le> n \<and> n \<le> 70 \<or> 97 \<le> n \<and> n \<le> 102)"

definition base32_value :: "char \<Rightarrow> nat option" where
  "base32_value c =
     (let n = of_char c :: nat
      in if 65 \<le> n \<and> n \<le> 90 then Some (n - 65)
         else if 50 \<le> n \<and> n \<le> 55 then Some (n - 24) else None)"

definition base32_digit :: "nat \<Rightarrow> char" where
  "base32_digit v = (if v < 26 then char_of (65 + v) else char_of (24 + v))"

text \<open>A quantum of eight digits is five bytes, in big-endian order.\<close>

fun base32_decode :: "string \<Rightarrow> nat list option" where
  "base32_decode [] = Some []"
| "base32_decode (a # b # c # d # e # f # g # h # s) =
     (case those (map base32_value [a, b, c, d, e, f, g, h]) of
        None \<Rightarrow> None
      | Some vs \<Rightarrow>
          (case base32_decode s of
             None \<Rightarrow> None
           | Some bs \<Rightarrow>
               let n = foldl (\<lambda>x v. 32 * x + v) 0 vs
               in Some (map (\<lambda>k. n div 256 ^ k mod 256) [4, 3, 2, 1, 0] @ bs)))"
| "base32_decode _ = None"

fun base32_encode :: "nat list \<Rightarrow> string" where
  "base32_encode (a # b # c # d # e # bs) =
     (let n = foldl (\<lambda>x v. 256 * x + v) 0 [a, b, c, d, e]
      in map (\<lambda>k. base32_digit (n div 32 ^ k mod 32)) [7, 6, 5, 4, 3, 2, 1, 0] @ base32_encode bs)"
| "base32_encode _ = []"

definition upper_char :: "char \<Rightarrow> char" where
  "upper_char c =
     (let n = of_char c :: nat in if 97 \<le> n \<and> n \<le> 122 then char_of (n - 32) else c)"

definition to_upper :: "string \<Rightarrow> string" where
  "to_upper s = map upper_char s"

section \<open>Identities\<close>

definition normalize_info_hash :: "string \<Rightarrow> string option" where
  "normalize_info_hash value0 =
     (let value = trim_prefix (to_lower (trim_space value0)) ''urn:btih:''
      in if length value = 40 \<and> list_all is_hex value then Some value
         else if length value = 32 then
           (case base32_decode (to_upper value) of
              Some bs \<Rightarrow> if length bs = 20 then Some (hex_encode bs) else None
            | None \<Rightarrow> None)
         else None)"

definition identity_from_info_hash :: "string \<Rightarrow> identity_error + Identity" where
  "identity_from_info_hash value =
     (case normalize_info_hash value of
        None \<Rightarrow> Inl InvalidInfoHash
      | Some n \<Rightarrow> Inr \<lparr> idID = ''btih-'' @ n, idKind = ''btih'', idCanonical = n \<rparr>)"

definition info_hash_from_magnet :: "'x url_ops_scheme \<Rightarrow> string \<Rightarrow> identity_error + string" where
  "info_hash_from_magnet ops raw =
     (case url_parse ops raw of
        None \<Rightarrow> Inl InvalidMagnet
      | Some u \<Rightarrow>
          if to_lower (uScheme u) \<noteq> ''magnet'' then Inl InvalidMagnet
          else case find (\<lambda>t. prefix ''urn:btih:'' (to_lower t)) (url_query ops u ''xt'') of
              Some t \<Rightarrow> Inr t
            | None \<Rightarrow> Inl MagnetWithoutTopic)"

definition normalize_url :: "'x url_ops_scheme \<Rightarrow> string \<Rightarrow> identity_error + string" where
  "normalize_url ops raw =
     (case url_parse ops (trim_space raw) of
        None \<Rightarrow> Inl BadURL
      | Some u \<Rightarrow>
          if uScheme u \<noteq> ''http'' \<and> uScheme u \<noteq> ''https'' then Inl UnsupportedScheme
          else if uHostname u = [] then Inl NoHost
          else
            let scheme = to_lower (uScheme u);
                host0 = to_lower (uHostname u);
                port = (if scheme = ''http'' \<and> uPort u = ''80'' \<or> scheme = ''https'' \<and> uPort u = ''443''
                        then [] else uPort u);
                host = (if CHR '':'' \<in> set host0 then ''['' @ host0 @ '']'' else host0);
                bare = trim_set ''[]'' host;
                joined = (if port \<noteq> [] then
                            (if CHR '':'' \<in> set bare then ''['' @ bare @ '']:'' @ port
                             else bare @ '':'' @ port)
                          else host);
                u1 = u\<lparr> uScheme := scheme, uHost := joined, uFragment := [],
                       uPath := (if uPath u = [] then ''/'' else uPath u) \<rparr>
            in Inr (url_string ops (u1\<lparr> uRawQuery := url_encode_query ops u1 \<rparr>)))"

definition hashed_identity :: "'x url_ops_scheme \<Rightarrow> string \<Rightarrow> string \<Rightarrow> Identity" where
  "hashed_identity ops kind canonical =
     \<lparr> idID = kind @ ''-'' @ sha256_hex ops canonical, idKind = kind, idCanonical = canonical \<rparr>"

definition canonical_identity :: "'x url_ops_scheme \<Rightarrow> IdentityInput \<Rightarrow> identity_error + Identity" where
  "canonical_identity ops input =
     (if iiInfoHash input \<noteq> [] then identity_from_info_hash (iiInfoHash input)
      else if iiMagnetURL input \<noteq> [] then
        (case info_hash_from_magnet ops (iiMagnetURL input) of
           Inl e \<Rightarrow> Inl e | Inr h \<Rightarrow> identity_from_info_hash h)
      else if iiDownloadURL input \<noteq> [] then
        (case normalize_url ops (iiDownloadURL input) of
           Inl e \<Rightarrow> Inl e | Inr c \<Rightarrow> Inr (hashed_identity ops ''url'' c))
      else if trim_space (iiGUID input) \<noteq> [] then
        Inr (hashed_identity ops ''guid'' (trim_space (iiGUID input)))
      else Inl NoIdentity)"

section \<open>One digest, one identity\<close>

lemma word_not_space: "w \<in> set utf8_spaces \<Longrightarrow> c \<in> set w \<Longrightarrow> \<not> is_word c"
proof -
  have "\<forall>w \<in> set utf8_spaces. \<forall>c \<in> set w. \<not> is_word c"
    by (simp add: utf8_spaces_def is_word_def Let_def upt_rec)
  then show "w \<in> set utf8_spaces \<Longrightarrow> c \<in> set w \<Longrightarrow> \<not> is_word c" by blast
qed

lemma strip_word:
  assumes "list_all is_word s" and "\<forall>w \<in> set ws. \<forall>c \<in> set w. \<not> is_word c"
  shows "strip_any ws s = s"
proof (rule strip_any_fix)
  have "w = []" if "w \<in> set ws" "prefix w s" for w
  proof (rule ccontr)
    assume "w \<noteq> []"
    then have "hd w \<in> set w" by simp
    moreover have "set w \<subseteq> set s" using \<open>prefix w s\<close> by (rule set_mono_prefix)
    ultimately show False using assms that(1) by (auto simp: list_all_iff)
  qed
  then show "find (\<lambda>w. w \<noteq> [] \<and> prefix w s) ws = None" by (auto simp: find_None_iff)
qed

lemma trim_space_word: "list_all is_word s \<Longrightarrow> trim_space s = s"
  unfolding trim_space_def using word_not_space by (subst strip_word; simp)+

lemma horner_digits:
  "foldl (\<lambda>x v. b * x + v) 0 (map (\<lambda>k. n div b ^ k mod b) (rev [0 ..< m])) = n mod b ^ m" for n b :: nat
proof -
  have "foldl (\<lambda>x v. b * x + v) a (map (\<lambda>k. n div b ^ k mod b) (rev [0 ..< m])) = a * b ^ m + n mod b ^ m" for a
  proof (induction m arbitrary: a)
    case 0
    then show ?case by simp
  next
    case (Suc m)
    have "n mod b ^ Suc m = b ^ m * (n div b ^ m mod b) + n mod b ^ m"
      by (simp add: mod_mult2_eq mult.commute [of b])
    with Suc show ?case by (simp add: algebra_simps)
  qed
  then show ?thesis by simp
qed

lemma base32_digit_cases: "v < 32 \<Longrightarrow> v \<in> set [0 ..< 32]"
  by simp

lemma base32_digit_props:
  assumes "v < 32"
  shows "base32_value (base32_digit v) = Some v" and "is_word (base32_digit v)"
    and "upper_char (lower_char (base32_digit v)) = base32_digit v"
    and "is_word (lower_char (base32_digit v))"
proof -
  have all: "\<forall>v \<in> set [0 ..< 32]. base32_value (base32_digit v) = Some v \<and> is_word (base32_digit v) \<and>
      upper_char (lower_char (base32_digit v)) = base32_digit v \<and>
      is_word (lower_char (base32_digit v))"
    by (simp add: base32_value_def base32_digit_def is_word_def upper_char_def lower_char_def
        Let_def upt_rec)
  from bspec [OF all, of v] assms
  show "base32_value (base32_digit v) = Some v" "is_word (base32_digit v)"
    "upper_char (lower_char (base32_digit v)) = base32_digit v"
    "is_word (lower_char (base32_digit v))" by simp_all
qed

lemma hex_digit_props:
  assumes "d < 16"
  shows "is_hex (hex_digit d) \<and> lower_char (hex_digit d) = hex_digit d \<and> is_word (hex_digit d)"
proof -
  have all: "\<forall>d \<in> set [0 ..< 16]. is_hex (hex_digit d) \<and> lower_char (hex_digit d) = hex_digit d \<and>
      is_word (hex_digit d)"
    by (simp add: is_hex_def hex_digit_def is_word_def lower_char_def Let_def upt_rec)
  from bspec [OF all, of d] assms show ?thesis by simp
qed

lemma bytes_of_quantum:
  fixes a b c d e :: nat
  assumes "a < 256" and "b < 256" and "c < 256" and "d < 256" and "e < 256"
  defines "n \<equiv> foldl (\<lambda>x v. 256 * x + v) 0 [a, b, c, d, e]"
  shows "n < 32 ^ 8" and "map (\<lambda>k. n div 256 ^ k mod 256) [4, 3, 2, 1, 0] = [a, b, c, d, e]"
proof -
  have n: "n = 256 * (256 * (256 * (256 * a + b) + c) + d) + e" by (simp add: n_def)
  show "n < 32 ^ 8" using assms(1-5) unfolding n by simp
  have step: "(256 * x + y) div 256 = x" "(256 * x + y) mod 256 = y" if "y < 256" for x y :: nat
    using that by simp_all
  have d1: "n div 256 = 256 * (256 * (256 * a + b) + c) + d" "n mod 256 = e"
    unfolding n using assms(5) by (simp_all only: step)
  have d2: "n div 256 ^ 2 = 256 * (256 * a + b) + c" "n div 256 mod 256 = d"
    unfolding power2_eq_square div_mult2_eq d1 using assms(4) by (simp_all only: step)
  have d3: "n div 256 ^ 3 = 256 * a + b" "n div 256 ^ 2 mod 256 = c"
    unfolding power3_eq_cube div_mult2_eq d1 d2 [unfolded power2_eq_square div_mult2_eq d1] d2
    using assms(3,4) by (simp_all only: step)
  have d4: "n div 256 ^ 4 = a" "n div 256 ^ 3 mod 256 = b"
  proof -
    have "(256 :: nat) ^ 4 = 256 ^ 3 * 256" by simp
    then show "n div 256 ^ 4 = a" using d3(1) assms(2) by (simp only: div_mult2_eq step)
    show "n div 256 ^ 3 mod 256 = b" using d3(1) assms(2) by (simp only: step)
  qed
  show "map (\<lambda>k. n div 256 ^ k mod 256) [4, 3, 2, 1, 0] = [a, b, c, d, e]"
    using d1(2) d2(2) d3(2) d4 assms(1) by simp
qed

lemma quantum_cases:
  assumes "length bs = 5 * Suc n"
  obtains a b c d e cs where "bs = a # b # c # d # e # cs" and "length cs = 5 * n"
proof -
  from assms have "length bs = Suc (Suc (Suc (Suc (Suc (5 * n)))))" by simp
  then show thesis using that by (auto simp: length_Suc_conv)
qed

lemma base32_round:
  "length bs = 5 * n \<Longrightarrow> \<forall>b \<in> set bs. b < 256 \<Longrightarrow>
   base32_decode (base32_encode bs) = Some bs \<and> length (base32_encode bs) = 8 * n \<and>
   set (base32_encode bs) \<subseteq> base32_digit ` {..< 32}"
proof (induction n arbitrary: bs)
  case 0
  then show ?case by simp
next
  case (Suc n)
  obtain a b c d e cs where bs: "bs = a # b # c # d # e # cs" "length cs = 5 * n"
    by (rule quantum_cases [OF Suc.prems(1)])
  define q where "q = foldl (\<lambda>x v. 256 * x + v) 0 [a, b, c, d, e]"
  define ds where "ds = map (\<lambda>k. q div 32 ^ k mod 32) [7, 6, 5, 4, 3, 2, 1, 0 :: nat]"
  have lt: "a < 256" "b < 256" "c < 256" "d < 256" "e < 256"
    using Suc.prems(2) bs(1) by simp_all
  note q = bytes_of_quantum [OF lt, folded q_def]
  have enc: "base32_encode bs = map base32_digit ds @ base32_encode cs"
    unfolding bs(1) base32_encode.simps Let_def q_def ds_def by (simp only: list.map map_map comp_def)
  have ds: "\<forall>v \<in> set ds. v < 32" by (simp add: ds_def)
  have "[7, 6, 5, 4, 3, 2, 1, 0 :: nat] = rev [0 ..< 8]" by (simp add: upt_rec)
  then have val: "foldl (\<lambda>x v. 32 * x + v) 0 ds = q"
    using horner_digits [of 32 q 8] q(1) unfolding ds_def by simp
  obtain d1 d2 d3 d4 d5 d6 d7 d8 where ds8: "ds = [d1, d2, d3, d4, d5, d6, d7, d8]"
    by (simp add: ds_def)
  have "those (map base32_value (map base32_digit ds)) = Some ds"
    using ds base32_digit_props(1) unfolding ds8 by simp
  moreover have "base32_decode (base32_encode cs) = Some cs" "length (base32_encode cs) = 8 * n"
    "set (base32_encode cs) \<subseteq> base32_digit ` {..< 32}"
    using Suc.IH [OF bs(2)] Suc.prems(2) bs(1) by simp_all
  ultimately show ?case
    using val q(2) ds unfolding enc ds8 by (simp add: Let_def bs(1))
qed

lemma hex_encode_props:
  assumes "\<forall>b \<in> set bs. b < 256"
  shows "list_all is_hex (hex_encode bs) \<and> to_lower (hex_encode bs) = hex_encode bs \<and>
    list_all is_word (hex_encode bs) \<and> length (hex_encode bs) = 2 * length bs"
  using assms
proof (induction bs)
  case Nil
  then show ?case by (simp add: hex_encode_def)
next
  case (Cons b bs)
  have "b div 16 < 16" "b mod 16 < 16" using Cons.prems by (simp_all add: less_mult_imp_div_less)
  with Cons hex_digit_props [of "b div 16"] hex_digit_props [of "b mod 16"] show ?case
    by (simp add: hex_encode_def)
qed

lemma no_colon_word: "list_all is_word s \<Longrightarrow> trim_prefix s ''urn:btih:'' = s"
proof -
  assume w: "list_all is_word s"
  have "\<not> is_word CHR '':''" by (simp add: is_word_def Let_def)
  with w have "CHR '':'' \<notin> set s" by (auto simp: list_all_iff)
  then have "\<not> prefix ''urn:btih:'' s" using set_mono_prefix by fastforce
  then show ?thesis by (simp add: trim_prefix_def)
qed

text \<open>The hexadecimal and the base32 spelling of a digest have the same normal form.\<close>

lemma normalize_hex:
  assumes "length bs = 20" and "\<forall>b \<in> set bs. b < 256"
  shows "normalize_info_hash (hex_encode bs) = Some (hex_encode bs)"
  using hex_encode_props [OF assms(2)] assms(1)
  by (simp add: normalize_info_hash_def trim_space_word no_colon_word)

lemma normalize_base32:
  assumes "length bs = 20" and "\<forall>b \<in> set bs. b < 256"
  shows "normalize_info_hash (base32_encode bs) = Some (hex_encode bs)"
proof -
  let ?t = "base32_encode bs"
  have r: "base32_decode ?t = Some bs" "length ?t = 32" "set ?t \<subseteq> base32_digit ` {..< 32}"
    using base32_round [of bs 4] assms by simp_all
  have w: "list_all is_word ?t" "list_all is_word (to_lower ?t)" "to_upper (to_lower ?t) = ?t"
    using r(3) base32_digit_props
    by (auto simp: list_all_iff to_lower_def to_upper_def intro!: map_idI)
  show ?thesis
    using r w assms(1)
    by (simp add: normalize_info_hash_def trim_space_word no_colon_word)
qed

text \<open>A normalised info hash is always forty hexadecimal digits.\<close>

theorem normalize_shape:
  assumes "normalize_info_hash v = Some h"
  shows "length h = 40 \<and> list_all is_hex h"
proof -
  have bytes: "\<forall>b \<in> set bs. b < 256" if "base32_decode s = Some bs" for s bs
    using that
    by (induction s arbitrary: bs rule: base32_decode.induct)
      (auto simp: Let_def split: option.splits)
  have "length (hex_encode bs) = 40 \<and> list_all is_hex (hex_encode bs)"
    if "base32_decode s = Some bs" "length bs = 20" for s bs
    using hex_encode_props [OF bytes [OF that(1)]] that(2) by simp
  with assms show ?thesis
    by (auto simp: normalize_info_hash_def Let_def split: if_splits option.splits)
qed

text \<open>The hexadecimal and the base32 spelling of a digest have the same normal form, so a
  torrent has one identity however its hash is written.\<close>

theorem one_identity:
  assumes "length bs = 20" and "\<forall>b \<in> set bs. b < 256"
  shows "normalize_info_hash (hex_encode bs) = Some (hex_encode bs) \<and>
    normalize_info_hash (base32_encode bs) = Some (hex_encode bs)"
  using normalize_hex [OF assms] normalize_base32 [OF assms] by blast

lemma one_identity_witness:
  "normalize_info_hash (hex_encode (replicate 20 255)) = Some (hex_encode (replicate 20 255)) \<and>
   normalize_info_hash (base32_encode (replicate 20 255)) = Some (hex_encode (replicate 20 255))"
  by (rule one_identity) simp_all

lemma normalize_shape_witness:
  "length (hex_encode (replicate 20 7)) = 40 \<and> list_all is_hex (hex_encode (replicate 20 7))"
  by (rule normalize_shape [OF normalize_hex]) simp_all

end
