(* ===== verification/Episode.thy ===== *)
theory Episode
  imports MediaBatch Identity
begin

text \<open>
  Packages \<open>release\<close> and \<open>episode\<close>: the release record, its construction from a feed entry and
  an analysed name, and the logical identity of an episode interval. A \<open>time.Time\<close> is its
  instant and its location, since the program also compares times with \<open>!=\<close>, which compares
  both. The lemmas on keys show that overlap is a symmetric relation that coverage implies,
  that width counts the episodes of the interval, and that the printed logical key determines
  the interval.
\<close>

section \<open>Releases\<close>

record Time =
  tmInstant :: int
  tmLoc :: nat

definition time_is_zero :: "Time \<Rightarrow> bool" where
  "time_is_zero t \<longleftrightarrow> tmInstant t = 0"

definition time_after :: "Time \<Rightarrow> Time \<Rightarrow> bool" where
  "time_after a b \<longleftrightarrow> tmInstant a > tmInstant b"

record Entry =
  enTitle :: string
  enGUID :: string
  enLink :: string
  enDownloadURL :: string
  enPublishedAt :: Time
  enDescription :: string

record NameObservation =
  obsValue :: string
  obsSource :: string
  obsInfoHash :: string

record Release =
  rMediaType :: string
  rProvider :: string
  rTitle :: string
  rNormalizedTitle :: string
  rMediaName :: string
  rNameSource :: string
  rInfoHash :: string
  rParsed :: Parsed
  rComponents :: Components
  rDifferences :: "Difference list"
  rGUID :: string
  rPageURL :: string
  rDownloadURL :: string
  rPublishedAt :: Time
  rGroup :: string
  rEpisode :: string
  rResolution :: string
  rSubtitle :: string

definition acquisition_identity :: "'x url_ops_scheme \<Rightarrow> Release \<Rightarrow> identity_error + Identity" where
  "acquisition_identity ops r =
     (let magnet = prefix ''magnet:'' (to_lower (trim_space (rDownloadURL r)))
      in canonical_identity ops
           \<lparr> iiInfoHash = rInfoHash r,
             iiMagnetURL = (if magnet then rDownloadURL r else []),
             iiDownloadURL = (if magnet then [] else rDownloadURL r),
             iiGUID = rGUID r \<rparr>)"

definition infer_media_type :: "Components \<Rightarrow> string" where
  "infer_media_type c =
     (if cSeasonExplicit c \<or> cSeason c > 0 \<or> reliable_episode_evidence c then ''series'' else ''movie'')"

definition episode_label :: "Parsed \<Rightarrow> string" where
  "episode_label p =
     (if pEpisodeStart p > 0 then
        (if pSeasonExplicit p \<or> pSeason p > 0
           then ''S'' @ show_int (pSeason p) @ ''E'' @ show_int (pEpisodeStart p)
         else ''E'' @ show_int (pEpisodeStart p)) @
        (if pEpisodeEnd p > 0 \<and> pEpisodeEnd p \<noteq> pEpisodeStart p
           then ''-E'' @ show_int (pEpisodeEnd p) else []) @
        (if pVersion p > 1 then ''v'' @ show_int (pVersion p) else [])
      else [])"

definition enrich_parsed :: "string \<Rightarrow> Entry \<Rightarrow> Name \<Rightarrow> Release" where
  "enrich_parsed provider entry name =
     (let c = nComponents name
      in \<lparr> rMediaType = infer_media_type c, rProvider = provider, rTitle = enTitle entry,
           rNormalizedTitle = enTitle entry, rMediaName = [], rNameSource = [], rInfoHash = [],
           rParsed = nParsed name, rComponents = c, rDifferences = [], rGUID = enGUID entry,
           rPageURL = enLink entry, rDownloadURL = enDownloadURL entry,
           rPublishedAt = enPublishedAt entry, rGroup = cReleaseGroup c,
           rEpisode = episode_label (nParsed name), rResolution = cResolution c,
           rSubtitle = cSubtitle c \<rparr>)"

datatype enrich_error = UnsupportedProvider string | ObservationCount nat nat

definition enrich_many_observed ::
    "(cohort_map \<Rightarrow> cohort_map) \<Rightarrow> string \<Rightarrow> Entry list \<Rightarrow> NameObservation list \<Rightarrow>
     enrich_error + Release list" where
  "enrich_many_observed ord provider0 entries observed =
     (let provider = to_lower (trim_space provider0)
      in if provider \<notin> {''generic'', ''mikan'', ''dmhy'', ''nyaa''} then Inl (UnsupportedProvider provider)
         else if length observed \<noteq> length entries
           then Inl (ObservationCount (length observed) (length entries))
         else
           let names = map (\<lambda>o'. trim_space (obsValue o')) observed;
               analysis = analyze_many ord names
           in Inr (map (\<lambda>i.
                (enrich_parsed provider (entries ! i) (bItems analysis ! i))
                  \<lparr> rMediaName := names ! i, rNameSource := obsSource (observed ! i),
                    rInfoHash := to_lower (trim_space (obsInfoHash (observed ! i))),
                    rNormalizedTitle := cTitle (nComponents (bItems analysis ! i)),
                    rDifferences := differences_for analysis i \<rparr>) [0 ..< length entries]))"

section \<open>Episode keys\<close>

record Key =
  kEntryKey :: string
  kSeason :: int
  kEpisodeStart :: int
  kEpisodeEnd :: int
  kRevision :: int
  kSpecial :: bool

definition from_release :: "string \<Rightarrow> int \<Rightarrow> Release \<Rightarrow> string + Key" where
  "from_release entry_key default_season r =
     (let c = rComponents r
      in if cEpisodeStart c \<le> 0 then Inl (''release has no episode identity: '' @ rTitle r)
         else
           let season0 = cSeason c;
               season1 = (if season0 \<le> 0 \<and> \<not> cSeasonExplicit c then default_season else season0);
               season = (if season1 \<le> 0 \<and> \<not> cSeasonExplicit c then 1 else season1);
               stop = (if cEpisodeEnd c \<le> 0 then cEpisodeStart c else cEpisodeEnd c);
               rev = (if cVersion c \<le> 0 then 1 else cVersion c)
           in Inr \<lparr> kEntryKey = entry_key, kSeason = season, kEpisodeStart = cEpisodeStart c,
                kEpisodeEnd = stop, kRevision = rev, kSpecial = (season = 0) \<rparr>)"

definition key_end :: "Key \<Rightarrow> int" where
  "key_end k = (if kEpisodeEnd k < kEpisodeStart k then kEpisodeStart k else kEpisodeEnd k)"

definition key_contains :: "Key \<Rightarrow> int \<Rightarrow> bool" where
  "key_contains k episode \<longleftrightarrow>
     kEpisodeStart k > 0 \<and> episode \<ge> kEpisodeStart k \<and> episode \<le> key_end k"

definition same_scope :: "Key \<Rightarrow> Key \<Rightarrow> bool" where
  "same_scope k l \<longleftrightarrow>
     kEntryKey k = kEntryKey l \<and> kSeason k = kSeason l \<and> kSpecial k = kSpecial l"

definition key_overlaps :: "Key \<Rightarrow> Key \<Rightarrow> bool" where
  "key_overlaps k l =
     (if \<not> same_scope k l then False
      else if kEpisodeStart k \<le> 0 \<or> kEpisodeStart l \<le> 0 then False
      else kEpisodeStart k \<le> key_end l \<and> kEpisodeStart l \<le> key_end k)"

definition key_covers :: "Key \<Rightarrow> Key \<Rightarrow> bool" where
  "key_covers k l =
     (if \<not> same_scope k l then False
      else kEpisodeStart l > 0 \<and> key_contains k (kEpisodeStart l) \<and> key_contains k (key_end l))"

definition key_width :: "Key \<Rightarrow> int" where
  "key_width k = (if kEpisodeStart k \<le> 0 then 0 else key_end k - kEpisodeStart k + 1)"

definition key_logical :: "Key \<Rightarrow> string" where
  "key_logical k =
     kEntryKey k @ ''/S'' @ pad0 2 (kSeason k) @ ''/E'' @ pad0 4 (kEpisodeStart k) @ ''-'' @
     pad0 4 (key_end k) @ ''/special='' @ show_bool (kSpecial k)"

definition key_string :: "Key \<Rightarrow> string" where
  "key_string k = key_logical k @ ''/v'' @ show_int (kRevision k)"

text \<open>The specification of a key: the set of episodes it addresses.\<close>

definition episodes :: "Key \<Rightarrow> int set" where
  "episodes k = (if kEpisodeStart k \<le> 0 then {} else {kEpisodeStart k .. key_end k})"

lemma key_end_ge: "kEpisodeStart k \<le> key_end k"
  by (simp add: key_end_def)

lemma contains_episodes: "key_contains k n \<longleftrightarrow> n \<in> episodes k"
  using key_end_ge [of k] by (auto simp: key_contains_def episodes_def)

lemma overlaps_episodes:
  "key_overlaps k l \<longleftrightarrow> same_scope k l \<and> episodes k \<inter> episodes l \<noteq> {}"
proof -
  have "{a .. b} \<inter> {c .. d} \<noteq> {} \<longleftrightarrow> a \<le> d \<and> c \<le> b" if "a \<le> b" "c \<le> d" for a b c d :: int
    using that by auto
  with key_end_ge [of k] key_end_ge [of l] show ?thesis
    by (auto simp: key_overlaps_def episodes_def)
qed

lemma covers_episodes:
  "key_covers k l \<longleftrightarrow> same_scope k l \<and> episodes l \<noteq> {} \<and> episodes l \<subseteq> episodes k"
  using key_end_ge [of k] key_end_ge [of l]
  by (auto simp: key_covers_def contains_episodes episodes_def)

lemma width_card: "key_width k = int (card (episodes k))"
  using key_end_ge [of k] by (auto simp: key_width_def episodes_def)

lemma overlaps_sym: "key_overlaps k l = key_overlaps l k"
  by (auto simp: key_overlaps_def same_scope_def)

lemma covers_overlaps: "key_covers k l \<Longrightarrow> key_overlaps k l"
  by (auto simp: covers_episodes overlaps_episodes)

lemma covers_trans: "key_covers k l \<Longrightarrow> key_covers l m \<Longrightarrow> key_covers k m"
  by (auto simp: covers_episodes same_scope_def)

lemma covers_width: "key_covers k l \<Longrightarrow> key_width l \<le> key_width k"
proof -
  have "finite (episodes k)" by (simp add: episodes_def)
  then show "key_covers k l \<Longrightarrow> key_width l \<le> key_width k"
    unfolding width_card covers_episodes by (simp add: card_mono)
qed

text \<open>The printed key is read back from its right end, whatever the entry key contains.\<close>

lemma logical_inj:
  assumes "key_logical k = key_logical l"
  shows "kEntryKey k = kEntryKey l \<and> kSeason k = kSeason l \<and>
    kEpisodeStart k = kEpisodeStart l \<and> key_end k = key_end l \<and> kSpecial k = kSpecial l"
proof -
  let ?c = "CHR ''/''"
  let ?sp = "\<lambda>k. ''special='' @ show_bool (kSpecial k)"
  let ?ep = "\<lambda>k. ''E'' @ pad0 4 (kEpisodeStart k) @ CHR ''-'' # pad0 4 (key_end k)"
  let ?se = "\<lambda>k. ''S'' @ pad0 2 (kSeason k)"
  have shape: "key_logical k = ((kEntryKey k @ ?c # ?se k) @ ?c # ?ep k) @ ?c # ?sp k" for k
    by (simp add: key_logical_def)
  have ns: "?c \<notin> set (?sp k)" "?c \<notin> set (?ep k)" "?c \<notin> set (?se k)" for k
    using pad0_no_slash by (simp_all add: show_bool_def)
  from last_sep_unique [OF ns(1) [of k] ns(1) [of l]] assms
  have 1: "(kEntryKey k @ ?c # ?se k) @ ?c # ?ep k = (kEntryKey l @ ?c # ?se l) @ ?c # ?ep l"
    "?sp k = ?sp l" unfolding shape by blast+
  from last_sep_unique [OF ns(2) [of k] ns(2) [of l] 1(1)]
  have 2: "kEntryKey k @ ?c # ?se k = kEntryKey l @ ?c # ?se l" "?ep k = ?ep l" by blast+
  from last_sep_unique [OF ns(3) [of k] ns(3) [of l] 2(1)]
  have 3: "kEntryKey k = kEntryKey l" "?se k = ?se l" by blast+
  from 2(2) have "pad0 4 (kEpisodeStart k) @ CHR ''-'' # pad0 4 (key_end k) =
    pad0 4 (kEpisodeStart l) @ CHR ''-'' # pad0 4 (key_end l)" by simp
  from pad0_sep_inj [OF not_digit(1) this] have "kEpisodeStart k = kEpisodeStart l"
    "pad0 4 (key_end k) = pad0 4 (key_end l)" by simp_all
  moreover from this(2) have "key_end k = key_end l" by (rule pad0_inj)
  moreover have "kSeason k = kSeason l" using 3(2) pad0_inj by simp
  moreover have "kSpecial k = kSpecial l" using 1(2) by (simp add: show_bool_def split: if_splits)
  ultimately show ?thesis using 3(1) by simp
qed

lemma show_int_inj: "show_int i = show_int j \<Longrightarrow> i = j"
proof -
  have "show_int i = pad0 0 i" for i by (simp add: show_int_def pad0_def Let_def)
  then show "show_int i = show_int j \<Longrightarrow> i = j" using pad0_inj by metis
qed

text \<open>A key made from a release is well formed: its interval is not empty and starts it.\<close>

definition key_ok :: "Key \<Rightarrow> bool" where
  "key_ok k \<longleftrightarrow> 0 < kEpisodeStart k \<and> kEpisodeStart k \<le> kEpisodeEnd k \<and> 1 \<le> kRevision k \<and>
     0 \<le> kSeason k \<and> (kSpecial k \<longleftrightarrow> kSeason k = 0)"

text \<open>A key made from a release is well formed: it starts where the release does, its interval is
  not empty, its revision is at least one and it is special just in case its season is zero.\<close>

theorem from_release_ok:
  assumes "from_release e d r = Inr k" and "0 \<le> cSeason (rComponents r)"
    and "cEpisodeEnd (rComponents r) = 0 \<or> cEpisodeStart (rComponents r) \<le> cEpisodeEnd (rComponents r)"
  shows "key_ok k \<and> kEntryKey k = e \<and> kEpisodeStart k = cEpisodeStart (rComponents r)"
  using assms by (auto simp: from_release_def key_ok_def Let_def split: if_splits)

lemma from_release_season:
  assumes "from_release e d r = Inr k"
  shows "kSeason k =
    (if cSeasonExplicit (rComponents r) \<or> 0 < cSeason (rComponents r) then cSeason (rComponents r)
     else if 0 < d then d else 1)"
  using assms by (auto simp: from_release_def Let_def split: if_splits)

text \<open>The zero value of a release.\<close>

definition zero_release :: Release where
  "zero_release =
     \<lparr> rMediaType = [], rProvider = [], rTitle = [], rNormalizedTitle = [], rMediaName = [],
       rNameSource = [], rInfoHash = [], rParsed = empty_parsed, rComponents = empty_components,
       rDifferences = [], rGUID = [], rPageURL = [], rDownloadURL = [],
       rPublishedAt = \<lparr> tmInstant = 0, tmLoc = 0 \<rparr>, rGroup = [], rEpisode = [],
       rResolution = [], rSubtitle = [] \<rparr>"

text \<open>C35. Keys are compared as sets of episodes: within one entry and season overlap is a common
  episode, coverage is inclusion, and the width is the number of episodes.\<close>

theorem keys_are_intervals:
  "(key_overlaps k l \<longleftrightarrow> same_scope k l \<and> episodes k \<inter> episodes l \<noteq> {}) \<and>
   (key_covers k l \<longleftrightarrow> same_scope k l \<and> episodes l \<noteq> {} \<and> episodes l \<subseteq> episodes k) \<and>
   key_width k = int (card (episodes k))"
  using overlaps_episodes [of k l] covers_episodes [of k l] width_card [of k] by blast

text \<open>The printed logical key determines the entry, the season and the interval, whatever the
  entry key contains; two keys with the same text address the same episodes.\<close>

theorem logical_key_identity:
  "key_logical k = key_logical l \<longleftrightarrow>
     same_scope k l \<and> kEpisodeStart k = kEpisodeStart l \<and> key_end k = key_end l"
  using logical_inj [of k l] by (auto simp: same_scope_def key_logical_def)

lemma from_release_ok_witness:
  "key_ok \<lparr> kEntryKey = ''series/A'', kSeason = 2, kEpisodeStart = 3, kEpisodeEnd = 3,
     kRevision = 1, kSpecial = False \<rparr>"
proof -
  let ?c = "empty_components\<lparr> cSeason := 2, cEpisodeStart := 3 \<rparr>"
  have "from_release ''series/A'' 1 (zero_release\<lparr> rComponents := ?c \<rparr>) =
    Inr \<lparr> kEntryKey = ''series/A'', kSeason = 2, kEpisodeStart = 3, kEpisodeEnd = 3,
      kRevision = 1, kSpecial = False \<rparr>"
    by (simp add: from_release_def empty_components_def Let_def)
  from from_release_ok [OF this] show ?thesis by (simp add: empty_components_def)
qed

end
