(* ===== verification/ReleaseFilter.thy ===== *)
theory ReleaseFilter
  imports Episode
begin

text \<open>
  Package \<open>releasefilter\<close>: the user's attribute filters and the options observed. Values are
  compared trimmed and without case (\<open>comparable\<close>). The lemmas show that normalising is
  idempotent and gives valid filters, that it changes no decision of valid filters, and that
  \<open>Equal\<close> is equality of the sets of compared values.
\<close>

record Filters =
  fGroups :: "string list"
  fResolutions :: "string list"
  fSubtitles :: "string list"

definition comparable :: "string \<Rightarrow> string" where
  "comparable value = to_lower (trim_space value)"

definition same :: "string \<Rightarrow> string \<Rightarrow> bool" where
  "same a b \<longleftrightarrow> comparable a = comparable b"

definition append_value :: "string list \<Rightarrow> string \<Rightarrow> string list" where
  "append_value values value0 =
     (let value = trim_space value0
      in if value = [] then values
         else if list_ex (\<lambda>current. same current value) values then values
         else values @ [value])"

definition sort_values :: "string list \<Rightarrow> string list" where
  "sort_values values = sort_key (\<lambda>v. (comparable v, v)) values"

definition normalize_values :: "string list \<Rightarrow> string list" where
  "normalize_values values = sort_values (foldl append_value [] values)"

definition merge_values :: "string list \<Rightarrow> string list \<Rightarrow> string list" where
  "merge_values a b = sort_values (foldl append_value a b)"

definition filters_empty :: "Filters \<Rightarrow> bool" where
  "filters_empty f \<longleftrightarrow> fGroups f = [] \<and> fResolutions f = [] \<and> fSubtitles f = []"

definition normalize_filters :: "Filters \<Rightarrow> Filters" where
  "normalize_filters f =
     \<lparr> fGroups = normalize_values (fGroups f), fResolutions = normalize_values (fResolutions f),
       fSubtitles = normalize_values (fSubtitles f) \<rparr>"

fun equal_values :: "string list \<Rightarrow> string list \<Rightarrow> bool" where
  "equal_values [] [] = True"
| "equal_values (a # as) (b # bs) \<longleftrightarrow> same a b \<and> equal_values as bs"
| "equal_values _ _ = False"

definition filters_equal :: "Filters \<Rightarrow> Filters \<Rightarrow> bool" where
  "filters_equal f g =
     (let a = normalize_filters f; b = normalize_filters g
      in equal_values (fGroups a) (fGroups b) \<and> equal_values (fResolutions a) (fResolutions b) \<and>
         equal_values (fSubtitles a) (fSubtitles b))"

datatype filter_error = EmptyValue string nat | DuplicateValue string string

fun validate_values :: "string \<Rightarrow> nat \<Rightarrow> string list \<Rightarrow> string list \<Rightarrow> filter_error option" where
  "validate_values name i seen [] = None"
| "validate_values name i seen (value0 # values) =
     (let value = trim_space value0
      in if value = [] then Some (EmptyValue name i)
         else if comparable value \<in> set seen then Some (DuplicateValue name value)
         else validate_values name (Suc i) (comparable value # seen) values)"

text \<open>
  The code ranges over a map of the three dimensions, so which of several errors it returns is
  open; here it is the first in the order of the fields.
\<close>

definition validate_filters :: "Filters \<Rightarrow> filter_error option" where
  "validate_filters f =
     (case validate_values ''groups'' 0 [] (fGroups f) of
        Some e \<Rightarrow> Some e
      | None \<Rightarrow>
          (case validate_values ''resolutions'' 0 [] (fResolutions f) of
             Some e \<Rightarrow> Some e
           | None \<Rightarrow> validate_values ''subtitles'' 0 [] (fSubtitles f)))"

definition allows :: "string list \<Rightarrow> string \<Rightarrow> bool" where
  "allows allowed value \<longleftrightarrow> allowed = [] \<or> list_ex (\<lambda>candidate. same candidate value) allowed"

definition reject_reason :: "Filters \<Rightarrow> Release \<Rightarrow> string" where
  "reject_reason f r =
     (if \<not> allows (fGroups f) (rGroup r) then ''release group is not allowed by entry filters''
      else if \<not> allows (fResolutions f) (rResolution r) then ''resolution is not allowed by entry filters''
      else if \<not> allows (fSubtitles f) (rSubtitle r) then ''subtitle is not allowed by entry filters''
      else [])"

record Options =
  oGroups :: "string list"
  oResolutions :: "string list"
  oSubtitles :: "string list"

definition merge_options :: "Options \<Rightarrow> Options \<Rightarrow> Options" where
  "merge_options a b =
     \<lparr> oGroups = merge_values (oGroups a) (oGroups b),
       oResolutions = merge_values (oResolutions a) (oResolutions b),
       oSubtitles = merge_values (oSubtitles a) (oSubtitles b) \<rparr>"

definition with_filters :: "Options \<Rightarrow> Filters \<Rightarrow> Options" where
  "with_filters a f =
     merge_options a \<lparr> oGroups = fGroups f, oResolutions = fResolutions f, oSubtitles = fSubtitles f \<rparr>"

definition options_from_releases :: "Release list \<Rightarrow> Options" where
  "options_from_releases values =
     \<lparr> oGroups = sort_values (foldl append_value [] (map rGroup values)),
       oResolutions = sort_values (foldl append_value [] (map rResolution values)),
       oSubtitles = sort_values (foldl append_value [] (map rSubtitle values)) \<rparr>"

definition options_from_names :: "Name list \<Rightarrow> Options" where
  "options_from_names values =
     \<lparr> oGroups = sort_values (foldl append_value [] (map (cReleaseGroup \<circ> nComponents) values)),
       oResolutions = sort_values (foldl append_value [] (map (cResolution \<circ> nComponents) values)),
       oSubtitles = sort_values (foldl append_value [] (map (cSubtitle \<circ> nComponents) values)) \<rparr>"

definition new_options :: "string list \<Rightarrow> string list \<Rightarrow> string list \<Rightarrow> Options" where
  "new_options groups resolutions subtitles =
     \<lparr> oGroups = normalize_values groups, oResolutions = normalize_values resolutions,
       oSubtitles = normalize_values subtitles \<rparr>"

section \<open>Normal forms\<close>

lemma comparable_trim [simp]: "comparable (trim_space v) = comparable v"
  by (simp add: comparable_def)

lemma same_refl [simp]: "same a a"
  by (simp add: same_def)

text \<open>Whether a value is already listed, as a set of compared values.\<close>

lemma listed_iff: "list_ex (\<lambda>current. same current v) vs \<longleftrightarrow> comparable v \<in> comparable ` set vs"
  by (induction vs) (auto simp: same_def)

text \<open>Normal values: trimmed, not empty, pairwise different when compared, in order.\<close>

definition normal_values :: "string list \<Rightarrow> bool" where
  "normal_values vs \<longleftrightarrow> (\<forall>v \<in> set vs. v \<noteq> [] \<and> trim_space v = v) \<and> distinct (map comparable vs)"

lemma append_value_normal:
  "normal_values vs \<Longrightarrow> normal_values (append_value vs v)"
  by (auto simp: normal_values_def append_value_def Let_def listed_iff)

lemma foldl_append_normal: "normal_values vs \<Longrightarrow> normal_values (foldl append_value vs xs)"
  by (induction xs arbitrary: vs) (simp_all add: append_value_normal)

lemma set_sort_values [simp]: "set (sort_values vs) = set vs"
  by (simp add: sort_values_def)

lemma mset_sort_values [simp]: "mset (sort_values vs) = mset vs"
  by (simp add: sort_values_def)

lemma sort_values_normal [simp]: "normal_values (sort_values vs) = normal_values vs"
proof -
  have "mset (map comparable (sort_values vs)) = mset (map comparable vs)" by simp
  then have "distinct (map comparable (sort_values vs)) = distinct (map comparable vs)"
    using mset_eq_imp_distinct_iff by blast
  then show ?thesis by (simp add: normal_values_def)
qed

lemma normalize_normal: "normal_values (normalize_values vs)"
  unfolding normalize_values_def sort_values_normal
  by (rule foldl_append_normal) (simp add: normal_values_def)

lemma foldl_append_id: "normal_values (vs @ xs) \<Longrightarrow> foldl append_value vs xs = vs @ xs"
proof (induction xs arbitrary: vs)
  case Nil
  then show ?case by simp
next
  case (Cons x xs)
  then have "append_value vs x = vs @ [x]"
    by (auto simp: normal_values_def append_value_def Let_def listed_iff)
  with Cons show ?case by simp
qed

lemma sorted_sort_values: "sorted (map (\<lambda>v. (comparable v, v)) (sort_values vs))"
  by (simp add: sort_values_def)

lemma sort_values_idem [simp]: "sort_values (sort_values vs) = sort_values vs"
  unfolding sort_values_def by (rule sort_key_id_if_sorted) simp

lemma normalize_values_idem: "normalize_values (normalize_values vs) = normalize_values vs"
proof -
  have "foldl append_value [] (normalize_values vs) = normalize_values vs"
    using foldl_append_id [of "[]" "normalize_values vs"] normalize_normal by simp
  then show ?thesis by (simp add: normalize_values_def)
qed

lemma normalize_filters_idem: "normalize_filters (normalize_filters f) = normalize_filters f"
  by (simp add: normalize_filters_def normalize_values_idem)

lemma validate_values_iff:
  "validate_values name i seen vs = None \<longleftrightarrow>
     (\<forall>v \<in> set vs. trim_space v \<noteq> []) \<and> distinct (map comparable vs) \<and>
     comparable ` set vs \<inter> set seen = {}"
  by (induction name i seen vs rule: validate_values.induct) (auto simp: Let_def)

lemma validate_filters_iff:
  "validate_filters f = None \<longleftrightarrow>
     (\<forall>vs \<in> {fGroups f, fResolutions f, fSubtitles f}.
        (\<forall>v \<in> set vs. trim_space v \<noteq> []) \<and> distinct (map comparable vs))"
  using validate_values_iff [of "''groups''" 0 "[]" "fGroups f"]
    validate_values_iff [of "''resolutions''" 0 "[]" "fResolutions f"]
    validate_values_iff [of "''subtitles''" 0 "[]" "fSubtitles f"]
  by (auto simp: validate_filters_def split: option.splits)

lemma normalize_filters_valid: "validate_filters (normalize_filters f) = None"
proof -
  have "(\<forall>v \<in> set (normalize_values vs). trim_space v \<noteq> []) \<and> distinct (map comparable (normalize_values vs))" for vs
    using normalize_normal [of vs] by (auto simp: normal_values_def)
  then show ?thesis by (simp add: validate_filters_iff normalize_filters_def)
qed

lemma comparable_append_value:
  "trim_space v \<noteq> [] \<Longrightarrow> comparable ` set (append_value vs v) = insert (comparable v) (comparable ` set vs)"
  by (auto simp: append_value_def Let_def listed_iff)

lemma comparable_foldl:
  "\<forall>v \<in> set xs. trim_space v \<noteq> [] \<Longrightarrow>
   comparable ` set (foldl append_value vs xs) = comparable ` set vs \<union> comparable ` set xs"
  by (induction xs arbitrary: vs) (auto simp: comparable_append_value)

lemma comparable_normalize:
  "\<forall>v \<in> set vs. trim_space v \<noteq> [] \<Longrightarrow> comparable ` set (normalize_values vs) = comparable ` set vs"
  by (simp add: normalize_values_def comparable_foldl)

lemma allows_iff: "allows vs v \<longleftrightarrow> set vs = {} \<or> comparable v \<in> comparable ` set vs"
  by (simp add: allows_def listed_iff)

lemma allows_normalize:
  assumes "\<forall>v \<in> set vs. trim_space v \<noteq> []"
  shows "allows (normalize_values vs) v = allows vs v"
proof -
  have "set (normalize_values vs) = {} \<longleftrightarrow> set vs = {}"
    using comparable_normalize [OF assms] by (metis image_is_empty)
  with comparable_normalize [OF assms] show ?thesis by (simp only: allows_iff)
qed

text \<open>Normalising valid filters changes no decision about any release.\<close>

theorem reject_normalize:
  assumes "validate_filters f = None"
  shows "reject_reason (normalize_filters f) r = reject_reason f r"
  using assms by (simp add: validate_filters_iff reject_reason_def normalize_filters_def allows_normalize)

lemma equal_values_iff: "equal_values as bs \<longleftrightarrow> map comparable as = map comparable bs"
  by (induction as bs rule: equal_values.induct) (auto simp: same_def)

text \<open>Sorted lists without duplicates are determined by their sets.\<close>

lemma normal_sorted_comparable:
  assumes "normal_values (sort_values vs)"
  shows "sorted (map comparable (sort_values vs)) \<and> distinct (map comparable (sort_values vs))"
proof -
  have "sorted (map fst (map (\<lambda>v. (comparable v, v)) (sort_values vs)))"
    using sorted_sort_values [of vs] by (fastforce simp: sorted_iff_nth_mono less_eq_prod_def)
  with assms show ?thesis by (simp add: comp_def normal_values_def)
qed

lemma equal_normalize_iff:
  "equal_values (normalize_values as) (normalize_values bs) \<longleftrightarrow>
   comparable ` set (normalize_values as) = comparable ` set (normalize_values bs)"
proof -
  have s: "sorted (map comparable (normalize_values vs)) \<and> distinct (map comparable (normalize_values vs))" for vs
    using normal_sorted_comparable [of "foldl append_value [] vs"] normalize_normal [of vs]
    unfolding normalize_values_def by blast
  show ?thesis
    unfolding equal_values_iff
    using sorted_distinct_set_unique [of "map comparable (normalize_values as)" "map comparable (normalize_values bs)"]
      s [of as] s [of bs] by (metis list.set_map)
qed

text \<open>Two valid filters are equal to the code just in case each of their three lists has the same
  set of compared values.\<close>

theorem filters_equal_iff:
  assumes "validate_filters f = None" and "validate_filters g = None"
  shows "filters_equal f g \<longleftrightarrow>
    comparable ` set (fGroups f) = comparable ` set (fGroups g) \<and>
    comparable ` set (fResolutions f) = comparable ` set (fResolutions g) \<and>
    comparable ` set (fSubtitles f) = comparable ` set (fSubtitles g)"
  using assms
  by (simp add: filters_equal_def normalize_filters_def equal_normalize_iff comparable_normalize
      validate_filters_iff)

text \<open>Normalising filters gives valid ones, and normalising again changes nothing.\<close>

theorem normal_filters_stable:
  "validate_filters (normalize_filters f) = None \<and>
   normalize_filters (normalize_filters f) = normalize_filters f"
  using normalize_filters_valid normalize_filters_idem by blast

lemma comparable_word:
  "s \<noteq> [] \<Longrightarrow> visible (hd s) \<Longrightarrow> visible (last s) \<Longrightarrow> comparable s = to_lower s"
  by (simp add: comparable_def trim_space_ends)

lemma char_eq_char_of: "c = char_of n \<longleftrightarrow> of_char c = take_bit 8 (n :: nat)"
  by (metis char_of_eq_iff)

lemmas name_values = char_of_eq_iff char_eq_char_of comparable_word trim_space_ends visible_def to_lower_def lower_char_def Let_def

lemma reject_normalize_witness:
  "reject_reason (normalize_filters \<lparr> fGroups = [''B'', ''a''], fResolutions = [], fSubtitles = [] \<rparr>) zero_release =
   reject_reason \<lparr> fGroups = [''B'', ''a''], fResolutions = [], fSubtitles = [] \<rparr> zero_release"
  by (rule reject_normalize) (simp add: validate_filters_def name_values)

lemma filters_equal_witness:
  "filters_equal \<lparr> fGroups = [''B'', ''a''], fResolutions = [], fSubtitles = [] \<rparr>
     \<lparr> fGroups = [''A'', ''b''], fResolutions = [], fSubtitles = [] \<rparr>"
proof -
  let ?f = "\<lparr> fGroups = [''B'', ''a''], fResolutions = [], fSubtitles = [] \<rparr>"
  let ?g = "\<lparr> fGroups = [''A'', ''b''], fResolutions = [], fSubtitles = [] \<rparr>"
  have v: "validate_filters ?f = None" "validate_filters ?g = None"
    by (simp_all add: validate_filters_def name_values)
  have "comparable ` set [''B'', ''a''] = {''a'', ''b''}" "comparable ` set [''A'', ''b''] = {''a'', ''b''}"
    by (auto simp: name_values)
  with filters_equal_iff [OF v] show ?thesis by simp
qed

end
