(* ===== verification/Physical.thy ===== *)
theory Physical
  imports GoText
begin

text \<open>
  Packages \<open>filesystem\<close> (filesystem.go) and \<open>mediafile\<close>: the snapshot of a namespace. A
  snapshot groups paths by the physical object they name. \<open>snap_ok\<close> states that the map of
  paths and the path lists of the objects are the same relation. The tree a walk meets is a
  value of type \<open>ftree\<close>: what \<open>filepath.WalkDir\<close> and \<open>Lstat\<close> report is an input of the model,
  the callback and the walk's handling of \<open>SkipDir\<close> are its definitions.
\<close>

section \<open>Objects and snapshots\<close>

record ObjectID =
  oidDevice :: nat
  oidInode :: nat

datatype file_kind = Regular | Directory | Symlink | Special

record Metadata =
  mdID :: ObjectID
  mdSize :: int
  mdKind :: file_kind
  mdNLink :: nat

definition is_regular :: "Metadata \<Rightarrow> bool" where
  "is_regular m \<longleftrightarrow> mdKind m = Regular"

definition is_dir :: "Metadata \<Rightarrow> bool" where
  "is_dir m \<longleftrightarrow> mdKind m = Directory"

record Object =
  oMeta :: Metadata
  oPaths :: "string list"

record Issue =
  isPath :: string
  isErr :: string

record Snapshot =
  snRoot :: string
  snRootExists :: bool
  snRootObject :: "Metadata option"
  snObjects :: "(ObjectID, Object) gomap"
  snPaths :: "(string, ObjectID) gomap"
  snDirectories :: "(string, Metadata) gomap"
  snIssues :: "Issue list"

definition empty_snapshot :: Snapshot where
  "empty_snapshot = \<lparr> snRoot = [], snRootExists = False, snRootObject = None, snObjects = [],
     snPaths = [], snDirectories = [], snIssues = [] \<rparr>"

definition snapshot_complete :: "Snapshot \<Rightarrow> bool" where
  "snapshot_complete s \<longleftrightarrow> snIssues s = []"

definition add_regular :: "string \<Rightarrow> Metadata \<Rightarrow> Snapshot \<Rightarrow> Snapshot" where
  "add_regular path meta s =
     (let obj = (case get (snObjects s) (mdID meta) of
            Some o' \<Rightarrow> (if oPaths o' = [] then o'\<lparr> oMeta := meta \<rparr> else o')
          | None \<Rightarrow> \<lparr> oMeta = meta, oPaths = [] \<rparr>);
          obj' = obj\<lparr> oPaths := oPaths obj @ [path] \<rparr>
      in s\<lparr> snObjects := put (mdID meta) obj' (snObjects s),
            snPaths := put path (mdID meta) (snPaths s) \<rparr>)"

definition sort_paths :: "Object \<Rightarrow> Object" where
  "sort_paths obj = (if length (oPaths obj) > 1 then obj\<lparr> oPaths := sort (oPaths obj) \<rparr> else obj)"

definition sort_object_paths :: "Snapshot \<Rightarrow> Snapshot" where
  "sort_object_paths s =
     s\<lparr> snObjects := map (\<lambda>(oid, obj). (oid, sort_paths obj)) (snObjects s) \<rparr>"

definition snap_ok :: "Snapshot \<Rightarrow> bool" where
  "snap_ok s \<longleftrightarrow> wf_map (snObjects s) \<and> wf_map (snPaths s) \<and> wf_map (snDirectories s) \<and>
     (\<forall>p oid. get (snPaths s) p = Some oid \<longleftrightarrow>
        (\<exists>obj. get (snObjects s) oid = Some obj \<and> p \<in> set (oPaths obj))) \<and>
     (\<forall>oid obj. get (snObjects s) oid = Some obj \<longrightarrow>
        oPaths obj \<noteq> [] \<and> distinct (oPaths obj) \<and> mdID (oMeta obj) = oid)"

lemma empty_snapshot_ok [simp]: "snap_ok empty_snapshot"
  by (simp add: snap_ok_def empty_snapshot_def)

lemma snap_ok_fields [simp]:
  "snap_ok (s\<lparr> snRoot := r \<rparr>) = snap_ok s" "snap_ok (s\<lparr> snRootExists := b \<rparr>) = snap_ok s"
  "snap_ok (s\<lparr> snRootObject := m \<rparr>) = snap_ok s" "snap_ok (s\<lparr> snIssues := iss \<rparr>) = snap_ok s"
  by (simp_all add: snap_ok_def)

lemma snap_ok_directories: "snap_ok s \<Longrightarrow> wf_map ds \<Longrightarrow> snap_ok (s\<lparr> snDirectories := ds \<rparr>)"
  by (simp add: snap_ok_def)

lemma snap_ok_path:
  "snap_ok s \<Longrightarrow> get (snPaths s) p = Some oid \<longleftrightarrow>
     (\<exists>obj. get (snObjects s) oid = Some obj \<and> p \<in> set (oPaths obj))"
  by (simp add: snap_ok_def)

lemma snap_ok_object:
  "snap_ok s \<Longrightarrow> get (snObjects s) oid = Some obj \<Longrightarrow>
     oPaths obj \<noteq> [] \<and> distinct (oPaths obj) \<and> mdID (oMeta obj) = oid"
  by (simp add: snap_ok_def)

text \<open>A new path joins the object with its identity and leaves everything else alone.\<close>

lemma add_regular_objects:
  "get (snObjects (add_regular path meta s)) oid =
     (if oid = mdID meta then
        Some (case get (snObjects s) oid of
            None \<Rightarrow> \<lparr> oMeta = meta, oPaths = [path] \<rparr>
          | Some obj \<Rightarrow> (if oPaths obj = [] then obj\<lparr> oMeta := meta, oPaths := [path] \<rparr>
                       else obj\<lparr> oPaths := oPaths obj @ [path] \<rparr>))
      else get (snObjects s) oid)"
  by (auto simp: add_regular_def Let_def split: option.splits)

lemma add_regular_paths [simp]:
  "get (snPaths (add_regular path meta s)) p =
     (if p = path then Some (mdID meta) else get (snPaths s) p)"
  by (auto simp: add_regular_def Let_def)

lemma add_regular_other [simp]:
  "snDirectories (add_regular path meta s) = snDirectories s"
  "snIssues (add_regular path meta s) = snIssues s"
  "snRoot (add_regular path meta s) = snRoot s"
  "snRootExists (add_regular path meta s) = snRootExists s"
  "snRootObject (add_regular path meta s) = snRootObject s"
  by (simp_all add: add_regular_def Let_def)

lemma add_regular_ok:
  assumes "snap_ok s" and "get (snPaths s) path = None"
  shows "snap_ok (add_regular path meta s)"
proof -
  let ?t = "add_regular path meta s"
  have fresh: "path \<notin> set (oPaths obj)" if "get (snObjects s) oid = Some obj" for oid obj
    using snap_ok_path [OF assms(1), of path oid] assms(2) that by simp
  have wf: "wf_map (snObjects ?t)" "wf_map (snPaths ?t)" "wf_map (snDirectories ?t)"
    using assms(1) by (simp_all add: add_regular_def snap_ok_def Let_def)
  have paths: "get (snPaths ?t) p = Some oid \<longleftrightarrow>
      (\<exists>obj. get (snObjects ?t) oid = Some obj \<and> p \<in> set (oPaths obj))" for p oid
    using snap_ok_path [OF assms(1), of p oid] fresh [of oid] assms(2)
    by (cases "get (snObjects s) oid") (auto simp: add_regular_objects split: if_splits)
  have objects: "oPaths obj \<noteq> [] \<and> distinct (oPaths obj) \<and> mdID (oMeta obj) = oid"
    if "get (snObjects ?t) oid = Some obj" for oid obj
    using that snap_ok_object [OF assms(1), of oid] fresh [of oid]
    by (cases "get (snObjects s) oid") (auto simp: add_regular_objects split: if_splits)
  show ?thesis unfolding snap_ok_def using wf paths objects by blast
qed

lemma get_map_values:
  "get (map (\<lambda>(k, v). (k, f v)) m) k = map_option f (get m k)"
  by (induction m) auto

lemma sort_paths_props [simp]:
  "set (oPaths (sort_paths obj)) = set (oPaths obj)"
  "distinct (oPaths (sort_paths obj)) = distinct (oPaths obj)"
  "oMeta (sort_paths obj) = oMeta obj"
  by (simp_all add: sort_paths_def)

lemma sort_paths_empty [simp]: "oPaths (sort_paths obj) = [] \<longleftrightarrow> oPaths obj = []"
  using sort_paths_props(1) [of obj] by (metis set_empty)

lemma sort_object_paths_get:
  "get (snObjects (sort_object_paths s)) oid = map_option sort_paths (get (snObjects s) oid)"
  by (simp add: sort_object_paths_def get_map_values)

lemma sort_object_paths_other [simp]:
  "snPaths (sort_object_paths s) = snPaths s" "snDirectories (sort_object_paths s) = snDirectories s"
  "snIssues (sort_object_paths s) = snIssues s" "snRootExists (sort_object_paths s) = snRootExists s"
  "keys (snObjects (sort_object_paths s)) = keys (snObjects s)"
  by (simp_all add: sort_object_paths_def case_prod_unfold comp_def)

lemma sort_object_paths_ok:
  assumes "snap_ok s"
  shows "snap_ok (sort_object_paths s)"
proof -
  have paths: "get (snPaths s) p = Some oid \<longleftrightarrow>
      (\<exists>obj. get (snObjects (sort_object_paths s)) oid = Some obj \<and> p \<in> set (oPaths obj))" for p oid
    unfolding snap_ok_path [OF assms] sort_object_paths_get by (cases "get (snObjects s) oid") simp_all
  have objects: "oPaths obj \<noteq> [] \<and> distinct (oPaths obj) \<and> mdID (oMeta obj) = oid"
    if "get (snObjects (sort_object_paths s)) oid = Some obj" for oid obj
    using that snap_ok_object [OF assms, of oid] unfolding sort_object_paths_get
    by (cases "get (snObjects s) oid") auto
  have "wf_map (snObjects (sort_object_paths s))" "wf_map (snPaths s)" "wf_map (snDirectories s)"
    using assms by (simp_all only: sort_object_paths_other) (simp_all add: snap_ok_def)
  with paths objects show ?thesis unfolding snap_ok_def by simp
qed

section \<open>Projection onto subtrees\<close>

definition root_snapshot :: "string \<Rightarrow> Snapshot \<Rightarrow> Snapshot" where
  "root_snapshot root s =
     empty_snapshot\<lparr> snRoot := clean root,
       snRootExists := (get (snDirectories s) (clean root) \<noteq> None),
       snRootObject := get (snDirectories s) (clean root) \<rparr>"

definition add_directory :: "string \<times> Metadata \<Rightarrow> Snapshot \<Rightarrow> Snapshot" where
  "add_directory d s = s\<lparr> snDirectories := put (fst d) (snd d) (snDirectories s) \<rparr>"

definition add_named :: "Metadata \<times> string \<Rightarrow> Snapshot \<Rightarrow> Snapshot" where
  "add_named x s = add_regular (snd x) (fst x) s"

definition add_issue :: "Issue \<Rightarrow> Snapshot \<Rightarrow> Snapshot" where
  "add_issue i s = s\<lparr> snIssues := snIssues s @ [i] \<rparr>"

text \<open>Every name of every object, in the order of the code's nested loops.\<close>

definition named_objects :: "Snapshot \<Rightarrow> (Metadata \<times> string) list" where
  "named_objects s =
     concat (map (\<lambda>(_, obj). map (\<lambda>p. (oMeta obj, p)) (oPaths obj)) (snObjects s))"

definition only_if :: "bool \<Rightarrow> ('a \<Rightarrow> 'a) \<Rightarrow> 'a \<Rightarrow> 'a" where
  "only_if b f x = (if b then f x else x)"

definition subtree :: "Snapshot \<Rightarrow> string \<Rightarrow> Snapshot" where
  "subtree s root =
     fold (\<lambda>i. only_if (within (clean root) (isPath i)) (add_issue i)) (snIssues s)
       (fold (\<lambda>x. only_if (within (clean root) (snd x)) (add_named x)) (named_objects s)
         (fold (\<lambda>d. only_if (within (clean root) (fst d)) (add_directory d)) (snDirectories s)
           (root_snapshot root s)))"

text \<open>\<open>byRoot\<close>: the identifiers of each cleaned root.\<close>

definition by_root :: "(string, string) gomap \<Rightarrow> (string, (string \<times> string) list) gomap" where
  "by_root roots = group_into (\<lambda>(_, root). clean root) roots"

definition owners :: "(string, string) gomap \<Rightarrow> string \<Rightarrow> string list" where
  "owners roots path =
     concat (map (\<lambda>current. map fst (get_or [] (by_root roots) current)) (ancestors (clean path)))"

definition update_owner :: "(Snapshot \<Rightarrow> Snapshot) \<Rightarrow> string \<Rightarrow> (string, Snapshot) gomap \<Rightarrow> (string, Snapshot) gomap" where
  "update_owner f owner out = put owner (f (get_or empty_snapshot out owner)) out"

definition distribute ::
    "('x \<Rightarrow> string list) \<Rightarrow> ('x \<Rightarrow> Snapshot \<Rightarrow> Snapshot) \<Rightarrow> 'x list \<Rightarrow>
     (string, Snapshot) gomap \<Rightarrow> (string, Snapshot) gomap" where
  "distribute own f xs out = fold (\<lambda>x. fold (update_owner (f x)) (own x)) xs out"

definition project_subtrees :: "Snapshot \<Rightarrow> (string, string) gomap \<Rightarrow> (string, Snapshot) gomap" where
  "project_subtrees s roots =
     distribute (\<lambda>i. owners roots (isPath i)) add_issue (snIssues s)
       (distribute (\<lambda>x. owners roots (snd x)) add_named (named_objects s)
         (distribute (\<lambda>d. owners roots (fst d)) add_directory (snDirectories s)
           (map (\<lambda>(owner, root). (owner, root_snapshot root s)) roots)))"

text \<open>One pass that updates every owner is, for each owner, the pass over what it owns.\<close>

lemma fold_update_owner:
  assumes "distinct ids" and "get out k = Some v"
  shows "get (fold (update_owner f) ids out) k = Some (only_if (k \<in> set ids) f v)"
  using assms
proof (induction ids arbitrary: out v)
  case Nil
  then show ?case by (simp add: only_if_def)
next
  case (Cons i ids)
  show ?case
  proof (cases "i = k")
    case True
    have "get (update_owner f i out) k = Some (f v)"
      using True Cons.prems(2) by (simp add: update_owner_def get_or_def)
    from Cons.IH [OF _ this] True Cons.prems(1) show ?thesis by (simp add: only_if_def)
  next
    case False
    have "get (update_owner f i out) k = Some v"
      using False Cons.prems(2) by (simp add: update_owner_def)
    from Cons.IH [OF _ this] False Cons.prems(1) show ?thesis by (simp add: only_if_def)
  qed
qed

lemma distribute_get:
  assumes "\<forall>x \<in> set xs. distinct (own x)" and "get out k = Some v"
  shows "get (distribute own f xs out) k = Some (fold (\<lambda>x. only_if (k \<in> set (own x)) (f x)) xs v)"
  using assms
proof (induction xs arbitrary: out v)
  case Nil
  then show ?case by (simp add: distribute_def)
next
  case (Cons x xs)
  have "get (fold (update_owner (f x)) (own x) out) k = Some (only_if (k \<in> set (own x)) (f x) v)"
    using Cons.prems by (intro fold_update_owner) simp_all
  from Cons.IH [OF _ this] Cons.prems(1) show ?case by (simp add: distribute_def)
qed

lemma owner_group:
  assumes "wf_map roots"
  shows "k \<in> set (map fst (get_or [] (by_root roots) current)) \<longleftrightarrow>
    (\<exists>root. get roots k = Some root \<and> clean root = current)"
proof -
  have "get_or [] (by_root roots) current = filter (\<lambda>x. clean (snd x) = current) roots"
    by (simp add: by_root_def case_prod_unfold)
  then show ?thesis using in_set_get [OF assms] by (force simp: image_iff)
qed

lemma owners_iff:
  assumes "wf_map roots" and "is_abs path" and "get roots k = Some root" and "is_abs root"
  shows "k \<in> set (owners roots path) \<longleftrightarrow> within (clean root) path"
proof -
  have "k \<in> set (owners roots path) \<longleftrightarrow> clean root \<in> set (ancestors (clean path))"
    using owner_group [OF assms(1)] assms(3) by (auto simp: owners_def image_iff)
  with mem_ancestors [of "clean root" path] assms show ?thesis by simp
qed

lemma distinct_owners:
  assumes "wf_map roots" and "is_abs path"
  shows "distinct (owners roots path)"
proof -
  have sub: "get_or [] (by_root roots) current = filter (\<lambda>x. clean (snd x) = current) roots" for current
    by (simp add: by_root_def case_prod_unfold)
  have d: "distinct (map fst (get_or [] (by_root roots) current))" for current
    unfolding sub using assms(1) by simp
  have disj: "set (map fst (get_or [] (by_root roots) a)) \<inter> set (map fst (get_or [] (by_root roots) b)) = {}"
    if "a \<noteq> b" for a b
  proof (rule equals0I)
    fix k assume "k \<in> set (map fst (get_or [] (by_root roots) a)) \<inter>
      set (map fst (get_or [] (by_root roots) b))"
    then have "k \<in> set (map fst (get_or [] (by_root roots) a))"
      and "k \<in> set (map fst (get_or [] (by_root roots) b))" by (rule IntD1, rule IntD2)
    then obtain r r' where "get roots k = Some r" "clean r = a" "get roots k = Some r'" "clean r' = b"
      unfolding owner_group [OF assms(1)] by blast
    with that show False by simp
  qed
  show ?thesis
    unfolding owners_def by (rule distinct_concat_map [OF distinct_ancestors [OF assms(2)] d disj])
qed

definition absolute :: "Snapshot \<Rightarrow> bool" where
  "absolute s \<longleftrightarrow> (\<forall>x \<in> set (named_objects s). is_abs (snd x)) \<and>
     (\<forall>d \<in> set (snDirectories s). is_abs (fst d)) \<and> (\<forall>i \<in> set (snIssues s). is_abs (isPath i))"

lemma fold_only_if_cong:
  "(\<And>x. x \<in> set xs \<Longrightarrow> P x = Q x) \<Longrightarrow> fold (\<lambda>x. only_if (P x) (f x)) xs v = fold (\<lambda>x. only_if (Q x) (f x)) xs v"
  by (induction xs arbitrary: v) simp_all

text \<open>C32. The single pass over the snapshot gives every owner what Subtree gives it alone, for
  nested and overlapping roots too.\<close>

theorem project_subtrees_get:
  assumes "wf_map roots" and "absolute s" and "get roots k = Some root" and "is_abs root"
  shows "get (project_subtrees s roots) k = Some (subtree s root)"
proof -
  let ?o = "\<lambda>p. k \<in> set (owners roots p)" and ?w = "within (clean root)"
  have eq: "?o p = ?w p" if "is_abs p" for p using owners_iff [OF assms(1) that assms(3,4)] .
  have start: "get (map (\<lambda>(owner, root). (owner, root_snapshot root s)) roots) k = Some (root_snapshot root s)"
    using get_map_values [of "\<lambda>root. root_snapshot root s" roots k] assms(3) by simp
  note d = distinct_owners [OF assms(1)]
  have "get (project_subtrees s roots) k =
    Some (fold (\<lambda>i. only_if (?o (isPath i)) (add_issue i)) (snIssues s)
       (fold (\<lambda>x. only_if (?o (snd x)) (add_named x)) (named_objects s)
         (fold (\<lambda>d. only_if (?o (fst d)) (add_directory d)) (snDirectories s) (root_snapshot root s))))"
    unfolding project_subtrees_def
    using assms(2) d by (intro distribute_get start) (auto simp: absolute_def)
  also have "\<dots> = Some (subtree s root)"
  proof -
    have "fold (\<lambda>i. only_if (?o (isPath i)) (add_issue i)) (snIssues s) v =
        fold (\<lambda>i. only_if (?w (isPath i)) (add_issue i)) (snIssues s) v" for v
      using assms(2) by (intro fold_only_if_cong eq) (simp add: absolute_def)
    moreover have "fold (\<lambda>x. only_if (?o (snd x)) (add_named x)) (named_objects s) v =
        fold (\<lambda>x. only_if (?w (snd x)) (add_named x)) (named_objects s) v" for v
      using assms(2) by (intro fold_only_if_cong eq) (simp add: absolute_def)
    moreover have "fold (\<lambda>d. only_if (?o (fst d)) (add_directory d)) (snDirectories s) v =
        fold (\<lambda>d. only_if (?w (fst d)) (add_directory d)) (snDirectories s) v" for v
      using assms(2) by (intro fold_only_if_cong eq) (simp add: absolute_def)
    ultimately show ?thesis by (simp add: subtree_def)
  qed
  finally show ?thesis .
qed

text \<open>A subtree holds exactly what the snapshot holds below its root.\<close>

lemma fold_only_if: "fold (\<lambda>x. only_if (P x) (f x)) xs v = fold f (filter P xs) v"
  by (induction xs arbitrary: v) (simp_all add: only_if_def)

lemma fold_add_named:
  assumes "snap_ok s" and "distinct (map snd xs)" and "\<forall>x \<in> set xs. get (snPaths s) (snd x) = None"
  shows "snap_ok (fold add_named xs s) \<and>
    get (snPaths (fold add_named xs s)) p =
      (case get (map (\<lambda>x. (snd x, mdID (fst x))) xs) p of
         Some oid \<Rightarrow> Some oid | None \<Rightarrow> get (snPaths s) p)"
  using assms
proof (induction xs arbitrary: s)
  case Nil
  then show ?case by simp
next
  case (Cons x xs)
  have "snap_ok (add_named x s)" using Cons.prems by (simp add: add_named_def add_regular_ok)
  moreover have "\<forall>y \<in> set xs. get (snPaths (add_named x s)) (snd y) = None"
  proof
    fix y assume y: "y \<in> set xs"
    with Cons.prems(2) have "snd y \<noteq> snd x" by (metis distinct.simps(2) image_eqI list.map(2) set_map)
    with Cons.prems(3) y show "get (snPaths (add_named x s)) (snd y) = None"
      by (simp add: add_named_def)
  qed
  ultimately have "snap_ok (fold add_named xs (add_named x s)) \<and>
      get (snPaths (fold add_named xs (add_named x s))) p =
        (case get (map (\<lambda>x. (snd x, mdID (fst x))) xs) p of
           Some oid \<Rightarrow> Some oid | None \<Rightarrow> get (snPaths (add_named x s)) p)"
    using Cons.prems(2) by (intro Cons.IH) simp_all
  moreover have "get (map (\<lambda>x. (snd x, mdID (fst x))) xs) (snd x) = None"
  proof -
    have "snd x \<notin> set (keys (map (\<lambda>x. (snd x, mdID (fst x))) xs))"
      using Cons.prems(2) by (simp add: comp_def)
    then show ?thesis by (simp only: map_of_eq_None_iff set_map not_False_eq_True)
  qed
  moreover have "get (snPaths (add_named x s)) p = (if p = snd x then Some (mdID (fst x)) else get (snPaths s) p)"
    by (simp add: add_named_def)
  ultimately show ?case by (auto split: option.splits)
qed

lemma named_objects_paths:
  "map snd (named_objects s) = concat (map (\<lambda>x. oPaths (snd x)) (snObjects s))"
  by (simp add: named_objects_def map_concat comp_def case_prod_unfold)

lemma distinct_named_objects:
  assumes "snap_ok s"
  shows "distinct (map snd (named_objects s))"
  unfolding named_objects_paths
proof (rule distinct_concat_map)
  have wf: "wf_map (snObjects s)" using assms by (simp add: snap_ok_def)
  then show "distinct (snObjects s)" using distinct_map by blast
  fix x assume x: "x \<in> set (snObjects s)"
  then have gx: "get (snObjects s) (fst x) = Some (snd x)" using in_set_get [OF wf, of "fst x" "snd x"] by simp
  then show "distinct (oPaths (snd x))" using snap_ok_object [OF assms] by blast
  fix y assume y: "y \<in> set (snObjects s)" "x \<noteq> y"
  then have gy: "get (snObjects s) (fst y) = Some (snd y)" using in_set_get [OF wf, of "fst y" "snd y"] by simp
  show "set (oPaths (snd x)) \<inter> set (oPaths (snd y)) = {}"
  proof (rule equals0I)
    fix p assume "p \<in> set (oPaths (snd x)) \<inter> set (oPaths (snd y))"
    then have "get (snPaths s) p = Some (fst x)" "get (snPaths s) p = Some (fst y)"
      using snap_ok_path [OF assms] gx gy by blast+
    then have "fst x = fst y" by simp
    with gx gy y(2) show False by (simp add: prod_eq_iff)
  qed
qed

lemma get_named_objects:
  assumes "snap_ok s"
  shows "get (map (\<lambda>x. (snd x, mdID (fst x))) (filter (\<lambda>x. P (snd x)) (named_objects s))) p =
    (if P p then get (snPaths s) p else None)"
proof -
  let ?m = "map (\<lambda>x. (snd x, mdID (fst x))) (filter (\<lambda>x. P (snd x)) (named_objects s))"
  have wf: "wf_map (snObjects s)" using assms by (simp add: snap_ok_def)
  have wfm: "wf_map ?m"
    using distinct_named_objects [OF assms] by (simp add: comp_def distinct_map_filter)
  have "(p, oid) \<in> set ?m \<longleftrightarrow> P p \<and> get (snPaths s) p = Some oid" for oid
  proof -
    have "(p, oid) \<in> set ?m \<longleftrightarrow> P p \<and> (\<exists>m. (m, p) \<in> set (named_objects s) \<and> mdID m = oid)"
      by force
    also have "(\<exists>m. (m, p) \<in> set (named_objects s) \<and> mdID m = oid) \<longleftrightarrow>
        (\<exists>k obj. get (snObjects s) k = Some obj \<and> p \<in> set (oPaths obj) \<and> mdID (oMeta obj) = oid)"
      using in_set_get [OF wf] by (force simp: named_objects_def)
    also have "\<dots> \<longleftrightarrow> (\<exists>obj. get (snObjects s) oid = Some obj \<and> p \<in> set (oPaths obj))"
      using snap_ok_object [OF assms] by blast
    finally show ?thesis using snap_ok_path [OF assms] by blast
  qed
  then show ?thesis
    using in_set_get [OF wfm] by (metis (no_types, lifting) not_Some_eq)
qed

lemma fold_directories:
  "snap_ok s \<Longrightarrow> snap_ok (fold add_directory ds s) \<and> snPaths (fold add_directory ds s) = snPaths s"
proof (induction ds arbitrary: s)
  case (Cons d ds)
  have "snap_ok (add_directory d s)" "snPaths (add_directory d s) = snPaths s"
    using Cons.prems by (auto simp: add_directory_def snap_ok_def)
  with Cons.IH [of "add_directory d s"] show ?case by simp
qed simp

lemma fold_issues:
  "snIssues (fold add_issue is s) = snIssues s @ is \<and> snap_ok (fold add_issue is s) = snap_ok s \<and>
   snPaths (fold add_issue is s) = snPaths s"
  by (induction "is" arbitrary: s) (simp_all add: add_issue_def)

text \<open>The subtree of a consistent snapshot is consistent and names exactly the paths below the
  root, with their objects.\<close>

theorem subtree_paths:
  assumes "snap_ok s"
  shows "snap_ok (subtree s root) \<and>
    get (snPaths (subtree s root)) p = (if within (clean root) p then get (snPaths s) p else None)"
proof -
  let ?P = "\<lambda>p. within (clean root) p"
  let ?d = "fold add_directory (filter (\<lambda>d. ?P (fst d)) (snDirectories s)) (root_snapshot root s)"
  let ?n = "filter (\<lambda>x. ?P (snd x)) (named_objects s)"
  have r: "snap_ok (root_snapshot root s)" "snPaths (root_snapshot root s) = []"
    by (simp_all add: root_snapshot_def) (simp add: empty_snapshot_def)
  then have d: "snap_ok ?d" "snPaths ?d = []" using fold_directories by simp_all
  have "distinct (map snd ?n)" using distinct_named_objects [OF assms] by (rule distinct_map_filter)
  from fold_add_named [OF d(1) this, of p] d(2) get_named_objects [OF assms, of ?P p]
  have "snap_ok (fold add_named ?n ?d)"
    "get (snPaths (fold add_named ?n ?d)) p = (if ?P p then get (snPaths s) p else None)"
    by (auto split: option.splits)
  then show ?thesis
    unfolding subtree_def fold_only_if using fold_issues by simp
qed

section \<open>Observing a tree\<close>

text \<open>
  What one call of the walk's callback is given: the path, the error of the walk, whether the
  entry is there and a directory, whether its type is a symbolic link, and its \<open>Info\<close>: an
  error, or the metadata where the system reports an identity, and what kind of file it is.
\<close>

record visit =
  vPath :: string
  vWalkErr :: "string option"
  vEntryDir :: bool
  vEntrySymlink :: bool
  vInfo :: "string + Metadata option \<times> file_kind"

datatype outcome = Continue | SkipDir | Abort string

definition record_issue :: "string \<Rightarrow> string \<Rightarrow> Snapshot \<Rightarrow> Snapshot" where
  "record_issue path err s = add_issue \<lparr> isPath = path, isErr = err \<rparr> s"

definition issue_outcome :: "string \<Rightarrow> bool \<Rightarrow> string \<Rightarrow> string \<Rightarrow> Snapshot \<Rightarrow> Snapshot \<times> outcome" where
  "issue_outcome path entry_dir err root s =
     (if path = root then (s, Abort err)
      else (record_issue path err s, if entry_dir then SkipDir else Continue))"

definition observe_visit :: "string \<Rightarrow> visit \<Rightarrow> Snapshot \<Rightarrow> Snapshot \<times> outcome" where
  "observe_visit root v s =
     (let path = clean (vPath v)
      in case vWalkErr v of
           Some e \<Rightarrow> issue_outcome path (vEntryDir v) e root s
         | None \<Rightarrow>
             if vEntrySymlink v then
               issue_outcome path (vEntryDir v) ''symlink is not a reliable filesystem observation'' root s
             else case vInfo v of
                 Inl e \<Rightarrow> issue_outcome path (vEntryDir v) (''stat '' @ path @ '': '' @ e) root s
               | Inr (None, kind) \<Rightarrow>
                   issue_outcome path (kind = Directory) ''filesystem identity unavailable'' root s
               | Inr (Some meta, kind) \<Rightarrow>
                   if path = root \<and> kind \<noteq> Directory then (s, Abort ''configured namespace root is not a directory'')
                   else if kind = Directory then
                     (let s1 = add_directory (path, meta) s
                      in (if path = root then s1\<lparr> snRootExists := True, snRootObject := Some meta \<rparr> else s1,
                          Continue))
                   else if kind = Regular then (add_regular path meta s, Continue)
                   else (s, Continue))"

text \<open>
  A tree as \<open>filepath.WalkDir\<close> meets it: the first visit of a node; for a directory the error
  of reading it, if reading failed (the callback is then called again); and its children in
  lexical order.
\<close>

datatype ftree = FTree (fVisit: visit) (fReadErr: "string option") (fChildren: "ftree list")

fun walk :: "string \<Rightarrow> ftree \<Rightarrow> Snapshot \<Rightarrow> Snapshot \<times> outcome"
  and walk_children :: "string \<Rightarrow> ftree list \<Rightarrow> Snapshot \<Rightarrow> Snapshot \<times> outcome" where
  "walk root (FTree v rerr children) s =
     (case observe_visit root v s of
        (s1, Continue) \<Rightarrow>
          if \<not> vEntryDir v then (s1, Continue)
          else (case rerr of
              None \<Rightarrow> walk_children root children s1
            | Some e \<Rightarrow>
                (case observe_visit root (v\<lparr> vWalkErr := Some e \<rparr>) s1 of
                   (s2, Continue) \<Rightarrow> walk_children root children s2
                 | (s2, SkipDir) \<Rightarrow> (s2, Continue)
                 | (s2, Abort e') \<Rightarrow> (s2, Abort e')))
      | (s1, SkipDir) \<Rightarrow> if vEntryDir v then (s1, Continue) else (s1, SkipDir)
      | (s1, Abort e) \<Rightarrow> (s1, Abort e))"
| "walk_children root [] s = (s, Continue)"
| "walk_children root (t # ts) s =
     (case walk root t s of
        (s1, Continue) \<Rightarrow> walk_children root ts s1
      | (s1, SkipDir) \<Rightarrow> (s1, Continue)
      | (s1, Abort e) \<Rightarrow> (s1, Abort e))"

definition observe_tree :: "string \<Rightarrow> ftree \<Rightarrow> string + Snapshot" where
  "observe_tree root0 t =
     (let root = clean root0
      in case walk root t (empty_snapshot\<lparr> snRoot := root \<rparr>) of
           (s, Abort e) \<Rightarrow> Inl e
         | (s, _) \<Rightarrow> Inr (sort_object_paths s))"

text \<open>No tree at all is the root that does not exist.\<close>

definition observe_tree_if_present :: "string \<Rightarrow> ftree option \<Rightarrow> string + Snapshot" where
  "observe_tree_if_present root t =
     (case t of
        None \<Rightarrow> Inr (empty_snapshot\<lparr> snRoot := clean root \<rparr>)
      | Some t' \<Rightarrow> observe_tree root t')"

section \<open>Comparing snapshots\<close>

definition contains_all :: "Snapshot \<Rightarrow> Snapshot \<Rightarrow> bool" where
  "contains_all s other =
     (if snObjects other = [] then False
      else list_all (\<lambda>(oid, _). get (snObjects s) oid \<noteq> None) (snObjects other))"

definition same_hardlink_domain :: "Snapshot \<Rightarrow> Snapshot \<Rightarrow> bool" where
  "same_hardlink_domain a b \<longleftrightarrow> snRootExists a \<and> snRootExists b \<and>
     (case (snRootObject a, snRootObject b) of
        (Some m, Some n) \<Rightarrow> oidDevice (mdID m) = oidDevice (mdID n)
      | (None, Some n) \<Rightarrow> oidDevice (mdID n) = 0
      | (Some m, None) \<Rightarrow> oidDevice (mdID m) = 0
      | (None, None) \<Rightarrow> True)"

definition directory_stable :: "Snapshot \<Rightarrow> Snapshot \<Rightarrow> string \<Rightarrow> string \<Rightarrow> bool" where
  "directory_stable before after before_path after_path \<longleftrightarrow>
     (case (get (snDirectories before) (clean before_path), get (snDirectories after) (clean after_path)) of
        (Some b, Some a) \<Rightarrow> mdID b = mdID a | _ \<Rightarrow> False)"

section \<open>The namespace both roots share\<close>

definition abs_path :: "string \<Rightarrow> string \<Rightarrow> string" where
  "abs_path cwd p = (if is_abs p then clean p else join_path [cwd, p])"

datatype namespace_error = FilesystemRootOnly | NoSharedNamespace

definition common_namespace_root :: "string \<Rightarrow> string \<Rightarrow> string \<Rightarrow> namespace_error + string" where
  "common_namespace_root cwd first second =
     (let a = clean (abs_path cwd first); b = clean (abs_path cwd second)
      in case find (\<lambda>current. within current b) (ancestors a) of
           None \<Rightarrow> Inl NoSharedNamespace
         | Some current \<Rightarrow> if current = ''/'' then Inl FilesystemRootOnly else Inr current)"

section \<open>Media files\<close>

definition is_incomplete_artifact :: "string \<Rightarrow> bool" where
  "is_incomplete_artifact path =
     (let lower = to_lower (base path)
      in suffix ''.!qb'' lower \<or> suffix ''.part'' lower \<or> suffix ''.aria2'' lower)"

definition has_allowed_extension :: "string \<Rightarrow> string list \<Rightarrow> bool" where
  "has_allowed_extension path extensions \<longleftrightarrow> to_lower (ext path) \<in> set extensions"

definition extension_set :: "string list \<Rightarrow> string list" where
  "extension_set values = map (\<lambda>v. to_lower (''.'' @ trim_prefix v ''.'')) values"

text \<open>\<open>stat\<close> is the result for the control file beside the path: there, absent, or an error.\<close>

datatype stat_result = Exists | NotExist | StatError string

definition ready_path :: "string \<Rightarrow> string list \<Rightarrow> stat_result \<Rightarrow> string + bool" where
  "ready_path path extensions control =
     (if is_incomplete_artifact path \<or> \<not> has_allowed_extension path extensions then Inr False
      else case control of Exists \<Rightarrow> Inr False | NotExist \<Rightarrow> Inr True | StatError e \<Rightarrow> Inl e)"

section \<open>What an observation proves\<close>

text \<open>The regular files of a tree, under their cleaned paths.\<close>

definition own_regular :: "visit \<Rightarrow> (string \<times> Metadata) list" where
  "own_regular v =
     (if vWalkErr v \<noteq> None \<or> vEntrySymlink v then []
      else case vInfo v of
          Inr (Some meta, Regular) \<Rightarrow> [(clean (vPath v), meta)] | _ \<Rightarrow> [])"

fun regulars :: "ftree \<Rightarrow> (string \<times> Metadata) list" where
  "regulars (FTree v rerr children) = own_regular v @ concat (map regulars children)"

text \<open>Only a directory entry has children.\<close>

fun tree_ok :: "ftree \<Rightarrow> bool" where
  "tree_ok (FTree v rerr children) \<longleftrightarrow>
     (vEntryDir v \<or> children = [] \<and> rerr = None) \<and> (\<forall>t \<in> set children. tree_ok t)"

definition named :: "Snapshot \<Rightarrow> string set" where
  "named s = dom (get (snPaths s))"

definition covers_visits :: "Snapshot \<Rightarrow> Snapshot \<Rightarrow> outcome \<Rightarrow> (string \<times> Metadata) list \<Rightarrow> bool" where
  "covers_visits s s' res rs \<longleftrightarrow>
     named s \<subseteq> named s' \<and> length (snIssues s) \<le> length (snIssues s') \<and>
     (res = SkipDir \<longrightarrow> length (snIssues s) < length (snIssues s')) \<and>
     (res = Continue \<longrightarrow> length (snIssues s') = length (snIssues s) \<longrightarrow> fst ` set rs \<subseteq> named s')"

lemma named_simps [simp]:
  "named (add_issue i s) = named s" "named (add_directory d s) = named s"
  "named (add_regular path meta s) = insert path (named s)"
  "named (s\<lparr> snRootExists := b, snRootObject := m \<rparr>) = named s"
  by (auto simp: named_def add_issue_def add_directory_def split: if_splits)

lemma issues_simps [simp]:
  "snIssues (add_issue i s) = snIssues s @ [i]" "snIssues (add_directory d s) = snIssues s"
  by (simp_all add: add_issue_def add_directory_def)

lemma observe_visit_covers:
  "observe_visit root v s = (s', res) \<Longrightarrow> covers_visits s s' res (own_regular v)"
  by (auto simp: observe_visit_def issue_outcome_def record_issue_def covers_visits_def own_regular_def
      Let_def split: option.splits sum.splits prod.splits if_splits file_kind.splits)

lemma visits_trans:
  "covers_visits s s1 Continue rs \<Longrightarrow> covers_visits s1 s2 res rs' \<Longrightarrow> covers_visits s s2 res (rs @ rs')"
  unfolding covers_visits_def by (auto simp: image_Un)

lemma visits_weaken:
  "covers_visits s s' res rs \<Longrightarrow> length (snIssues s) < length (snIssues s') \<Longrightarrow> covers_visits s s' res' rs'"
  unfolding covers_visits_def by auto

lemma visits_abort: "covers_visits s s' res rs \<Longrightarrow> covers_visits s s' (Abort e) rs'"
  unfolding covers_visits_def by auto

lemma walk_covers:
  "tree_ok t \<Longrightarrow> walk root t s = (s', res) \<Longrightarrow> covers_visits s s' res (regulars t)"
  "\<forall>t \<in> set ts. tree_ok t \<Longrightarrow> walk_children root ts s = (s', res) \<Longrightarrow>
   covers_visits s s' res (concat (map regulars ts))"
proof (induction root t s and root ts s arbitrary: s' res and s' res rule: walk_walk_children.induct)
  case (1 root v rerr children s)
  obtain s1 r1 where v1: "observe_visit root v s = (s1, r1)" by force
  note c1 = observe_visit_covers [OF v1]
  show ?case
  proof (cases r1)
    case (Abort e)
    with "1.prems" v1 c1 show ?thesis by (auto intro: visits_abort)
  next
    case SkipDir
    with c1 have "length (snIssues s) < length (snIssues s1)" by (simp add: covers_visits_def)
    with SkipDir "1.prems" v1 c1 show ?thesis by (auto intro: visits_weaken split: if_splits)
  next
    case Continue
    show ?thesis
    proof (cases "vEntryDir v")
      case False
      with Continue "1.prems" v1 c1 show ?thesis by simp
    next
      case dir: True
      have kids: "\<forall>t \<in> set children. tree_ok t" using "1.prems"(1) by simp
      show ?thesis
      proof (cases rerr)
        case None
        with "1.prems"(2) v1 Continue dir have "walk_children root children s1 = (s', res)" by simp
        from "1.IH"(1) [OF v1 [symmetric] Continue _ None kids this] dir
        have "covers_visits s1 s' res (concat (map regulars children))" by simp
        with c1 Continue visits_trans show ?thesis by fastforce
      next
        case (Some e)
        obtain s2 r2 where v2: "observe_visit root (v\<lparr> vWalkErr := Some e \<rparr>) s1 = (s2, r2)" by force
        have own: "own_regular (v\<lparr> vWalkErr := Some e \<rparr>) = []" by (simp add: own_regular_def)
        note c2 = observe_visit_covers [OF v2, unfolded own]
        have c12: "covers_visits s s2 r2 (own_regular v)"
          using visits_trans [OF c1 [unfolded Continue] c2] by simp
        show ?thesis
        proof (cases r2)
          case (Abort e')
          with "1.prems"(2) v1 v2 Continue dir Some c12 show ?thesis by (auto intro: visits_abort)
        next
          case SkipDir
          with c12 have "length (snIssues s) < length (snIssues s2)" by (simp add: covers_visits_def)
          with SkipDir "1.prems"(2) v1 v2 Continue dir Some c12 show ?thesis
            by (auto intro: visits_weaken)
        next
          case c: Continue
          with "1.prems"(2) v1 v2 Continue dir Some have "walk_children root children s2 = (s', res)" by simp
          from "1.IH"(2) [OF v1 [symmetric] Continue _ Some v2 [symmetric] c kids this] dir
          have "covers_visits s2 s' res (concat (map regulars children))" by simp
          with c12 c visits_trans show ?thesis by fastforce
        qed
      qed
    qed
  qed
next
  case (2 root s)
  then show ?case by (simp add: covers_visits_def)
next
  case (3 root t ts s)
  obtain s1 r1 where w: "walk root t s = (s1, r1)" by force
  have c: "covers_visits s s1 r1 (regulars t)" using "3.IH"(1) "3.prems"(1) w by simp
  show ?case
  proof (cases r1)
    case (Abort e)
    with "3.prems" w c show ?thesis by (auto intro: visits_abort)
  next
    case SkipDir
    with c have "length (snIssues s) < length (snIssues s1)" by (simp add: covers_visits_def)
    with SkipDir "3.prems" w c show ?thesis by (auto intro: visits_weaken)
  next
    case Continue
    with "3.prems" w have "walk_children root ts s1 = (s', res)" by simp
    with "3.IH"(2) [OF w [symmetric] Continue] "3.prems"(1)
    have "covers_visits s1 s' res (concat (map regulars ts))" by simp
    with c Continue visits_trans show ?thesis by fastforce
  qed
qed

text \<open>Without an issue the observation is complete: every regular file of the tree is named.\<close>

text \<open>C33. An observation without an issue is complete: every regular file the walk could reach has
  its path in the snapshot.\<close>

theorem observe_tree_complete:
  assumes "tree_ok t" and "observe_tree root t = Inr s" and "snapshot_complete s"
    and "(p, meta) \<in> set (regulars t)"
  shows "get (snPaths s) p \<noteq> None"
proof -
  obtain s0 res where w: "walk (clean root) t (empty_snapshot\<lparr> snRoot := clean root \<rparr>) = (s0, res)" by force
  from assms(2) w have s: "s = sort_object_paths s0" "\<forall>e. res \<noteq> Abort e"
    by (auto simp: observe_tree_def Let_def split: outcome.splits)
  then have iss: "snIssues s0 = []" using assms(3) by (simp add: snapshot_complete_def)
  note c = walk_covers(1) [OF assms(1) w]
  have "res = Continue" using c iss s(2) by (cases res) (auto simp: covers_visits_def)
  with c iss have "fst ` set (regulars t) \<subseteq> named s0"
    by (simp add: covers_visits_def empty_snapshot_def)
  with assms(4) s(1) show ?thesis by (force simp: named_def)
qed

text \<open>And every name is that of a regular file of the tree, with its identity.\<close>

definition names_from :: "Snapshot \<Rightarrow> Snapshot \<Rightarrow> (string \<times> Metadata) list \<Rightarrow> bool" where
  "names_from s s' rs \<longleftrightarrow> snap_ok s' \<and>
     (\<forall>p oid. get (snPaths s') p = Some oid \<longrightarrow>
        get (snPaths s) p = Some oid \<or> (\<exists>m. (p, m) \<in> set rs \<and> mdID m = oid))"

lemma names_from_named: "names_from s s' rs \<Longrightarrow> named s' \<subseteq> named s \<union> fst ` set rs"
  unfolding names_from_def named_def by force

lemma names_from_refl: "snap_ok s \<Longrightarrow> names_from s s rs"
  by (simp add: names_from_def)

lemma names_from_trans:
  "names_from s s1 rs \<Longrightarrow> names_from s1 s2 rs' \<Longrightarrow> names_from s s2 (rs @ rs')"
  unfolding names_from_def by (metis UnCI set_append)

lemma names_from_mono: "names_from s s' rs \<Longrightarrow> set rs \<subseteq> set rs' \<Longrightarrow> names_from s s' rs'"
  unfolding names_from_def by blast

lemma snap_ok_add [simp]:
  "snap_ok (add_issue i s) = snap_ok s" "snap_ok s \<Longrightarrow> snap_ok (add_directory d s)"
  "snPaths (add_issue i s) = snPaths s" "snPaths (add_directory d s) = snPaths s"
  by (simp_all add: add_issue_def add_directory_def snap_ok_def)

lemma observe_visit_names:
  assumes "observe_visit root v s = (s', res)" and "snap_ok s"
    and "named s \<inter> fst ` set (own_regular v) = {}"
  shows "names_from s s' (own_regular v)"
proof -
  have fresh: "get (snPaths s) p = None" if "(p, m) \<in> set (own_regular v)" for p m
    using assms(3) that by (force simp: named_def)
  show ?thesis
    using assms(1,2) fresh
    by (auto simp: observe_visit_def issue_outcome_def record_issue_def names_from_def own_regular_def
        Let_def intro!: add_regular_ok
        split: option.splits sum.splits prod.splits if_splits file_kind.splits)
qed

definition fresh_for :: "Snapshot \<Rightarrow> (string \<times> Metadata) list \<Rightarrow> bool" where
  "fresh_for s rs \<longleftrightarrow> distinct (map fst rs) \<and> named s \<inter> fst ` set rs = {}"

lemma fresh_append: "fresh_for s (rs @ rs') \<longleftrightarrow>
    fresh_for s rs \<and> fresh_for s rs' \<and> fst ` set rs \<inter> fst ` set rs' = {}"
  by (auto simp: fresh_for_def)

lemma fresh_after:
  "fresh_for s (rs @ rs') \<Longrightarrow> names_from s s1 rs \<Longrightarrow> fresh_for s1 rs'"
  using names_from_named [of s s1 rs] unfolding fresh_append unfolding fresh_for_def by blast

lemma walk_names:
  "walk root t s = (s', res) \<Longrightarrow> snap_ok s \<Longrightarrow> fresh_for s (regulars t) \<Longrightarrow> names_from s s' (regulars t)"
  "walk_children root ts s = (s', res) \<Longrightarrow> snap_ok s \<Longrightarrow> fresh_for s (concat (map regulars ts)) \<Longrightarrow>
   names_from s s' (concat (map regulars ts))"
proof (induction root t s and root ts s arbitrary: s' res and s' res rule: walk_walk_children.induct)
  case (1 root v rerr children s)
  obtain s1 r1 where v1: "observe_visit root v s = (s1, r1)" by force
  have n1: "names_from s s1 (own_regular v)"
  proof (rule observe_visit_names [OF v1 "1.prems"(2)])
    have "fresh_for s (own_regular v)" using "1.prems"(3) by (simp add: fresh_append)
    then show "named s \<inter> fst ` set (own_regular v) = {}" by (simp add: fresh_for_def)
  qed
  then have own: "names_from s s1 (regulars (FTree v rerr children))" by (rule names_from_mono) simp
  have ok1: "snap_ok s1" using n1 by (simp add: names_from_def)
  have fresh1: "fresh_for s1 (concat (map regulars children))"
    using fresh_after [OF _ n1] "1.prems"(3) by simp
  show ?case
  proof (cases "r1 = Continue \<and> vEntryDir v")
    case False
    with "1.prems"(1) v1 own show ?thesis by (auto split: outcome.splits if_splits)
  next
    case True
    then have c: "r1 = Continue" and dir: "vEntryDir v" by simp_all
    show ?thesis
    proof (cases rerr)
      case None
      with "1.prems"(1) v1 c dir have "walk_children root children s1 = (s', res)" by simp
      from "1.IH"(1) [OF v1 [symmetric] c _ None this ok1 fresh1] dir names_from_trans [OF n1]
      show ?thesis by simp
    next
      case (Some e)
      obtain s2 r2 where v2: "observe_visit root (v\<lparr> vWalkErr := Some e \<rparr>) s1 = (s2, r2)" by force
      have none: "own_regular (v\<lparr> vWalkErr := Some e \<rparr>) = []" by (simp add: own_regular_def)
      have n2: "names_from s1 s2 []"
        using observe_visit_names [OF v2 ok1] unfolding none by simp
      have n12: "names_from s s2 (own_regular v)" using names_from_trans [OF n1 n2] by simp
      have fresh2: "fresh_for s2 (concat (map regulars children))"
        using fresh_after [OF _ n12] "1.prems"(3) by simp
      have ok2: "snap_ok s2" using n2 by (simp add: names_from_def)
      show ?thesis
      proof (cases "r2 = Continue")
        case False
        have "names_from s s2 (regulars (FTree v rerr children))" using n12 by (rule names_from_mono) simp
        with False "1.prems"(1) v1 v2 c dir Some show ?thesis by (auto split: outcome.splits)
      next
        case c2: True
        with "1.prems"(1) v1 v2 c dir Some have "walk_children root children s2 = (s', res)" by simp
        from "1.IH"(2) [OF v1 [symmetric] c _ Some v2 [symmetric] c2 this ok2 fresh2] dir
          names_from_trans [OF n12]
        show ?thesis by simp
      qed
    qed
  qed
next
  case (2 root s)
  then show ?case by (simp add: names_from_refl)
next
  case (3 root t ts s)
  obtain s1 r1 where w: "walk root t s = (s1, r1)" by force
  have n1: "names_from s s1 (regulars t)"
    using "3.IH"(1) [OF w "3.prems"(2)] "3.prems"(3) by (simp add: fresh_append)
  show ?case
  proof (cases "r1 = Continue")
    case False
    have "names_from s s1 (concat (map regulars (t # ts)))" using n1 by (rule names_from_mono) simp
    with False "3.prems"(1) w show ?thesis by (auto split: outcome.splits)
  next
    case True
    with "3.prems"(1) w have wc: "walk_children root ts s1 = (s', res)" by simp
    have "fresh_for s1 (concat (map regulars ts))" using fresh_after [OF _ n1] "3.prems"(3) by simp
    moreover have "snap_ok s1" using n1 by (simp add: names_from_def)
    ultimately show ?thesis
      using "3.IH"(2) [OF w [symmetric] True wc] names_from_trans [OF n1] by simp
  qed
qed

text \<open>C34. An observation is sound and consistent: every path of the snapshot is that of a regular file
  of the tree, under the identity the file has.\<close>

theorem observe_tree_sound:
  assumes "distinct (map fst (regulars t))" and "observe_tree root t = Inr s"
  shows "snap_ok s \<and> (\<forall>p oid. get (snPaths s) p = Some oid \<longrightarrow>
    (\<exists>m. (p, m) \<in> set (regulars t) \<and> mdID m = oid))"
proof -
  let ?s = "empty_snapshot\<lparr> snRoot := clean root \<rparr>"
  obtain s0 res where w: "walk (clean root) t ?s = (s0, res)" by force
  from assms(2) w have s: "s = sort_object_paths s0"
    by (auto simp: observe_tree_def Let_def split: outcome.splits)
  have e: "snPaths ?s = []" by (simp add: empty_snapshot_def)
  then have "fresh_for ?s (regulars t)" using assms(1) by (simp add: fresh_for_def named_def)
  from walk_names(1) [OF w _ this] have n: "names_from ?s s0 (regulars t)" by simp
  with e s show ?thesis by (auto simp: names_from_def sort_object_paths_ok)
qed

text \<open>The shared namespace is the longest common prefix of the two paths, if it is not the root.\<close>

lemma lcp_snoc:
  "longest_common_prefix (xs @ [x]) ys =
     (if prefix (xs @ [x]) ys then xs @ [x] else longest_common_prefix xs ys)"
proof (induction xs arbitrary: ys)
  case Nil
  then show ?case by (cases ys) simp_all
next
  case (Cons a xs)
  then show ?case by (cases ys) simp_all
qed

lemma find_map_option: "find P (map f xs) = map_option f (find (\<lambda>x. P (f x)) xs)"
  by (induction xs) simp_all

lemma find_longest_prefix:
  "find (\<lambda>ds. prefix ds ys) (rev (prefixes xs)) = Some (longest_common_prefix xs ys)"
proof (induction xs rule: rev_induct)
  case Nil
  then show ?case by simp
next
  case (snoc x xs)
  then show ?case by (simp add: prefixes_snoc lcp_snoc)
qed

lemma render_root_iff: "\<forall>c \<in> set cs. proper c \<Longrightarrow> render True cs = ''/'' \<longleftrightarrow> cs = []"
  using render_inj [of cs "[]"] by (auto simp: render_def)

text \<open>The shared namespace of two roots is their longest common directory, and it is refused just
  in case that is the root of the filesystem.\<close>

theorem common_root_lcp:
  assumes "is_abs first" and "is_abs second"
  shows "common_namespace_root cwd first second =
    (let q = longest_common_prefix (comps first) (comps second)
     in if q = [] then Inl FilesystemRootOnly else Inr (render True q))"
proof -
  have pr: "\<forall>c \<in> set (comps first). proper c" using comps_abs_proper [OF assms(1)] by blast
  have a: "clean (abs_path cwd first) = clean first" "clean (abs_path cwd second) = clean second"
    using assms by (simp_all add: abs_path_def)
  let ?q = "longest_common_prefix (comps first) (comps second)"
  have within_iff: "within (render True ds) (clean second) \<longleftrightarrow> prefix ds (comps second)"
    if "prefix ds (comps first)" for ds
  proof -
    have "\<forall>c \<in> set ds. proper c" using that pr set_mono_prefix by blast
    then have n: "normal True ds" by (auto simp: normal_def intro: exI [of _ 0])
    from within_abs [of "render True ds" "clean second"] is_abs_render [OF n] comps_render [OF n] assms(2)
    show ?thesis by simp
  qed
  have "find (\<lambda>current. within current (clean second)) (ancestors (clean first)) =
    map_option (render True) (find (\<lambda>ds. within (render True ds) (clean second)) (rev (prefixes (comps first))))"
    using ancestors_render [OF pr] by (simp add: clean_abs_render [OF assms(1)] find_map_option)
  also have "find (\<lambda>ds. within (render True ds) (clean second)) (rev (prefixes (comps first))) =
    find (\<lambda>ds. prefix ds (comps second)) (rev (prefixes (comps first)))"
    using within_iff by (intro find_cong) auto
  finally have f: "find (\<lambda>current. within current (clean second)) (ancestors (clean first)) =
    Some (render True ?q)" unfolding find_longest_prefix by simp
  have "\<forall>c \<in> set ?q. proper c"
    using pr longest_common_prefix_prefix1 [of "comps first" "comps second"] set_mono_prefix by blast
  then have "render True ?q = ''/'' \<longleftrightarrow> ?q = []" by (rule render_root_iff)
  with f a show ?thesis by (simp add: common_namespace_root_def Let_def)
qed

section \<open>Instances\<close>

definition sample_meta :: "nat \<Rightarrow> file_kind \<Rightarrow> Metadata" where
  "sample_meta inode kind =
     \<lparr> mdID = \<lparr> oidDevice = 1, oidInode = inode \<rparr>, mdSize = 1, mdKind = kind, mdNLink = 1 \<rparr>"

definition sample_visit :: "string \<Rightarrow> nat \<Rightarrow> file_kind \<Rightarrow> visit" where
  "sample_visit path inode kind =
     \<lparr> vPath = path, vWalkErr = None, vEntryDir = (kind = Directory), vEntrySymlink = False,
       vInfo = Inr (Some (sample_meta inode kind), kind) \<rparr>"

definition sample_tree :: ftree where
  "sample_tree = FTree (sample_visit ''/m'' 1 Directory) None
     [FTree (sample_visit ''/m/a.mkv'' 2 Regular) None []]"

definition sample_snapshot :: Snapshot where
  "sample_snapshot = add_regular ''/m/a.mkv'' (sample_meta 2 Regular) empty_snapshot"

lemma project_subtrees_witness:
  "get (project_subtrees sample_snapshot [(''k'', ''/m''), (''l'', ''/'')]) ''k'' =
   Some (subtree sample_snapshot ''/m'')"
  by (rule project_subtrees_get)
    (simp_all add: absolute_def sample_snapshot_def add_regular_def empty_snapshot_def named_objects_def
      is_abs_def Let_def)

lemma sample_snapshot_ok: "snap_ok sample_snapshot"
  unfolding sample_snapshot_def by (rule add_regular_ok [OF empty_snapshot_ok]) (simp add: empty_snapshot_def)

lemma subtree_paths_witness:
  "snap_ok (subtree sample_snapshot ''/m'') \<and>
   get (snPaths (subtree sample_snapshot ''/m'')) ''/m/a.mkv'' =
     (if within (clean ''/m'') ''/m/a.mkv'' then get (snPaths sample_snapshot) ''/m/a.mkv'' else None)"
  by (rule subtree_paths [OF sample_snapshot_ok])

lemma sample_regulars: "regulars sample_tree = [(''/m/a.mkv'', sample_meta 2 Regular)]"
  by code_simp

lemma observe_tree_complete_witness:
  "get (snPaths (projr (observe_tree ''/m'' sample_tree))) ''/m/a.mkv'' \<noteq> None"
proof (rule observe_tree_complete)
  show "tree_ok sample_tree" by code_simp
  show "observe_tree ''/m'' sample_tree = Inr (projr (observe_tree ''/m'' sample_tree))" by code_simp
  show "snapshot_complete (projr (observe_tree ''/m'' sample_tree))" by code_simp
  show "(''/m/a.mkv'', sample_meta 2 Regular) \<in> set (regulars sample_tree)" by (simp add: sample_regulars)
qed

lemma observe_tree_sound_witness: "snap_ok (projr (observe_tree ''/m'' sample_tree))"
proof (rule observe_tree_sound [THEN conjunct1])
  show "distinct (map fst (regulars sample_tree))" by (simp add: sample_regulars)
  show "observe_tree ''/m'' sample_tree = Inr (projr (observe_tree ''/m'' sample_tree))" by code_simp
qed

lemma common_root_witness: "common_namespace_root ''/'' ''/a/b'' ''/a/c'' = Inr ''/a''"
proof -
  have "(let q = longest_common_prefix (comps ''/a/b'') (comps ''/a/c'')
     in if q = [] then Inl FilesystemRootOnly else Inr (render True q)) = Inr ''/a''"
    by code_simp
  with common_root_lcp [of "''/a/b''" "''/a/c''" "''/''"] show ?thesis by (simp add: is_abs_def)
qed

end
