(* ===== verification/Catalog.thy ===== *)
theory Catalog
  imports ReleaseFilter Physical
begin

text \<open>
  Package \<open>catalog\<close> (catalog.go): entries and their declarations, the names of the managed
  directories, the validators, and the projection of a parsed episode onto a target season
  through the evidence observed in the declared source folders. Reading and writing the
  declaration files is not part of this theory.
\<close>

section \<open>Entries and declarations\<close>

record SpecialMapping =
  spSource :: string
  spSeason :: int
  spEpisode :: int

record FolderProjection =
  fpSeason :: int
  fpEpisodeOffset :: int

record Declaration =
  decTitle :: string
  decYear :: int
  decSources :: "string list"
  decEnabled :: "bool option"
  decFilters :: Filters
  decSpecials :: "SpecialMapping list"
  decOutputTitle :: string
  decBlacklist :: "string list"
  decMovieClassify :: "(string, string) gomap"
  decFolders :: "(string, FolderProjection) gomap"

record Entry =
  eKey :: string
  eMediaType :: string
  ePath :: string
  eTitle :: string
  eYear :: int
  eSeasons :: "int list"
  eEnabled :: bool
  eSources :: "string list"
  eFilters :: Filters
  eSpecials :: "SpecialMapping list"
  eOutputTitle :: string
  eBlacklist :: "string list"
  eMovieClassify :: "(string, string) gomap"
  eFolderProjections :: "(string, FolderProjection) gomap"
  eDeclarationPath :: string

abbreviation media_series :: string where "media_series \<equiv> ''series''"
abbreviation media_movie :: string where "media_movie \<equiv> ''movie''"

datatype catalog_error =
    UnknownMediaType string | NotOneDirectoryName | InvalidEntryKey string
  | TitleRequired | UnsafeTitle | UnsafeOutputTitle | NotDirectChild string | FolderSeasonRange string
  | SpecialNotRelative nat | SpecialOutside nat | SpecialNumbers nat | SpecialDuplicate string
  | ClassifyPath string | ClassifyValue string

definition no_filters :: Filters where
  "no_filters = \<lparr> fGroups = [], fResolutions = [], fSubtitles = [] \<rparr>"

definition new_initial_declaration :: "string \<Rightarrow> Declaration" where
  "new_initial_declaration canonical_title =
     \<lparr> decTitle = trim_space canonical_title, decYear = 0, decSources = [], decEnabled = None,
       decFilters = no_filters, decSpecials = [], decOutputTitle = [], decBlacklist = [],
       decMovieClassify = [], decFolders = [] \<rparr>"

definition declaration_from_entry :: "Entry \<Rightarrow> Declaration" where
  "declaration_from_entry e =
     \<lparr> decTitle = eTitle e, decYear = eYear e, decSources = eSources e,
       decEnabled = (if eEnabled e then None else Some False), decFilters = eFilters e,
       decSpecials = eSpecials e, decOutputTitle = eOutputTitle e, decBlacklist = eBlacklist e,
       decMovieClassify = eMovieClassify e, decFolders = eFolderProjections e \<rparr>"

section \<open>Names of directories\<close>

definition series_dir_name :: "string \<Rightarrow> int \<Rightarrow> string" where
  "series_dir_name title year =
     trim_space title @ (if year > 0 then '' ('' @ pad0 4 year @ '')'' else [])"

definition output_title :: "Entry \<Rightarrow> string" where
  "output_title w = (if trim_space (eOutputTitle w) \<noteq> [] then trim_space (eOutputTitle w) else eTitle w)"

definition target_path_for_entry :: "string \<Rightarrow> Entry \<Rightarrow> string" where
  "target_path_for_entry library_root w =
     join_path [library_root, series_dir_name (output_title w) (eYear w)]"

definition entry_from_declaration :: "Declaration \<Rightarrow> string \<Rightarrow> string \<Rightarrow> string \<Rightarrow> string \<Rightarrow> Entry" where
  "entry_from_declaration d media_type key declaration_path library_root =
     (let e = \<lparr> eKey = key, eMediaType = media_type, ePath = [], eTitle = decTitle d, eYear = decYear d,
            eSeasons = [], eEnabled = (case decEnabled d of None \<Rightarrow> True | Some b \<Rightarrow> b),
            eSources = decSources d, eFilters = decFilters d, eSpecials = decSpecials d,
            eOutputTitle = decOutputTitle d, eBlacklist = decBlacklist d,
            eMovieClassify = decMovieClassify d, eFolderProjections = decFolders d,
            eDeclarationPath = declaration_path \<rparr>
      in e\<lparr> ePath := target_path_for_entry library_root e \<rparr>)"

text \<open>The lazy pattern \<open>^(.*?)(?: \(([0-9]{4})\))?$\<close>: a year suffix when there is one.\<close>

definition year_suffix :: "string \<Rightarrow> bool" where
  "year_suffix s \<longleftrightarrow>
     length s = 7 \<and> take 2 s = '' ('' \<and> list_all is_digit (take 4 (drop 2 s)) \<and> drop 6 s = '')''"

definition title_year_from_dir_name :: "string \<Rightarrow> string \<times> int" where
  "title_year_from_dir_name name0 =
     (let name = trim_space name0; n = length name - 7
      in if CHR 0x0A \<in> set name then (name, 0)
         else if length name \<ge> 7 \<and> year_suffix (drop n name)
           then (trim_space (take n name), atoi (substr name (n + 2) (n + 6)))
         else (name, 0))"

definition catalog_key :: "string \<Rightarrow> string \<Rightarrow> catalog_error + string" where
  "catalog_key media_type name0 =
     (let name = trim_space name0
      in if media_type \<noteq> media_series \<and> media_type \<noteq> media_movie then Inl (UnknownMediaType media_type)
         else if name = [] \<or> name = ''.'' \<or> name = ''..'' \<or> base name \<noteq> name \<or>
                 CHR ''/'' \<in> set name \<or> CHR 0x5C \<in> set name then Inl NotOneDirectoryName
         else Inr (media_type @ ''/'' @ name))"

definition split_key :: "string \<Rightarrow> catalog_error + string \<times> string" where
  "split_key key =
     (case index_byte key CHR ''/'' of
        None \<Rightarrow> Inl (InvalidEntryKey key)
      | Some i \<Rightarrow>
          let media_type = take i key; name = drop (Suc i) key
          in case catalog_key media_type name of
               Inl e \<Rightarrow> Inl e | Inr _ \<Rightarrow> Inr (media_type, name))"

section \<open>Validators\<close>

definition contains_any :: "string \<Rightarrow> string \<Rightarrow> bool" where
  "contains_any s cs \<longleftrightarrow> list_ex (\<lambda>c. c \<in> set cs) s"

definition validate_directory_title :: "string \<Rightarrow> catalog_error option" where
  "validate_directory_title title0 =
     (let title = trim_space title0
      in if title = [] then Some TitleRequired
         else if title = ''.'' \<or> title = ''..'' \<or> is_abs title \<or> base title \<noteq> title \<or>
                 contains_any title [CHR 0x00, CHR 0x0D, CHR 0x0A, CHR 0x09]
           then Some UnsafeTitle
         else None)"

definition validate_output :: "string \<Rightarrow> catalog_error option" where
  "validate_output title0 =
     (let title = trim_space title0
      in if title \<noteq> [] \<and>
            (title = ''.'' \<or> title = ''..'' \<or> base title \<noteq> title \<or>
             contains_any title (''<>:'' @ [CHR 0x22, CHR 0x5C] @ ''|?*'' @ [CHR 0x0D, CHR 0x0A, CHR 0x09]))
         then Some UnsafeOutputTitle else None)"

fun validate_folder_projections :: "(string, FolderProjection) gomap \<Rightarrow> catalog_error option" where
  "validate_folder_projections [] = None"
| "validate_folder_projections ((name, rule) # rest) =
     (if trim_space name = [] \<or> name = ''.'' \<or> name = ''..'' \<or> base name \<noteq> name
        then Some (NotDirectChild name)
      else if fpSeason rule < 0 \<or> fpSeason rule > 99 then Some (FolderSeasonRange name)
      else validate_folder_projections rest)"

fun validate_specials_loop :: "nat \<Rightarrow> string list \<Rightarrow> SpecialMapping list \<Rightarrow> catalog_error option" where
  "validate_specials_loop i seen [] = None"
| "validate_specials_loop i seen (v # vs) =
     (let source = trim_space (spSource v); cl = clean source; key = to_lower cl
      in if source = [] \<or> source = ''.'' \<or> source = ''..'' \<or> is_abs source then Some (SpecialNotRelative i)
         else if escapes_up cl then Some (SpecialOutside i)
         else if spSeason v < 0 \<or> spSeason v > 99 \<or> spEpisode v \<le> 0 then Some (SpecialNumbers i)
         else if key \<in> set seen then Some (SpecialDuplicate (spSource v))
         else validate_specials_loop (Suc i) (key # seen) vs)"

definition validate_special_mappings :: "SpecialMapping list \<Rightarrow> catalog_error option" where
  "validate_special_mappings values = validate_specials_loop 0 [] values"

definition classify_values :: "string list" where
  "classify_values = [''version'', ''extra'', ''trailer'', ''interview'', ''featurette'',
     ''deleted_scene'', ''behind_the_scenes'', ''exclude'', ''auto'']"

fun validate_movie_declaration :: "(string, string) gomap \<Rightarrow> catalog_error option" where
  "validate_movie_declaration [] = None"
| "validate_movie_declaration ((path, kind) # rest) =
     (let cl = clean path
      in if path = [] \<or> cl = ''.'' \<or> escapes_up cl \<or> is_abs path then Some (ClassifyPath path)
         else if to_lower (trim_space kind) \<notin> set classify_values then Some (ClassifyValue path)
         else validate_movie_declaration rest)"

text \<open>
  \<open>glob pattern name\<close> is \<open>filepath.Match\<close>: whether the pattern matches, or none when the
  pattern is malformed.
\<close>

type_synonym globber = "string \<Rightarrow> string \<Rightarrow> bool option"

datatype blacklist_error = EmptyPattern nat | BadPattern nat

fun validate_blacklist :: "globber \<Rightarrow> nat \<Rightarrow> string list \<Rightarrow> blacklist_error option" where
  "validate_blacklist glob i [] = None"
| "validate_blacklist glob i (p # ps) =
     (if trim_space p = [] then Some (EmptyPattern i)
      else if glob (to_lower p) ''probe'' = None then Some (BadPattern i)
      else validate_blacklist glob (Suc i) ps)"

definition blacklist_match :: "globber \<Rightarrow> string list \<Rightarrow> string \<Rightarrow> string \<Rightarrow> string option" where
  "blacklist_match glob patterns basename relative =
     (let values = to_lower (base basename) # (if relative \<noteq> [] then [to_lower relative] else [])
      in find (\<lambda>p. list_ex (\<lambda>v. glob (to_lower p) v = Some True) values) patterns)"

datatype prepare_error =
    CatalogError catalog_error | FilterError filter_error | BlacklistError blacklist_error

definition check :: "'e option \<Rightarrow> ('e \<Rightarrow> prepare_error) \<Rightarrow> prepare_error + 'a \<Rightarrow> prepare_error + 'a" where
  "check e wrap k = (case e of Some x \<Rightarrow> Inl (wrap x) | None \<Rightarrow> k)"

definition prepare_declaration :: "globber \<Rightarrow> Declaration \<Rightarrow> prepare_error + Declaration" where
  "prepare_declaration glob s =
     (let classify = filter (\<lambda>(_, kind). to_lower (trim_space kind) \<noteq> ''auto'') (decMovieClassify s)
      in check (validate_directory_title (decTitle s)) CatalogError
        (check (validate_filters (decFilters s)) FilterError
        (check (validate_special_mappings (decSpecials s)) CatalogError
        (check (validate_output (decOutputTitle s)) CatalogError
        (check (validate_blacklist glob 0 (decBlacklist s)) BlacklistError
        (check (validate_movie_declaration classify) CatalogError
        (check (validate_folder_projections (decFolders s)) CatalogError
           (Inr (s\<lparr> decFilters := normalize_filters (decFilters s), decMovieClassify := classify \<rparr>)))))))))"

section \<open>Keys and names are read back\<close>

lemma index_byte_append: "c \<notin> set m \<Longrightarrow> index_byte (m @ c # n) c = Some (length m)"
proof -
  assume "c \<notin> set m"
  then have "takeWhile (\<lambda>d. d \<noteq> c) (m @ c # n) = m" by (subst takeWhile_append2) auto
  then show ?thesis by (simp add: index_byte_def Let_def)
qed

text \<open>An entry key is read back as its media type and trimmed directory name.\<close>

theorem catalog_key_split:
  assumes "catalog_key m n = Inr k"
  shows "split_key k = Inr (m, trim_space n)"
proof -
  from assms have k: "k = m @ CHR ''/'' # trim_space n" and m: "m = media_series \<or> m = media_movie"
    by (auto simp: catalog_key_def Let_def split: if_splits)
  have "CHR ''/'' \<notin> set m" using m by auto
  then have i: "index_byte k CHR ''/'' = Some (length m)" unfolding k by (rule index_byte_append)
  have "catalog_key m (trim_space n) = Inr k" using assms by (simp add: catalog_key_def)
  with i k show ?thesis by (simp add: split_key_def)
qed

lemma base_no_slash:
  assumes "base p = p" and "p \<noteq> ''/''"
  shows "CHR ''/'' \<notin> set p"
proof
  assume s: "CHR ''/'' \<in> set p"
  let ?q = "rev (dropWhile (\<lambda>c. c = CHR ''/'') (rev p))"
  have ne: "p \<noteq> []" using s by auto
  show False
  proof (cases "?q = []")
    case True
    with ne assms show False by (simp add: base_def Let_def)
  next
    case False
    have "base p = rev (takeWhile (\<lambda>c. c \<noteq> CHR ''/'') (rev ?q))"
      unfolding base_def Let_def if_not_P [OF ne] if_not_P [OF False] ..
    then have "CHR ''/'' \<notin> set (base p)" by (auto dest: set_takeWhileD)
    with assms(1) s show False by simp
  qed
qed

lemma pad0_4:
  assumes "0 < y" and "y \<le> 9999"
  shows "length (pad0 4 y) = 4 \<and> list_all is_digit (pad0 4 y) \<and> atoi (pad0 4 y) = y"
proof -
  have nat: "nat \<bar>y\<bar> < 10 ^ 4" using assms by simp
  have len: "length (show_nat n) \<le> k" if "n < 10 ^ k" "0 < k" for n k
    using that
  proof (induction k arbitrary: n)
    case (Suc k)
    show ?case
    proof (cases "n < 10")
      case True
      then show ?thesis by (subst show_nat.simps) simp
    next
      case False
      then have "n div 10 < 10 ^ k" "0 < k" using Suc.prems by (cases k; simp add: less_mult_imp_div_less)+
      with Suc.IH [of "n div 10"] False show ?thesis by (subst show_nat.simps) simp
    qed
  qed simp
  have d: "list_all is_digit (pad0 4 y)"
    using show_nat_digits [of "nat \<bar>y\<bar>"] assms by (auto simp: pad0_def Let_def list_all_iff)
  have "length (show_nat (nat \<bar>y\<bar>)) \<le> 4" using len [OF nat] by simp
  then have l: "length (pad0 4 y) = 4" using assms by (simp add: pad0_def Let_def)
  obtain c cs where c: "pad0 4 y = c # cs" using l by (cases "pad0 4 y") auto
  have "c \<noteq> CHR ''-''" "c \<noteq> CHR ''+''" using d c by (auto simp: is_digit_def Let_def)
  moreover have "read_digits (pad0 4 y) = nat y"
    using assms by (simp add: pad0_def Let_def read_digits_zeros read_show_nat)
  ultimately have "atoi (pad0 4 y) = y"
    using d c assms by (simp add: atoi_def atoi_full_def Let_def max_int_def)
  with d l show ?thesis by simp
qed

lemma strip_any_shorter: "length (strip_any ws s) \<le> length s"
  using strip_any_suffix [of ws s] by (rule suffix_length_le)

lemma strip_any_id_iff:
  "strip_any ws s = s \<longleftrightarrow> find (\<lambda>w. w \<noteq> [] \<and> prefix w s) ws = None"
proof
  assume eq: "strip_any ws s = s"
  show "find (\<lambda>w. w \<noteq> [] \<and> prefix w s) ws = None"
    using strip_any_none [of ws s] unfolding eq .
qed (rule strip_any_fix)

lemma trim_space_id:
  assumes "trim_space s = s"
  shows "\<forall>w \<in> set utf8_spaces. w \<noteq> [] \<longrightarrow> \<not> prefix w s"
proof -
  let ?l = "strip_any utf8_spaces s"
  have "length s \<le> length ?l"
    using assms strip_any_shorter [of "map rev utf8_spaces" "rev ?l"]
    unfolding trim_space_def by (metis length_rev)
  moreover obtain zs where "s = zs @ ?l"
    using strip_any_suffix [of utf8_spaces s] by (auto simp: suffix_def)
  ultimately have "zs = []" by (metis add_le_same_cancel2 length_0_conv length_append le_zero_eq)
  with \<open>s = zs @ ?l\<close> have "?l = s" by simp
  then show ?thesis by (auto simp: strip_any_id_iff find_None_iff)
qed

lemma utf8_space_blank:
  assumes "w \<in> set utf8_spaces" and "CHR '' '' \<in> set w"
  shows "w = '' ''"
proof -
  have "\<forall>w \<in> set utf8_spaces. CHR '' '' \<in> set w \<longrightarrow> w = '' ''"
    by code_simp
  with assms show ?thesis by blast
qed

lemma utf8_space_no_paren: "w \<in> set utf8_spaces \<Longrightarrow> CHR '')'' \<notin> set w"
proof -
  have "\<forall>w \<in> set utf8_spaces. CHR '')'' \<notin> set w" by code_simp
  then show "w \<in> set utf8_spaces \<Longrightarrow> CHR '')'' \<notin> set w" by blast
qed

lemma trim_year_name:
  assumes "trim_space t = t" and "t \<noteq> []"
  shows "trim_space (t @ CHR '' '' # r @ '')'') = t @ CHR '' '' # r @ '')''"
proof -
  let ?s = "t @ CHR '' '' # r @ '')''"
  have "\<not> prefix w ?s" if "w \<in> set utf8_spaces" "w \<noteq> []" for w
  proof
    assume p: "prefix w ?s"
    show False
    proof (cases "length w \<le> length t")
      case True
      with p have "prefix w t" by (auto simp: prefix_def append_eq_append_conv2)
      with trim_space_id [OF assms(1)] that show False by blast
    next
      case False
      with p have "w ! length t = CHR '' ''" by (auto simp: prefix_def nth_append dest!: arg_cong [where f = "\<lambda>s. s ! length t"])
      with False have "CHR '' '' \<in> set w" by (metis not_le nth_mem)
      then have "w = '' ''" using utf8_space_blank that(1) by blast
      with False have "length t = 0" by (cases t) simp_all
      with assms(2) show False by simp
    qed
  qed
  then have l: "strip_any utf8_spaces ?s = ?s" by (intro strip_any_fix) (auto simp: find_None_iff)
  have "\<not> prefix (rev w) (rev ?s)" if "w \<in> set utf8_spaces" "w \<noteq> []" for w
  proof
    assume "prefix (rev w) (rev ?s)"
    then have "hd (rev w) = CHR '')''" using that(2) by (auto simp: prefix_def hd_append dest!: arg_cong [where f = hd])
    then have "CHR '')'' \<in> set w" using that(2) by (metis hd_in_set rev_is_Nil_conv set_rev)
    with utf8_space_no_paren that(1) show False by blast
  qed
  then have "strip_any (map rev utf8_spaces) (rev ?s) = rev ?s"
    by (intro strip_any_fix) (auto simp: find_None_iff)
  with l show ?thesis by (simp add: trim_space_def)
qed

text \<open>The title and year put into a directory name are read back from it.\<close>

theorem dir_name_year:
  assumes "trim_space t = t" and "t \<noteq> []" and "CHR 0x0A \<notin> set t" and "0 < y" and "y \<le> 9999"
  shows "title_year_from_dir_name (series_dir_name t y) = (t, y)"
proof -
  let ?p = "pad0 4 y"
  note p = pad0_4 [OF assms(4,5)]
  have name: "series_dir_name t y = t @ CHR '' '' # (''('' @ ?p) @ '')''"
    using assms(1,4) by (simp add: series_dir_name_def)
  have trim: "trim_space (series_dir_name t y) = t @ '' ('' @ ?p @ '')''"
    unfolding name using trim_year_name [OF assms(1,2), of "''('' @ ?p"] by simp
  have nl: "CHR 0x0A \<notin> set (t @ '' ('' @ ?p @ '')'')"
    using assms(3) p by (auto simp: list_all_iff is_digit_def Let_def)
  have "year_suffix ('' ('' @ ?p @ '')'')"
    using p by (simp add: year_suffix_def numeral_eq_Suc)
  moreover have "substr (t @ '' ('' @ ?p @ '')'') (length t + 2) (length t + 6) = ?p"
    using p by (simp add: substr_def)
  ultimately show ?thesis
    using nl p assms(1) by (simp add: title_year_from_dir_name_def Let_def trim)
qed

section \<open>The managed directory of an Entry\<close>

lemma comps_join_proper:
  assumes "is_abs lib" and "proper name"
  shows "comps (join_path [lib, name]) = comps lib @ [name]" and "is_abs (join_path [lib, name])"
proof -
  have ne: "lib \<noteq> []" "name \<noteq> []" "CHR ''/'' \<notin> set name"
    using assms by (auto simp: is_abs_def proper_def)
  have j: "join_path [lib, name] = clean (lib @ CHR ''/'' # name)"
    using ne by (simp add: join_path_def)
  have abs: "is_abs (lib @ CHR ''/'' # name)" using assms(1) ne by (simp add: is_abs_def)
  have split: "split_on CHR ''/'' (s @ CHR ''/'' # name) = split_on CHR ''/'' s @ [name]" for s
    by (induction s) (auto simp: split_on_atom [OF ne(3)] split: list.splits)
  have step: "clean_comps True stack (cs @ [name]) = clean_comps True stack cs @ [name]" for stack cs
    using assms(2)
    by (induction True stack cs rule: clean_comps.induct) (auto simp: proper_def split: list.splits)
  show "comps (join_path [lib, name]) = comps lib @ [name]"
    using abs assms(1) unfolding j comps_clean by (simp add: comps_def split step)
  show "is_abs (join_path [lib, name])" using abs unfolding j is_abs_clean .
qed

lemma series_dir_name_proper:
  assumes t: "trim_space title = t" and p: "t \<noteq> []" "t \<noteq> ''.''" "t \<noteq> ''..''" "CHR ''/'' \<notin> set t"
  shows "proper (series_dir_name title year)"
proof (cases "year > 0")
  case True
  have "CHR ''/'' \<notin> set (pad0 4 year)" by (rule pad0_no_slash)
  moreover have "length (series_dir_name title year) > 2"
    using True t by (simp add: series_dir_name_def)
  ultimately show ?thesis using True t p by (auto simp: proper_def series_dir_name_def)
next
  case False
  with t p show ?thesis by (simp add: proper_def series_dir_name_def)
qed

text \<open>
  With a validated title and output title the managed directory is a child of the library. The
  one exception: the output title \<open>/\<close>, which \<open>ValidateOutput\<close> lets through.
\<close>

lemma trim_output: "trim_space (output_title w) =
    (if trim_space (eOutputTitle w) \<noteq> [] then trim_space (eOutputTitle w) else trim_space (eTitle w))"
  by (simp add: output_title_def)

lemma validated_title:
  "validate_directory_title t = None \<Longrightarrow>
   trim_space t \<noteq> [] \<and> trim_space t \<noteq> ''.'' \<and> trim_space t \<noteq> ''..'' \<and> CHR ''/'' \<notin> set (trim_space t)"
  using base_no_slash [of "trim_space t"]
  by (cases "trim_space t = ''/''") (auto simp: validate_directory_title_def Let_def split: if_splits)

lemma validated_output:
  "validate_output t = None \<Longrightarrow> trim_space t \<noteq> [] \<Longrightarrow> trim_space t \<noteq> ''/'' \<Longrightarrow>
   trim_space t \<noteq> ''.'' \<and> trim_space t \<noteq> ''..'' \<and> CHR ''/'' \<notin> set (trim_space t)"
  using base_no_slash [of "trim_space t"]
  by (auto simp: validate_output_def Let_def split: if_splits)


section \<open>Instances\<close>

definition sample_entry :: Entry where
  "sample_entry = entry_from_declaration (new_initial_declaration ''A'') media_series ''series/A'' ''/s/A'' ''/l''"

lemma catalog_key_split_witness: "split_key ''series/A B'' = Inr (media_series, ''A B'')"
proof -
  have t: "trim_space ''A B'' = ''A B''" by (simp add: name_values)
  moreover have "base ''A B'' = ''A B''" by code_simp
  ultimately have "catalog_key media_series ''A B'' = Inr ''series/A B''"
    by (simp add: catalog_key_def)
  from catalog_key_split [OF this] show ?thesis unfolding t .
qed

lemma dir_name_year_witness: "title_year_from_dir_name (series_dir_name ''A B'' 2020) = (''A B'', 2020)"
proof (rule dir_name_year)
  show "trim_space ''A B'' = ''A B''" by (simp add: name_values)
qed simp_all

lemma sample_titles:
  "eTitle sample_entry = ''A''" "eOutputTitle sample_entry = []" "eYear sample_entry = 0"
  by (simp_all add: sample_entry_def entry_from_declaration_def new_initial_declaration_def
      name_values)



end
