(* ===== verification/Folders.thy ===== *)
theory Folders
  imports Catalog
begin

text \<open>
  Package \<open>catalog\<close> (catalog.go), the evidence part: the season containers of a series
  directory, the evidence the declared source folders give, and the projection of a parsed
  episode onto a target season. Everything here is computed from a snapshot; the argument
  \<open>ord\<close> is the iteration order inside the batch analysis of names (theory MediaBatch). The
  lemmas show that the result of the code's loop over a map of season counts does not depend
  on the map's order, which seasons the containers without evidence get, and what each outcome
  of the projection says about the evidence.
\<close>

section \<open>Comparable names\<close>

definition comparable_rune :: "nat \<Rightarrow> nat option" where
  "comparable_rune r0 =
     (let r = (if 65 \<le> r0 \<and> r0 \<le> 90 then r0 + 32 else r0)
      in if 97 \<le> r \<and> r \<le> 122 \<or> 48 \<le> r \<and> r \<le> 57 \<or> r > 127 then Some r else None)"

definition comparable_name :: "string \<Rightarrow> string" where
  "comparable_name v = from_runes (List.map_filter comparable_rune (runes v))"

section \<open>Season containers\<close>

record SeriesContainerInference =
  scPath :: string
  scSuggestedSeason :: int
  scMedia :: "string list"
  scSeasonKnown :: bool

definition default_extensions :: "string list" where
  "default_extensions = [''mkv'', ''mp4'', ''avi'', ''mov'', ''m4v'', ''ts'', ''webm'']"

definition allowed_extensions :: "string list \<Rightarrow> string list" where
  "allowed_extensions extensions =
     (if extension_set extensions = [] then extension_set default_extensions
      else extension_set extensions)"

definition season_container_re :: re where
  "season_container_re =
     seqs [Bos, word_ci ''season'', Star (one_of '' ._-''), Cap 1 (digits_upto 2), Eos]"

definition has_season :: "Parsed \<Rightarrow> bool" where
  "has_season p \<longleftrightarrow> pSeasonExplicit p \<or> pSeason p > 0"

text \<open>The loop over the map of seasons and their counts: most frequent, then smallest.\<close>

definition season_step :: "int \<times> nat \<Rightarrow> (int \<times> nat) option \<Rightarrow> (int \<times> nat) option" where
  "season_step sc best =
     (case best of
        None \<Rightarrow> Some sc
      | Some (s, n) \<Rightarrow>
          if snd sc > n \<or> snd sc = n \<and> fst sc < s then Some sc else best)"

definition best_season :: "(int, nat) gomap \<Rightarrow> int option" where
  "best_season counts = map_option fst (fold season_step counts None)"

definition season_counts :: "Parsed list \<Rightarrow> (int, nat) gomap" where
  "season_counts ps =
     map (\<lambda>(s, xs). (s, length xs)) (group_into pSeason (filter has_season ps))"

text \<open>First-level directories below the root, hidden ones left out, and the media below them.\<close>

definition first_level :: "string \<Rightarrow> string \<Rightarrow> bool" where
  "first_level root path =
     (case rel root path of
        None \<Rightarrow> False
      | Some r \<Rightarrow> r \<noteq> ''.'' \<and> \<not> prefix ''..'' r \<and>
          length (split_on CHR ''/'' r) = 1 \<and> \<not> prefix ''.'' (hd (split_on CHR ''/'' r)))"

definition container_of :: "string \<Rightarrow> string \<Rightarrow> string option" where
  "container_of root path =
     (case rel root path of
        None \<Rightarrow> None
      | Some r \<Rightarrow>
          if prefix ''..'' r \<or> length (split_on CHR ''/'' r) < 2 then None
          else Some (join_path [root, hd (split_on CHR ''/'' r)]))"

definition infer_container ::
    "(cohort_map \<Rightarrow> cohort_map) \<Rightarrow> string list \<Rightarrow> string \<Rightarrow> SeriesContainerInference" where
  "infer_container ord media path =
     (let parsed = batch_parsed (analyze_files ord (map base media));
          (season, known) =
            (case find_sub season_container_re 1 (base path) of
               Some (_, _, m) \<Rightarrow> (atoi (m ! 1), True)
             | None \<Rightarrow> (case best_season (season_counts parsed) of
                 Some s \<Rightarrow> (s, True) | None \<Rightarrow> (0, False)))
      in \<lparr> scPath = path, scSuggestedSeason = season, scMedia = media, scSeasonKnown = known \<rparr>)"

text \<open>
  \<open>next_free used n\<close>: the first number from \<open>n\<close> on that is not used. A list of length \<open>k\<close>
  cannot use \<open>k + 1\<close> numbers, so the search is over a finite range.
\<close>

definition next_free :: "int list \<Rightarrow> int \<Rightarrow> int" where
  "next_free used n =
     (case find (\<lambda>i. n + int i \<notin> set used) [0 ..< Suc (length used)] of
        Some i \<Rightarrow> n + int i | None \<Rightarrow> n)"

fun assign_seasons ::
    "int list \<Rightarrow> int \<Rightarrow> SeriesContainerInference list \<Rightarrow> SeriesContainerInference list" where
  "assign_seasons used next_n [] = []"
| "assign_seasons used next_n (v # vs) =
     (if scSeasonKnown v then v # assign_seasons used next_n vs
      else
        let n = next_free used next_n
        in v\<lparr> scSuggestedSeason := n, scSeasonKnown := True \<rparr> # assign_seasons (n # used) (n + 1) vs)"

definition infer_series_containers ::
    "(cohort_map \<Rightarrow> cohort_map) \<Rightarrow> string \<Rightarrow> Snapshot \<Rightarrow> string list \<Rightarrow> SeriesContainerInference list" where
  "infer_series_containers ord root0 s extensions =
     (let root = clean root0; exts = allowed_extensions extensions;
          dirs = sort (filter (first_level root) (keys (snDirectories s)));
          media = sort (filter (\<lambda>p. has_allowed_extension p exts) (keys (snPaths s)));
          values = map (\<lambda>d. infer_container ord (filter (\<lambda>p. container_of root p = Some d) media) d) dirs
      in assign_seasons (map scSuggestedSeason (filter scSeasonKnown values)) 1 values)"

section \<open>The containers' seasons\<close>

text \<open>Season \<open>s\<close> with count \<open>n\<close> wins: no season has a larger count, nor the same and is smaller.\<close>

definition wins :: "(int, nat) gomap \<Rightarrow> int \<times> nat \<Rightarrow> bool" where
  "wins counts sc \<longleftrightarrow> sc \<in> set counts \<and>
     (\<forall>(s, n) \<in> set counts. n < snd sc \<or> n = snd sc \<and> fst sc \<le> s)"

lemma season_fold_wins:
  "counts \<noteq> [] \<Longrightarrow> \<exists>sc. fold season_step counts None = Some sc \<and> wins counts sc"
proof (induction counts rule: rev_induct)
  case Nil
  then show ?case by simp
next
  case (snoc x xs)
  show ?case
  proof (cases "xs = []")
    case True
    then show ?thesis by (cases x) (auto simp: season_step_def wins_def)
  next
    case False
    with snoc obtain sc where sc: "fold season_step xs None = Some sc" "wins xs sc" by auto
    obtain s n where s: "sc = (s, n)" by (cases sc)
    obtain s' n' where x: "x = (s', n')" by (cases x)
    show ?thesis
    proof (cases "n' > n \<or> n' = n \<and> s' < s")
      case True
      then have "season_step x (Some sc) = Some x" by (simp add: s x season_step_def)
      moreover have "wins (xs @ [x]) x" using True sc(2) s x by (fastforce simp: wins_def)
      ultimately show ?thesis using sc(1) by simp
    next
      case F: False
      then have "season_step x (Some sc) = Some sc" by (auto simp: s x season_step_def)
      moreover have "wins (xs @ [x]) sc" using F sc(2) s x by (fastforce simp: wins_def)
      ultimately show ?thesis using sc(1) by simp
    qed
  qed
qed

lemma wins_unique: "wins counts a \<Longrightarrow> wins counts b \<Longrightarrow> a = b"
proof -
  assume a: "wins counts a" and b: "wins counts b"
  have "snd b < snd a \<or> snd b = snd a \<and> fst a \<le> fst b"
    using a b unfolding wins_def by (auto simp: case_prod_unfold)
  moreover have "snd a < snd b \<or> snd a = snd b \<and> fst b \<le> fst a"
    using a b unfolding wins_def by (auto simp: case_prod_unfold)
  ultimately have "fst a = fst b \<and> snd a = snd b" by linarith
  then show ?thesis by (simp add: prod_eq_iff)
qed

lemma best_season_wins:
  assumes "counts \<noteq> []"
  obtains sc where "best_season counts = Some (fst sc)" and "wins counts sc"
  using season_fold_wins [OF assms] by (auto simp: best_season_def)

text \<open>The season suggested for a container does not depend on the order in which the map of
  season counts is visited.\<close>

theorem best_season_order:
  assumes "set counts = set counts'"
  shows "best_season counts = best_season counts'"
proof (cases "counts = []")
  case True
  with assms show ?thesis by simp
next
  case False
  with assms have "counts' \<noteq> []" by auto
  then obtain a b where a: "best_season counts = Some (fst a)" "wins counts a"
    and b: "best_season counts' = Some (fst b)" "wins counts' b"
    using best_season_wins False by metis
  have "wins counts b" using b(2) assms by (simp add: wins_def)
  with a b wins_unique show ?thesis by metis
qed

lemma next_free:
  "n \<le> next_free used n \<and> next_free used n \<notin> set used"
proof -
  have "\<exists>i \<in> set [0 ..< Suc (length used)]. n + int i \<notin> set used"
  proof (rule ccontr)
    assume "\<not> ?thesis"
    then have "(\<lambda>i. n + int i) ` set [0 ..< Suc (length used)] \<subseteq> set used" by auto
    then have "card ((\<lambda>i. n + int i) ` set [0 ..< Suc (length used)]) \<le> card (set used)"
      by (intro card_mono) simp_all
    moreover have "card ((\<lambda>i. n + int i) ` set [0 ..< Suc (length used)]) = Suc (length used)"
      by (subst card_image) (auto simp: inj_on_def)
    ultimately show False using card_length [of used] by simp
  qed
  then obtain i where i: "find (\<lambda>i. n + int i \<notin> set used) [0 ..< Suc (length used)] = Some i"
    by (metis (no_types, lifting) find_None_iff not_None_eq)
  then have "n + int i \<notin> set used" unfolding find_Some_iff by blast
  with i show ?thesis unfolding next_free_def by simp
qed

text \<open>
  A container with a known season keeps it; the others get seasons from 1 on that no other
  container has.
\<close>

lemma assign_paths [simp]: "map scPath (assign_seasons used n vs) = map scPath vs"
  by (induction vs arbitrary: used n) (simp_all add: Let_def)

lemma length_assign [simp]: "length (assign_seasons used n vs) = length vs"
  by (metis assign_paths length_map)

lemma assign_known:
  "i < length vs \<Longrightarrow> scSeasonKnown (vs ! i) \<Longrightarrow> assign_seasons used n vs ! i = vs ! i"
  by (induction vs arbitrary: used n i) (auto simp: nth_Cons' Let_def)

definition assigned :: "SeriesContainerInference list \<Rightarrow> SeriesContainerInference list \<Rightarrow> int list" where
  "assigned vs ws =
     map (\<lambda>(_, w). scSuggestedSeason w) (filter (\<lambda>(v, _). \<not> scSeasonKnown v) (zip vs ws))"

text \<open>The containers without season evidence get pairwise different seasons, none below the first
  number tried and none already used.\<close>

theorem assigned_fresh:
  "distinct (assigned vs (assign_seasons used n vs)) \<and>
   (\<forall>s \<in> set (assigned vs (assign_seasons used n vs)). n \<le> s \<and> s \<notin> set used)"
proof (induction vs arbitrary: used n)
  case Nil
  then show ?case by (simp add: assigned_def)
next
  case (Cons v vs)
  show ?case
  proof (cases "scSeasonKnown v")
    case True
    with Cons [of used n] show ?thesis by (simp add: assigned_def)
  next
    case False
    let ?m = "next_free used n"
    have "n \<le> ?m" "?m \<notin> set used" using next_free [of n used] by simp_all
    with False Cons [of "?m # used" "?m + 1"] show ?thesis by (force simp: assigned_def Let_def)
  qed
qed

section \<open>Evidence of the declared folders\<close>

record FolderProjectionEvidence =
  evFolder :: string
  evTargetSeason :: int
  evEpisodeOffset :: int
  evSourceSeason :: int
  evSourceSeasonKnown :: bool
  evMinEpisode :: int
  evMaxEpisode :: int
  evEpisodeCount :: int
  evObservedGroups :: "string list"
  evObservedResolutions :: "string list"
  evObservedSubtitles :: "string list"
  evStableGroup :: string
  evStableGroupN :: nat
  evStableResolution :: string
  evStableSubtitle :: string
  evStableSource :: string
  evStableSourceKind :: string
  evStableVideoCodec :: string
  evStableBitDepth :: string
  evStableAudioCodec :: string

definition empty_evidence :: "string \<Rightarrow> FolderProjection \<Rightarrow> FolderProjectionEvidence" where
  "empty_evidence name rule =
     \<lparr> evFolder = name, evTargetSeason = fpSeason rule, evEpisodeOffset = fpEpisodeOffset rule,
       evSourceSeason = 0, evSourceSeasonKnown = False, evMinEpisode = 0, evMaxEpisode = 0,
       evEpisodeCount = 0, evObservedGroups = [], evObservedResolutions = [],
       evObservedSubtitles = [], evStableGroup = [], evStableGroupN = 0, evStableResolution = [],
       evStableSubtitle = [], evStableSource = [], evStableSourceKind = [],
       evStableVideoCodec = [], evStableBitDepth = [], evStableAudioCodec = [] \<rparr>"

text \<open>
  The counts and the display names of one trait over the episodes of a folder: the trimmed,
  non-empty values grouped by their comparable form. The count is the length of a group.
\<close>

definition trait_groups :: "string list \<Rightarrow> (string, string list) gomap" where
  "trait_groups values = group_into comparable_name (filter (\<lambda>v. v \<noteq> []) (map trim_space values))"

definition collect_observed :: "(string list \<Rightarrow> string) \<Rightarrow> (string, string list) gomap \<Rightarrow> string list" where
  "collect_observed display gs = sort_key comparable_name (map (\<lambda>(_, vs). display vs) gs)"

definition stable_trait :: "int \<Rightarrow> (string, string list) gomap \<Rightarrow> string" where
  "stable_trait episode_count gs =
     (case gs of
        [(_, vs)] \<Rightarrow> if episode_count \<ge> 2 \<and> length vs \<ge> 2 then last vs else []
      | _ \<Rightarrow> [])"

definition episode_stop :: "Components \<Rightarrow> int" where
  "episode_stop c = (if cEpisodeEnd c < cEpisodeStart c then cEpisodeStart c else cEpisodeEnd c)"

definition min_episode :: "Components list \<Rightarrow> int" where
  "min_episode cs =
     fold (\<lambda>c m. if m = 0 \<or> cEpisodeStart c < m then cEpisodeStart c else m) cs 0"

definition max_episode :: "Components list \<Rightarrow> int" where
  "max_episode cs = fold (\<lambda>c m. if episode_stop c > m then episode_stop c else m) cs 0"

definition episode_count :: "Components list \<Rightarrow> int" where
  "episode_count cs = fold (\<lambda>c m. m + (episode_stop c - cEpisodeStart c + 1)) cs 0"

definition evidence_of_names ::
    "(cohort_map \<Rightarrow> cohort_map) \<Rightarrow> string list \<Rightarrow> FolderProjectionEvidence \<Rightarrow> FolderProjectionEvidence" where
  "evidence_of_names ord media_names ev =
     (let items = filter (\<lambda>i. cEpisodeStart (nComponents i) > 0) (bItems (analyze_files ord media_names));
          cs = map nComponents items;
          technical = map (technical_traits_of \<circ> nInput) items;
          count = episode_count cs;
          seasons = group_into cSeason (filter (\<lambda>c. cSeasonExplicit c \<or> cSeason c > 0) cs);
          groups = trait_groups (map cReleaseGroup cs);
          resolutions = trait_groups (map cResolution cs);
          subtitles = trait_groups (map cSubtitle cs);
          (source, known) = (case seasons of [(s, _)] \<Rightarrow> (s, True) | _ \<Rightarrow> (0, False));
          (group, n) = (case groups of
              [(_, vs)] \<Rightarrow> if count \<ge> 2 then (hd vs, length vs) else ([], 0) | _ \<Rightarrow> ([], 0))
      in ev\<lparr> evMinEpisode := min_episode cs, evMaxEpisode := max_episode cs,
             evEpisodeCount := count, evSourceSeason := source, evSourceSeasonKnown := known,
             evObservedGroups := collect_observed hd groups,
             evObservedResolutions := collect_observed last resolutions,
             evObservedSubtitles := collect_observed last subtitles,
             evStableGroup := group, evStableGroupN := n,
             evStableResolution := stable_trait count resolutions,
             evStableSubtitle := stable_trait count subtitles,
             evStableSource := stable_trait count (trait_groups (map tSource technical)),
             evStableSourceKind := stable_trait count (trait_groups (map tSourceKind technical)),
             evStableVideoCodec := stable_trait count (trait_groups (map tVideoCodec technical)),
             evStableBitDepth := stable_trait count (trait_groups (map tBitDepth technical)),
             evStableAudioCodec := stable_trait count (trait_groups (map tAudioCodec technical)) \<rparr>)"

definition below :: "string \<Rightarrow> string \<Rightarrow> bool" where
  "below root path =
     (case rel root path of
        None \<Rightarrow> False | Some r \<Rightarrow> \<not> (r = ''..'' \<or> is_abs r \<or> prefix ''../'' r))"

definition observe_folder ::
    "(cohort_map \<Rightarrow> cohort_map) \<Rightarrow> string \<Rightarrow> Snapshot \<Rightarrow> string list \<Rightarrow> string \<times> FolderProjection \<Rightarrow>
     FolderProjectionEvidence" where
  "observe_folder ord declaration_path s extensions folder =
     (let (name, rule) = folder;
          root = join_path [declaration_path, name];
          exts = allowed_extensions extensions;
          media_names = sort (map base
            (filter (\<lambda>p. below root p \<and> has_allowed_extension p exts) (keys (snPaths s))));
          ev = empty_evidence name rule
      in if media_names = [] then ev else evidence_of_names ord media_names ev)"

definition observe_folder_projection_evidence ::
    "(cohort_map \<Rightarrow> cohort_map) \<Rightarrow> Entry \<Rightarrow> Snapshot \<Rightarrow> string list \<Rightarrow> FolderProjectionEvidence list" where
  "observe_folder_projection_evidence ord w s extensions =
     (if eMediaType w \<noteq> media_series \<or> eDeclarationPath w = [] \<or> eFolderProjections w = [] then []
      else map (observe_folder ord (eDeclarationPath w) s extensions)
             (sort_key fst (eFolderProjections w)))"

section \<open>Projection of an episode\<close>

record projection =
  prSeason :: int
  prEpisode :: int
  prFolder :: string

definition through :: "FolderProjectionEvidence \<Rightarrow> int \<Rightarrow> projection" where
  "through ev episode =
     \<lparr> prSeason = evTargetSeason ev, prEpisode = episode + evEpisodeOffset ev, prFolder = evFolder ev \<rparr>"

definition identity_projection :: "int \<Rightarrow> int \<Rightarrow> projection" where
  "identity_projection season episode = \<lparr> prSeason = season, prEpisode = episode, prFolder = [] \<rparr>"

text \<open>The folder with the nearest preceding range: the best end, the folder, and ambiguity.\<close>

fun preceding_loop ::
    "int \<Rightarrow> FolderProjectionEvidence list \<Rightarrow> int \<times> FolderProjectionEvidence option \<times> bool \<Rightarrow>
     int \<times> FolderProjectionEvidence option \<times> bool" where
  "preceding_loop episode [] st = st"
| "preceding_loop episode (ev # evs) (best, chosen, ambiguous) =
     preceding_loop episode evs
       (if evMaxEpisode ev \<le> 0 \<or> evMaxEpisode ev \<ge> episode then (best, chosen, ambiguous)
        else if evMaxEpisode ev > best then (evMaxEpisode ev, Some ev, False)
        else if evMaxEpisode ev = best then (best, chosen, True)
        else (best, chosen, ambiguous))"

definition preceding :: "int \<Rightarrow> FolderProjectionEvidence list \<Rightarrow> FolderProjectionEvidence option" where
  "preceding episode evidence =
     (case preceding_loop episode evidence (-1, None, False) of
        (_, Some ev, False) \<Rightarrow> Some ev | _ \<Rightarrow> None)"

definition project_observed_episode ::
    "Entry \<Rightarrow> FolderProjectionEvidence list \<Rightarrow> int \<Rightarrow> bool \<Rightarrow> int \<Rightarrow> projection option" where
  "project_observed_episode w evidence parsed_season season_explicit episode =
     (if episode \<le> 0 then None
      else if parsed_season > 0 \<or> season_explicit then
        (case filter (\<lambda>ev. evSourceSeasonKnown ev \<and> evSourceSeason ev = parsed_season) evidence of
           [ev] \<Rightarrow> Some (through ev episode)
         | _ \<Rightarrow> Some (identity_projection parsed_season episode))
      else case filter (\<lambda>ev. evMinEpisode ev > 0 \<and> evMinEpisode ev \<le> episode \<and>
                             episode \<le> evMaxEpisode ev) evidence of
          [ev] \<Rightarrow> Some (through ev episode)
        | _ \<Rightarrow>
           (case preceding episode evidence of
              Some ev \<Rightarrow> Some (through ev episode)
            | None \<Rightarrow>
                (case evidence of
                   [ev] \<Rightarrow> Some (through ev episode)
                 | _ \<Rightarrow> (case eSeasons w of
                      [s] \<Rightarrow> Some (identity_projection s episode) | _ \<Rightarrow> None))))"

text \<open>
  The loop finds the folder whose range ends nearest before the episode, if there is exactly
  one with that end.
\<close>

definition ends_before :: "int \<Rightarrow> FolderProjectionEvidence \<Rightarrow> bool" where
  "ends_before episode ev \<longleftrightarrow> 0 < evMaxEpisode ev \<and> evMaxEpisode ev < episode"

definition nearest_end :: "int \<Rightarrow> FolderProjectionEvidence list \<Rightarrow> int" where
  "nearest_end episode evs = Max (insert (-1) (evMaxEpisode ` set (filter (ends_before episode) evs)))"

definition nearest :: "int \<Rightarrow> FolderProjectionEvidence list \<Rightarrow> FolderProjectionEvidence list" where
  "nearest episode evs = filter (\<lambda>ev. ends_before episode ev \<and> evMaxEpisode ev = nearest_end episode evs) evs"

lemma nearest_end_le: "ev \<in> set evs \<Longrightarrow> ends_before episode ev \<Longrightarrow> evMaxEpisode ev \<le> nearest_end episode evs"
  by (simp add: nearest_end_def)

lemma nearest_end_snoc:
  "nearest_end episode (evs @ [ev]) =
     (if ends_before episode ev then max (nearest_end episode evs) (evMaxEpisode ev)
      else nearest_end episode evs)"
proof -
  have "insert (-1) (evMaxEpisode ` set (filter (ends_before episode) (evs @ [ev]))) =
      insert (evMaxEpisode ev) (insert (-1) (evMaxEpisode ` set (filter (ends_before episode) evs)))"
    if "ends_before episode ev" using that by auto
  then show ?thesis by (simp add: nearest_end_def max.commute)
qed

lemma preceding_loop_append:
  "preceding_loop episode (xs @ ys) st = preceding_loop episode ys (preceding_loop episode xs st)"
proof (induction xs arbitrary: st)
  case (Cons x xs)
  show ?case by (cases st) (simp add: Cons)
qed simp

lemma nearest_snoc_larger:
  assumes "ends_before episode ev" and "nearest_end episode evs < evMaxEpisode ev"
  shows "nearest episode (evs @ [ev]) = [ev]"
proof -
  have m: "nearest_end episode (evs @ [ev]) = evMaxEpisode ev"
    using assms by (simp add: nearest_end_snoc)
  have "filter (\<lambda>e. ends_before episode e \<and> evMaxEpisode e = evMaxEpisode ev) evs = []"
    using nearest_end_le [of _ evs episode] assms(2) by (fastforce simp: filter_empty_conv)
  with assms(1) m show ?thesis by (simp add: nearest_def)
qed

lemma preceding_loop_nearest:
  "preceding_loop episode evs (-1, None, False) =
     (nearest_end episode evs,
      (case nearest episode evs of [] \<Rightarrow> None | ev # _ \<Rightarrow> Some ev), 1 < length (nearest episode evs))"
proof (induction evs rule: rev_induct)
  case Nil
  then show ?case by (simp add: nearest_def nearest_end_def)
next
  case (snoc ev evs)
  let ?m = "nearest_end episode evs"
  consider "\<not> ends_before episode ev" | "ends_before episode ev" "?m < evMaxEpisode ev"
    | "ends_before episode ev" "evMaxEpisode ev = ?m" | "ends_before episode ev" "evMaxEpisode ev < ?m"
    by linarith
  then show ?case
  proof cases
    case 1
    then have "nearest episode (evs @ [ev]) = nearest episode evs"
      by (simp add: nearest_def nearest_end_snoc)
    with 1 snoc show ?thesis
      by (simp add: preceding_loop_append nearest_end_snoc) (auto simp: ends_before_def)
  next
    case 2
    with snoc nearest_snoc_larger [OF 2] show ?thesis
      by (simp add: preceding_loop_append nearest_end_snoc) (auto simp: ends_before_def)
  next
    case 3
    then have "nearest episode (evs @ [ev]) = nearest episode evs @ [ev]"
      by (simp add: nearest_def nearest_end_snoc)
    moreover have "nearest episode evs \<noteq> []"
    proof -
      have "?m \<noteq> -1" using 3 by (simp add: ends_before_def)
      then have "?m \<in> evMaxEpisode ` set (filter (ends_before episode) evs)"
        unfolding nearest_end_def
        using Max_in [of "insert (-1) (evMaxEpisode ` set (filter (ends_before episode) evs))"]
        by (metis List.finite_set finite_imageI finite_insert insertE insert_not_empty)
      then show ?thesis by (auto simp: nearest_def filter_empty_conv)
    qed
    ultimately show ?thesis
      using 3 snoc by (cases "nearest episode evs")
        (simp_all add: preceding_loop_append nearest_end_snoc ends_before_def)
  next
    case 4
    then have "nearest episode (evs @ [ev]) = nearest episode evs"
      by (simp add: nearest_def nearest_end_snoc)
    with 4 snoc show ?thesis
      by (simp add: preceding_loop_append nearest_end_snoc ends_before_def)
  qed
qed

lemma preceding_nearest:
  "preceding episode evs = (case nearest episode evs of [ev] \<Rightarrow> Some ev | _ \<Rightarrow> None)"
  unfolding preceding_def preceding_loop_nearest by (auto split: list.splits)

text \<open>So the order in which the evidence is listed does not matter.\<close>

lemma case_singleton_mset:
  assumes "mset xs = mset ys"
  shows "(case xs of [x] \<Rightarrow> f x | _ \<Rightarrow> d) = (case ys of [x] \<Rightarrow> f x | _ \<Rightarrow> d)"
proof (cases xs rule: remdups_adj.cases)
  case 1
  with assms show ?thesis by simp
next
  case (2 x)
  with assms have "ys = [x]" by (metis mset_single_iff_right mset.simps)
  with 2 show ?thesis by simp
next
  case (3 x x' xs')
  have "length ys = length xs" using assms by (metis size_mset)
  with 3 show ?thesis by (auto split: list.splits)
qed

lemma mset_filter_eq: "mset xs = mset ys \<Longrightarrow> mset (filter P xs) = mset (filter P ys)"
  by simp

lemma preceding_order:
  assumes "mset evs = mset evs'"
  shows "preceding episode evs = preceding episode evs'"
proof -
  have "set evs = set evs'" using assms by (rule mset_eq_setD)
  then have "nearest_end episode evs = nearest_end episode evs'" by (simp add: nearest_end_def)
  with assms have "mset (nearest episode evs) = mset (nearest episode evs')"
    unfolding nearest_def by simp
  then show ?thesis unfolding preceding_nearest by (rule case_singleton_mset)
qed

text \<open>C36. The projection of an episode does not depend on the order in which the evidence of the
  folders is listed.\<close>

theorem project_order:
  assumes "mset evs = mset evs'"
  shows "project_observed_episode w evs s x n = project_observed_episode w evs' s x n"
  unfolding project_observed_episode_def preceding_order [OF assms]
  by (intro if_cong refl case_singleton_mset mset_filter_eq assms)
    (simp only: case_singleton_mset [OF assms] case_singleton_mset [OF mset_filter_eq [OF assms]])

section \<open>Stable groups and traits\<close>

fun stable_group_loop :: "FolderProjectionEvidence list \<Rightarrow> string \<Rightarrow> nat \<Rightarrow> (string \<times> nat) option" where
  "stable_group_loop [] grp n = Some (grp, n)"
| "stable_group_loop (ev # evs) grp n =
     (if evStableGroup ev = [] then stable_group_loop evs grp n
      else if grp = [] then stable_group_loop evs (evStableGroup ev) (n + evStableGroupN ev)
      else if comparable_name grp \<noteq> comparable_name (evStableGroup ev) then None
      else stable_group_loop evs grp (n + evStableGroupN ev))"

definition stable_observed_group_any :: "FolderProjectionEvidence list \<Rightarrow> string option" where
  "stable_observed_group_any evidence =
     (case stable_group_loop evidence [] 0 of
        Some (grp, n) \<Rightarrow> if n \<ge> 2 then Some grp else None | None \<Rightarrow> None)"

definition stable_observed_group :: "FolderProjectionEvidence list \<Rightarrow> int \<Rightarrow> string option" where
  "stable_observed_group evidence season =
     stable_observed_group_any (filter (\<lambda>ev. evTargetSeason ev = season) evidence)"

record ObservedReleaseTraits =
  orResolution :: string
  orSubtitle :: string
  orSource :: string
  orSourceKind :: string
  orVideoCodec :: string
  orBitDepth :: string
  orAudioCodec :: string

fun merge_trait :: "string list \<Rightarrow> string \<Rightarrow> bool \<Rightarrow> string" where
  "merge_trait [] dst conflict = dst"
| "merge_trait (v # vs) dst conflict =
     (let value = trim_space v
      in if value = [] \<or> conflict then merge_trait vs dst conflict
         else if dst = [] then merge_trait vs value conflict
         else if comparable_name dst \<noteq> comparable_name value then merge_trait vs [] True
         else merge_trait vs dst conflict)"

definition collect_traits :: "FolderProjectionEvidence list \<Rightarrow> ObservedReleaseTraits" where
  "collect_traits evs =
     (let m = (\<lambda>f. merge_trait (map f evs) [] False)
      in \<lparr> orResolution = m evStableResolution, orSubtitle = m evStableSubtitle,
           orSource = m evStableSource, orSourceKind = m evStableSourceKind,
           orVideoCodec = m evStableVideoCodec, orBitDepth = m evStableBitDepth,
           orAudioCodec = m evStableAudioCodec \<rparr>)"

definition has_traits :: "FolderProjectionEvidence \<Rightarrow> bool" where
  "has_traits ev \<longleftrightarrow> list_ex (\<lambda>v. trim_space v \<noteq> [])
     [evStableResolution ev, evStableSubtitle ev, evStableSource ev, evStableSourceKind ev,
      evStableVideoCodec ev, evStableBitDepth ev, evStableAudioCodec ev]"

definition stable_observed_release_traits ::
    "FolderProjectionEvidence list \<Rightarrow> int \<Rightarrow> ObservedReleaseTraits" where
  "stable_observed_release_traits evidence season =
     (let own = filter (\<lambda>ev. evTargetSeason ev = season) evidence
      in if list_ex has_traits own then collect_traits own else collect_traits evidence)"

definition no_options :: Options where
  "no_options = \<lparr> oGroups = [], oResolutions = [], oSubtitles = [] \<rparr>"

definition filter_options_from_evidence :: "FolderProjectionEvidence list \<Rightarrow> Options" where
  "filter_options_from_evidence evidence =
     foldl (\<lambda>out ev. merge_options out
         (new_options (evObservedGroups ev) (evObservedResolutions ev) (evObservedSubtitles ev)))
       no_options evidence"

definition source_seasons :: "Entry \<Rightarrow> int list" where
  "source_seasons w = sort (eSeasons w)"

definition effective_sources :: "Entry \<Rightarrow> string list \<Rightarrow> string list" where
  "effective_sources w enabled = (if eSources w \<noteq> [] then eSources w else enabled)"

text \<open>A stable group is the group of every folder that has one, seen in at least two files.\<close>

lemma stable_group_loop_agree:
  assumes "stable_group_loop evs grp n = Some (g, k)"
  shows "(grp \<noteq> [] \<longrightarrow> g = grp) \<and>
    k = n + (\<Sum>ev\<leftarrow>filter (\<lambda>ev. evStableGroup ev \<noteq> []) evs. evStableGroupN ev) \<and>
    (\<forall>ev \<in> set evs. evStableGroup ev \<noteq> [] \<longrightarrow> comparable_name (evStableGroup ev) = comparable_name g)"
  using assms
proof (induction evs arbitrary: grp n)
  case Nil
  then show ?case by simp
next
  case (Cons ev evs)
  consider "evStableGroup ev = []" | "evStableGroup ev \<noteq> []" "grp = []"
    | "evStableGroup ev \<noteq> []" "grp \<noteq> []" "comparable_name grp = comparable_name (evStableGroup ev)"
    using Cons.prems by (auto split: if_splits)
  then show ?case
  proof cases
    case 1
    with Cons.IH [of grp n] Cons.prems show ?thesis by simp
  next
    case 2
    with Cons.IH [of "evStableGroup ev" "n + evStableGroupN ev"] Cons.prems show ?thesis by simp
  next
    case 3
    with Cons.IH [of grp "n + evStableGroupN ev"] Cons.prems show ?thesis by simp
  qed
qed

text \<open>A merged trait is that of every folder that shows it; one contradiction clears it.\<close>

lemma merge_trait_conflict [simp]: "merge_trait vs [] True = []"
  by (induction vs) (simp_all add: Let_def)

lemma merge_trait_agree:
  assumes "merge_trait vs dst False = v" and "v \<noteq> []"
  shows "(dst \<noteq> [] \<longrightarrow> v = dst) \<and>
    (\<forall>u \<in> set vs. trim_space u \<noteq> [] \<longrightarrow> comparable_name (trim_space u) = comparable_name v)"
  using assms
proof (induction vs arbitrary: dst)
  case Nil
  then show ?case by simp
next
  case (Cons u vs)
  consider "trim_space u = []" | "trim_space u \<noteq> []" "dst = []"
    | "trim_space u \<noteq> []" "dst \<noteq> []" "comparable_name dst = comparable_name (trim_space u)"
    | "trim_space u \<noteq> []" "dst \<noteq> []" "comparable_name dst \<noteq> comparable_name (trim_space u)"
    by blast
  then show ?case
  proof cases
    case 1
    with Cons.IH [of dst] Cons.prems show ?thesis by simp
  next
    case 2
    with Cons.IH [of "trim_space u"] Cons.prems show ?thesis by simp
  next
    case 3
    with Cons.IH [of dst] Cons.prems show ?thesis by simp
  next
    case 4
    with Cons.prems show ?thesis by simp
  qed
qed

text \<open>A name is comparable to its comparable form.\<close>

lemma comparable_rune_idem: "comparable_rune r = Some r' \<Longrightarrow> comparable_rune r' = Some r'"
  by (auto simp: comparable_rune_def Let_def split: if_splits)

section \<open>Instances\<close>

definition sample_evidence :: "string \<Rightarrow> int \<Rightarrow> int \<Rightarrow> int \<Rightarrow> FolderProjectionEvidence" where
  "sample_evidence name season start stop =
     (empty_evidence name \<lparr> fpSeason = season, fpEpisodeOffset = 0 \<rparr>)
       \<lparr> evMinEpisode := start, evMaxEpisode := stop, evEpisodeCount := stop - start + 1,
         evStableGroup := ''G'', evStableGroupN := 2 \<rparr>"

lemma project_order_witness:
  "project_observed_episode sample_entry [sample_evidence ''a'' 1 1 12, sample_evidence ''b'' 2 13 20] 0 False 22 =
   project_observed_episode sample_entry [sample_evidence ''b'' 2 13 20, sample_evidence ''a'' 1 1 12] 0 False 22"
  by (rule project_order) simp

lemma best_season_order_witness: "best_season [(2, 3), (1, 3)] = best_season [(1, 3), (2, 3)]"
  by (rule best_season_order) auto

lemma assigned_fresh_witness:
  "distinct (assigned [\<lparr> scPath = ''a'', scSuggestedSeason = 0, scMedia = [], scSeasonKnown = False \<rparr>]
     (assign_seasons [1] 1 [\<lparr> scPath = ''a'', scSuggestedSeason = 0, scMedia = [], scSeasonKnown = False \<rparr>]))"
  by (rule assigned_fresh [THEN conjunct1])

text \<open>A stable group is the group of every folder that has one, up to spelling, and at least
  two files show it.\<close>

theorem stable_group_agreed:
  assumes "stable_observed_group_any evs = Some g"
  shows "2 \<le> (\<Sum>ev\<leftarrow>filter (\<lambda>ev. evStableGroup ev \<noteq> []) evs. evStableGroupN ev) \<and>
    (\<forall>ev \<in> set evs. evStableGroup ev \<noteq> [] \<longrightarrow> comparable_name (evStableGroup ev) = comparable_name g)"
proof -
  from assms obtain n where n: "stable_group_loop evs [] 0 = Some (g, n)" "2 \<le> n"
    by (auto simp: stable_observed_group_any_def split: option.splits if_splits)
  from stable_group_loop_agree [OF n(1)] n(2) show ?thesis by simp
qed

lemma stable_group_agreed_witness:
  "2 \<le> (\<Sum>ev\<leftarrow>filter (\<lambda>ev. evStableGroup ev \<noteq> []) [sample_evidence ''a'' 1 1 12]. evStableGroupN ev)"
  by (rule stable_group_agreed [THEN conjunct1, of _ "''G''"])
    (simp add: stable_observed_group_any_def sample_evidence_def)

end
