(* ===== verification/Inventory.thy ===== *)
theory Inventory
  imports Folders
begin

text \<open>
  Packages \<open>inventory\<close> and \<open>completeness\<close>: which episodes of a series Entry the library holds,
  read off the Entry's snapshot of the library. A media file that contradicts another one makes
  its season unknown instead of present or absent. The theorems show that for a season still
  known after the scan the inventory is exact: an episode is listed just in case a media file
  is read as it, and all those files are one filesystem object. The movie branch of the scan
  (package \<open>moviebundle\<close>) and the scan without a snapshot (a walk of the disk) are not modelled.
\<close>

section \<open>Inventories\<close>

datatype availability = Unknown | Absent | Present

datatype inventory_error =
    ObservationIncomplete string string | SeasonIncomplete string string
  | AmbiguousEpisode string | UnknownSeason string | ConflictingMeaning string string string
  | MultipleObjects string | LibraryUnavailable string | InventoryUnknown

record SeasonInventory =
  siKnown :: bool
  siEpisodes :: "int set"
  siErr :: "inventory_error option"

record EntryInventory =
  eiKnown :: bool
  eiAvailable :: bool
  eiEpisodes :: "string set"
  eiSeasons :: "(int, SeasonInventory) gomap"
  eiErr :: "inventory_error option"

type_synonym inventory = "(string, EntryInventory) gomap"

definition known_season :: "int set \<Rightarrow> SeasonInventory" where
  "known_season eps = \<lparr> siKnown = True, siEpisodes = eps, siErr = None \<rparr>"

definition poisoned_season :: "inventory_error \<Rightarrow> SeasonInventory" where
  "poisoned_season e = \<lparr> siKnown = False, siEpisodes = {}, siErr = Some e \<rparr>"

definition no_season :: SeasonInventory where
  "no_season = \<lparr> siKnown = False, siEpisodes = {}, siErr = None \<rparr>"

section \<open>Scanning one series Entry\<close>

record ObservedMedia =
  omPath :: string
  omName :: string
  omID :: ObjectID
  omHint :: "int option"

definition season_from_path :: "string \<Rightarrow> string \<Rightarrow> (string, int) gomap \<Rightarrow> int option" where
  "season_from_path root path inferred =
     (case rel root (dir path) of
        None \<Rightarrow> None
      | Some r \<Rightarrow>
          let part = hd (split_on CHR ''/'' r)
          in if part \<noteq> ''.'' then get inferred (clean (join_path [root, part])) else None)"

definition container_hints :: "SeriesContainerInference list \<Rightarrow> (string, int) gomap" where
  "container_hints vs = fold (\<lambda>v. put (clean (scPath v)) (scSuggestedSeason v)) vs []"

text \<open>
  The issues of the snapshot: one below a container poisons that season, any other makes the
  whole Entry unknown.
\<close>

fun apply_issues ::
    "string \<Rightarrow> (string, int) gomap \<Rightarrow> Issue list \<Rightarrow> (int, SeasonInventory) gomap \<Rightarrow>
     inventory_error option \<times> (int, SeasonInventory) gomap" where
  "apply_issues root hints [] seasons = (None, seasons)"
| "apply_issues root hints (i # iss) seasons =
     (case season_from_path root (isPath i) hints of
        None \<Rightarrow> (Some (ObservationIncomplete (isPath i) (isErr i)), seasons)
      | Some s \<Rightarrow>
          apply_issues root hints iss
            (put s (poisoned_season (SeasonIncomplete (isPath i) (isErr i))) seasons))"

definition observable_media :: "Snapshot \<Rightarrow> string list \<Rightarrow> string \<Rightarrow> bool" where
  "observable_media s exts path \<longleftrightarrow>
     \<not> is_incomplete_artifact path \<and> has_allowed_extension path exts \<and>
     get (snPaths s) (path @ ''.aria2'') = None \<and>
     (case get (snPaths s) path of
        None \<Rightarrow> False
      | Some oid \<Rightarrow>
          (case get (snObjects s) oid of
             None \<Rightarrow> False | Some obj \<Rightarrow> is_regular (oMeta obj) \<and> mdSize (oMeta obj) > 0))"

definition observed_media :: "string \<Rightarrow> (string, int) gomap \<Rightarrow> string list \<Rightarrow> Snapshot \<Rightarrow> ObservedMedia list" where
  "observed_media root hints exts s =
     map (\<lambda>path. \<lparr> omPath = path, omName = base path, omID = the (get (snPaths s) path),
              omHint = season_from_path root path hints \<rparr>)
       (filter (observable_media s exts) (sort (keys (snPaths s))))"

record scan_state =
  stSeasons :: "(int, SeasonInventory) gomap"
  stEpisodes :: "string set"
  stMeaning :: "(ObjectID, string) gomap"
  stLogical :: "(string, ObjectID) gomap"

definition poison :: "int \<Rightarrow> inventory_error \<Rightarrow> scan_state \<Rightarrow> scan_state" where
  "poison season e st = st\<lparr> stSeasons := put season (poisoned_season e) (stSeasons st) \<rparr>"

definition episode_key :: "string \<Rightarrow> int \<Rightarrow> int \<Rightarrow> string" where
  "episode_key key season n =
     key_logical \<lparr> kEntryKey = key, kSeason = season, kEpisodeStart = n, kEpisodeEnd = n,
       kRevision = 0, kSpecial = (season = 0) \<rparr>"

definition meaning_of :: "int \<Rightarrow> int \<Rightarrow> int \<Rightarrow> string" where
  "meaning_of season start stop =
     ''season='' @ show_int season @ '',episodes='' @ show_int start @ ''-'' @ show_int stop"

text \<open>Claiming the episodes of a range for an object stops at one another object has.\<close>

fun claim_episodes ::
    "string \<Rightarrow> int \<Rightarrow> ObjectID \<Rightarrow> int list \<Rightarrow> (string, ObjectID) gomap \<Rightarrow>
     string option \<times> (string, ObjectID) gomap" where
  "claim_episodes key season oid [] m = (None, m)"
| "claim_episodes key season oid (n # ns) m =
     (let logical = episode_key key season n
      in case get m logical of
           Some previous \<Rightarrow>
             if previous \<noteq> oid then (Some logical, m)
             else claim_episodes key season oid ns (put logical oid m)
         | None \<Rightarrow> claim_episodes key season oid ns (put logical oid m))"

definition add_episodes :: "string \<Rightarrow> int \<Rightarrow> int list \<Rightarrow> scan_state \<Rightarrow> scan_state" where
  "add_episodes key season ns st =
     (let si = get_or no_season (stSeasons st) season
      in if siErr si \<noteq> None then st
         else st\<lparr> stSeasons := put season (known_season (siEpisodes si \<union> set ns)) (stSeasons st),
                  stEpisodes := stEpisodes st \<union> episode_key key season ` set ns \<rparr>)"

definition scan_reading ::
    "string \<Rightarrow> ObservedMedia \<Rightarrow> int \<Rightarrow> int \<Rightarrow> int \<Rightarrow> scan_state \<Rightarrow> scan_state" where
  "scan_reading key media season start stop st =
     (let meaning = meaning_of season start stop;
          previous = get_or meaning (stMeaning st) (omID media);
          st1 = st\<lparr> stMeaning := put (omID media) meaning (stMeaning st) \<rparr>
      in if previous \<noteq> meaning
           then poison season (ConflictingMeaning (omPath media) previous meaning) st
         else
           (case claim_episodes key season (omID media) [start .. stop] (stLogical st1) of
              (Some logical, m) \<Rightarrow> poison season (MultipleObjects logical) (st1\<lparr> stLogical := m \<rparr>)
            | (None, m) \<Rightarrow> add_episodes key season [start .. stop] (st1\<lparr> stLogical := m \<rparr>)))"

fun scan_media ::
    "string \<Rightarrow> (ObservedMedia \<times> Parsed \<times> bool) list \<Rightarrow> scan_state \<Rightarrow> inventory_error + scan_state" where
  "scan_media key [] st = Inr st"
| "scan_media key ((media, p, ok) # rest) st =
     (if \<not> ok \<or> pEpisodeStart p \<le> 0 \<or> pEpisodeEnd p < pEpisodeStart p then
        (case omHint media of
           Some hint \<Rightarrow> scan_media key rest (poison hint (AmbiguousEpisode (omPath media)) st)
         | None \<Rightarrow> Inl (AmbiguousEpisode (omPath media)))
      else if pSeason p < 0 then Inl (UnknownSeason (omPath media))
      else scan_media key rest
             (scan_reading key media (pSeason p) (pEpisodeStart p) (pEpisodeEnd p) st))"

definition read_media ::
    "(cohort_map \<Rightarrow> cohort_map) \<Rightarrow> ObservedMedia list \<Rightarrow> (ObservedMedia \<times> Parsed \<times> bool) list" where
  "read_media ord observed =
     map (\<lambda>(media, name). (media,
            episode_with_season_hint name (case omHint media of Some h \<Rightarrow> h | None \<Rightarrow> -1)))
       (zip observed (bItems (analyze_files ord (map omName observed))))"

definition scan_series ::
    "(cohort_map \<Rightarrow> cohort_map) \<Rightarrow> string \<Rightarrow> Entry \<Rightarrow> Snapshot \<Rightarrow> string list \<Rightarrow> EntryInventory" where
  "scan_series ord key w s extensions =
     (let hints = container_hints (infer_series_containers ord (ePath w) s extensions);
          seasons0 = fold (\<lambda>sn. put sn (known_season {})) (eSeasons w) [];
          (issue, seasons) = apply_issues (ePath w) hints (snIssues s) seasons0;
          observed = observed_media (ePath w) hints (allowed_extensions extensions) s
      in case issue of
           Some e \<Rightarrow> \<lparr> eiKnown = False, eiAvailable = False, eiEpisodes = {}, eiSeasons = seasons,
               eiErr = Some e \<rparr>
         | None \<Rightarrow>
             (case scan_media key (read_media ord observed)
                \<lparr> stSeasons = seasons, stEpisodes = {}, stMeaning = [], stLogical = [] \<rparr> of
                Inl e \<Rightarrow> \<lparr> eiKnown = False, eiAvailable = False, eiEpisodes = {}, eiSeasons = [],
                    eiErr = Some e \<rparr>
              | Inr st \<Rightarrow> \<lparr> eiKnown = True, eiAvailable = False, eiEpisodes = stEpisodes st,
                    eiSeasons = stSeasons st, eiErr = None \<rparr>))"

section \<open>Questions to an inventory\<close>

definition inventory_season :: "inventory \<Rightarrow> string \<Rightarrow> int \<Rightarrow> SeasonInventory" where
  "inventory_season iv key season =
     (case get iv key of
        None \<Rightarrow> no_season
      | Some wi \<Rightarrow>
          if \<not> eiKnown wi then no_season\<lparr> siErr := eiErr wi \<rparr>
          else (case get (eiSeasons wi) season of None \<Rightarrow> known_season {} | Some si \<Rightarrow> si))"

definition availability_of :: "inventory \<Rightarrow> Key \<Rightarrow> availability" where
  "availability_of iv k =
     (let si = inventory_season iv (kEntryKey k) (kSeason k)
      in if \<not> siKnown si then Unknown
         else if list_all (\<lambda>n. n \<in> siEpisodes si) [kEpisodeStart k .. key_end k] then Present
         else Absent)"

definition missing :: "inventory \<Rightarrow> string \<Rightarrow> int \<Rightarrow> int \<Rightarrow> int list \<times> availability" where
  "missing iv key season bound =
     (let si = inventory_season iv key season;
          v = filter (\<lambda>n. n \<notin> siEpisodes si) [1 .. bound]
      in if \<not> siKnown si then ([], Unknown) else if v = [] then (v, Present) else (v, Absent))"

definition require_known :: "inventory \<Rightarrow> inventory_error list" where
  "require_known iv =
     concat (map (\<lambda>(_, wi).
       if \<not> eiKnown wi then [case eiErr wi of Some e \<Rightarrow> e | None \<Rightarrow> InventoryUnknown]
       else concat (map (\<lambda>(_, si).
              if siKnown si then [] else [case siErr si of Some e \<Rightarrow> e | None \<Rightarrow> InventoryUnknown])
            (eiSeasons wi))) iv)"

section \<open>The inventory of a known season is exact\<close>

text \<open>An observed file is read as episode \<open>n\<close> of a season.\<close>

definition reads :: "ObservedMedia \<times> Parsed \<times> bool \<Rightarrow> int \<Rightarrow> int \<Rightarrow> bool" where
  "reads item season n \<longleftrightarrow>
     (case item of (media, p, ok) \<Rightarrow>
        ok \<and> 0 < pEpisodeStart p \<and> pEpisodeStart p \<le> n \<and> n \<le> pEpisodeEnd p \<and>
        pSeason p = season \<and> 0 \<le> season)"

definition poisoned :: "SeasonInventory \<Rightarrow> bool" where
  "poisoned si \<longleftrightarrow> (\<exists>e. si = poisoned_season e)"

definition exact ::
    "string \<Rightarrow> (ObservedMedia \<times> Parsed \<times> bool) set \<Rightarrow> scan_state \<Rightarrow> int \<Rightarrow> int set \<Rightarrow> bool" where
  "exact key items st season eps \<longleftrightarrow>
     eps = {n. \<exists>item \<in> items. reads item season n} \<and>
     (\<forall>item \<in> items. \<forall>n. reads item season n \<longrightarrow>
        get (stLogical st) (episode_key key season n) = Some (omID (fst item)))"

definition season_inv ::
    "string \<Rightarrow> (ObservedMedia \<times> Parsed \<times> bool) set \<Rightarrow> scan_state \<Rightarrow> int \<Rightarrow> bool" where
  "season_inv key items st season \<longleftrightarrow>
     (case get (stSeasons st) season of
        None \<Rightarrow> exact key items st season {}
      | Some si \<Rightarrow> poisoned si \<or> (\<exists>eps. si = known_season eps \<and> exact key items st season eps))"

lemma season_simps [simp]:
  "siErr (known_season eps) = None" "siEpisodes (known_season eps) = eps" "siKnown (known_season eps)"
  "siErr (poisoned_season e) = Some e" "\<not> siKnown (poisoned_season e)" "poisoned (poisoned_season e)"
  "siErr no_season = None" "siEpisodes no_season = {}" "\<not> siKnown no_season"
  by (simp_all add: known_season_def poisoned_season_def no_season_def poisoned_def)

lemma episode_key_inj:
  assumes "episode_key key s n = episode_key key s' n'"
  shows "s = s' \<and> n = n'"
  using logical_inj [OF assms [unfolded episode_key_def]] by simp

lemma claim_episodes_other:
  "claim_episodes key season oid ns m = (r, m') \<Longrightarrow> k \<notin> episode_key key season ` set ns \<Longrightarrow>
   get m' k = get m k"
  by (induction ns arbitrary: m) (auto simp: Let_def split: option.splits if_splits)

lemma claim_episodes_keeps:
  "claim_episodes key season oid ns m = (None, m') \<Longrightarrow> get m k = Some v \<Longrightarrow> get m' k = Some v"
proof (induction ns arbitrary: m)
  case Nil
  then show ?case by simp
next
  case (Cons n ns)
  let ?l = "episode_key key season n"
  have "claim_episodes key season oid ns (put ?l oid m) = (None, m')"
    and "get m ?l = None \<or> get m ?l = Some oid"
    using Cons.prems(1) by (auto simp: Let_def split: option.splits if_splits)
  with Cons.IH [of "put ?l oid m"] Cons.prems(2) show ?case by (cases "k = ?l") auto
qed

lemma claim_episodes_all:
  "claim_episodes key season oid ns m = (None, m') \<Longrightarrow> n \<in> set ns \<Longrightarrow>
   get m' (episode_key key season n) = Some oid"
proof (induction ns arbitrary: m)
  case Nil
  then show ?case by simp
next
  case (Cons n' ns)
  let ?l = "episode_key key season n'"
  have c: "claim_episodes key season oid ns (put ?l oid m) = (None, m')"
    using Cons.prems(1) by (auto simp: Let_def split: option.splits if_splits)
  show ?case
  proof (cases "n = n'")
    case True
    then show ?thesis using claim_episodes_keeps [OF c, of ?l oid] by simp
  next
    case False
    with Cons.prems(2) Cons.IH [OF c] show ?thesis by simp
  qed
qed

text \<open>Nothing a step does to one season disturbs another.\<close>

lemma season_inv_other:
  assumes "season_inv key items st s" and "\<And>n. \<not> reads item s n"
    and "get (stSeasons st') s = get (stSeasons st) s"
    and "\<And>n. get (stLogical st') (episode_key key s n) = get (stLogical st) (episode_key key s n)"
  shows "season_inv key (insert item items) st' s"
proof -
  have "exact key (insert item items) st' s eps = exact key items st s eps" for eps
    using assms(2,4) by (simp add: exact_def)
  with assms(1,3) show ?thesis by (cases "get (stSeasons st) s") (simp_all add: season_inv_def)
qed

lemma season_inv_poison [simp]: "season_inv key items (poison s e st) s"
  by (simp add: season_inv_def poison_def)

lemma poison_other [simp]:
  "s \<noteq> season \<Longrightarrow> get (stSeasons (poison season e st)) s = get (stSeasons st) s"
  "stLogical (poison season e st) = stLogical st"
  by (simp_all add: poison_def)

lemma add_episodes_other [simp]:
  "s \<noteq> season \<Longrightarrow> get (stSeasons (add_episodes key season ns st)) s = get (stSeasons st) s"
  "stLogical (add_episodes key season ns st) = stLogical st"
  by (simp_all add: add_episodes_def Let_def)

lemma season_invI:
  "get (stSeasons st) season = Some (known_season eps) \<Longrightarrow> exact key items st season eps \<Longrightarrow>
   season_inv key items st season"
  unfolding season_inv_def by auto

lemma season_inv_add:
  assumes inv: "season_inv key items st season"
    and reads: "\<And>n. reads item season n \<longleftrightarrow> n \<in> set ns"
    and claim: "claim_episodes key season (omID (fst item)) ns (stLogical st) = (None, m)"
  shows "season_inv key (insert item items) (add_episodes key season ns (st'\<lparr> stSeasons := stSeasons st, stLogical := m \<rparr>)) season"
proof -
  let ?st = "st'\<lparr> stSeasons := stSeasons st, stLogical := m \<rparr>"
  have new: "exact key (insert item items) (add_episodes key season ns ?st) season (eps \<union> set ns)"
    if "exact key items st season eps" for eps
    using that reads claim_episodes_all [OF claim] claim_episodes_keeps [OF claim]
    by (auto simp: exact_def)
  show ?thesis
  proof (cases "get (stSeasons st) season")
    case None
    then have "get (stSeasons (add_episodes key season ns ?st)) season = Some (known_season (set ns))"
      by (simp add: add_episodes_def get_or_def)
    moreover have "exact key items st season {}" using inv None by (simp add: season_inv_def)
    ultimately show ?thesis using new [of "{}"] by (auto intro: season_invI)
  next
    case (Some si)
    with inv consider "poisoned si" | eps where "si = known_season eps" "exact key items st season eps"
      by (auto simp: season_inv_def)
    then show ?thesis
    proof cases
      case 1
      with Some show ?thesis by (auto simp: season_inv_def add_episodes_def get_or_def poisoned_def)
    next
      case 2
      with Some have "get (stSeasons (add_episodes key season ns ?st)) season = Some (known_season (eps \<union> set ns))"
        by (simp add: add_episodes_def get_or_def)
      with new [OF 2(2)] show ?thesis by (auto intro: season_invI)
    qed
  qed
qed

lemma scan_reading_inv:
  assumes inv: "\<forall>s. season_inv key items st s"
    and reads: "\<And>s n. reads item s n \<longleftrightarrow> s = season \<and> start \<le> n \<and> n \<le> stop"
  shows "season_inv key (insert item items) (scan_reading key (fst item) season start stop st) s"
proof -
  let ?st' = "scan_reading key (fst item) season start stop st"
  obtain r m where c: "claim_episodes key season (omID (fst item)) [start .. stop] (stLogical st) = (r, m)"
    by force
  show ?thesis
  proof (cases "s = season")
    case False
    have "episode_key key s n \<notin> episode_key key season ` set [start .. stop]" for n
      using episode_key_inj [of key s n season] False by blast
    with claim_episodes_other [OF c] have l: "get m (episode_key key s n) = get (stLogical st) (episode_key key s n)" for n
      by blast
    show ?thesis
    proof (rule season_inv_other [OF spec [OF inv]])
      show "\<not> reads item s n" for n using reads False by simp
      show "get (stSeasons ?st') s = get (stSeasons st) s"
        using False c by (cases r) (simp_all add: scan_reading_def Let_def)
      show "get (stLogical ?st') (episode_key key s n) = get (stLogical st) (episode_key key s n)" for n
        using c l by (cases r) (simp_all add: scan_reading_def Let_def)
    qed
  next
    case True
    have rd: "reads item season n \<longleftrightarrow> n \<in> set [start .. stop]" for n using reads by auto
    show ?thesis
    proof (cases r)
      case None
      from season_inv_add [OF spec [OF inv] rd c [unfolded None], of "st\<lparr> stMeaning := mm \<rparr>" for mm]
      show ?thesis using c None True by (simp add: scan_reading_def Let_def)
    next
      case (Some l)
      with c True show ?thesis by (simp add: scan_reading_def Let_def)
    qed
  qed
qed

lemma scan_media_inv:
  assumes "\<forall>s. season_inv key items st s" and "scan_media key rest st = Inr st'"
  shows "season_inv key (items \<union> set rest) st' s"
  using assms
proof (induction rest arbitrary: items st s)
  case Nil
  then show ?case by simp
next
  case (Cons item rest)
  obtain media p ok where item: "item = (media, p, ok)" by (cases item)
  let ?bad = "\<not> ok \<or> pEpisodeStart p \<le> 0 \<or> pEpisodeEnd p < pEpisodeStart p"
  have "\<exists>st1. (\<forall>s. season_inv key (insert item items) st1 s) \<and> scan_media key rest st1 = Inr st'"
  proof (cases ?bad)
    case True
    then have none: "\<not> reads item s n" for s n by (auto simp: reads_def item)
    from True Cons.prems(2) item obtain hint where h: "omHint media = Some hint"
      "scan_media key rest (poison hint (AmbiguousEpisode (omPath media)) st) = Inr st'"
      by (auto split: option.splits)
    have "season_inv key (insert item items) (poison hint (AmbiguousEpisode (omPath media)) st) s" for s
      using season_inv_other [OF spec [OF Cons.prems(1)] none, of "poison hint (AmbiguousEpisode (omPath media)) st" s]
      by (cases "s = hint") simp_all
    with h show ?thesis by blast
  next
    case False
    with Cons.prems(2) item have n: "0 \<le> pSeason p" and
      s: "scan_media key rest (scan_reading key (fst item) (pSeason p) (pEpisodeStart p) (pEpisodeEnd p) st) = Inr st'"
      by (auto split: if_splits)
    have "reads item s n \<longleftrightarrow> s = pSeason p \<and> pEpisodeStart p \<le> n \<and> n \<le> pEpisodeEnd p" for s n
      using False n by (auto simp: reads_def item)
    from scan_reading_inv [OF Cons.prems(1) this] s show ?thesis by blast
  qed
  then obtain st1 where st1: "\<forall>s. season_inv key (insert item items) st1 s" "scan_media key rest st1 = Inr st'"
    by blast
  from Cons.IH [OF st1] show ?case by simp
qed

text \<open>The readings of the media files the scan of an Entry observes.\<close>

definition scan_readings ::
    "(cohort_map \<Rightarrow> cohort_map) \<Rightarrow> Entry \<Rightarrow> Snapshot \<Rightarrow> string list \<Rightarrow> (ObservedMedia \<times> Parsed \<times> bool) list" where
  "scan_readings ord w s extensions =
     read_media ord (observed_media (ePath w)
       (container_hints (infer_series_containers ord (ePath w) s extensions))
       (allowed_extensions extensions) s)"

definition unread :: "(int, SeasonInventory) gomap \<Rightarrow> bool" where
  "unread seasons \<longleftrightarrow> (\<forall>s si. get seasons s = Some si \<longrightarrow> poisoned si \<or> si = known_season {})"

lemma unread_declared: "unread seasons \<Longrightarrow> unread (fold (\<lambda>sn. put sn (known_season {})) sns seasons)"
proof (induction sns arbitrary: seasons)
  case (Cons sn sns)
  have "unread (put sn (known_season {}) seasons)" using Cons.prems by (simp add: unread_def)
  with Cons.IH show ?case by simp
qed simp

lemma unread_issues: "unread seasons \<Longrightarrow> apply_issues root hints iss seasons = (e, seasons') \<Longrightarrow> unread seasons'"
proof (induction iss arbitrary: seasons)
  case Nil
  then show ?case by simp
next
  case (Cons i iss)
  have "unread (put s (poisoned_season x) seasons)" for s x using Cons.prems(1) by (auto simp: unread_def)
  with Cons show ?case by (auto split: option.splits)
qed

lemma scan_series_inv:
  assumes "eiKnown (scan_series ord key w s extensions)"
  obtains st where "eiSeasons (scan_series ord key w s extensions) = stSeasons st"
    and "\<forall>season. season_inv key (set (scan_readings ord w s extensions)) st season"
proof -
  let ?hints = "container_hints (infer_series_containers ord (ePath w) s extensions)"
  let ?seasons0 = "fold (\<lambda>sn. put sn (known_season {})) (eSeasons w) []"
  obtain e seasons where i: "apply_issues (ePath w) ?hints (snIssues s) ?seasons0 = (e, seasons)" by force
  let ?st0 = "\<lparr> stSeasons = seasons, stEpisodes = {}, stMeaning = [], stLogical = [] \<rparr>"
  from assms i obtain st where none: "e = None"
    and st: "scan_media key (scan_readings ord w s extensions) ?st0 = Inr st"
    by (auto simp: scan_series_def scan_readings_def Let_def split: option.splits sum.splits)
  have "unread seasons"
    using unread_issues [OF unread_declared i] by (simp add: unread_def)
  then have "\<forall>season. season_inv key {} ?st0 season"
    by (auto simp: season_inv_def exact_def unread_def split: option.splits)
  from scan_media_inv [OF this st] have "\<forall>season. season_inv key (set (scan_readings ord w s extensions)) st season"
    by simp
  moreover have "eiSeasons (scan_series ord key w s extensions) = stSeasons st"
    using i none st by (simp add: scan_series_def scan_readings_def Let_def)
  ultimately show thesis using that by blast
qed

lemma inventory_exact:
  assumes "get iv key = Some (scan_series ord key w s extensions)"
    and "siKnown (inventory_season iv key season)"
  shows "siEpisodes (inventory_season iv key season) =
      {n. \<exists>item \<in> set (scan_readings ord w s extensions). reads item season n} \<and>
    (\<forall>a \<in> set (scan_readings ord w s extensions). \<forall>b \<in> set (scan_readings ord w s extensions).
       \<forall>n. reads a season n \<longrightarrow> reads b season n \<longrightarrow> omID (fst a) = omID (fst b))"
proof -
  let ?wi = "scan_series ord key w s extensions" and ?items = "set (scan_readings ord w s extensions)"
  have known: "eiKnown ?wi" using assms by (auto simp: inventory_season_def split: if_splits)
  obtain st where st: "eiSeasons ?wi = stSeasons st" "\<forall>season. season_inv key ?items st season"
    by (rule scan_series_inv [OF known])
  have "exact key ?items st season (siEpisodes (inventory_season iv key season))"
  proof (cases "get (stSeasons st) season")
    case None
    with st assms(1) known show ?thesis
      using spec [OF st(2), of season] by (simp add: inventory_season_def season_inv_def)
  next
    case (Some si)
    then have si: "inventory_season iv key season = si"
      using st(1) assms(1) known by (simp add: inventory_season_def)
    with assms(2) have "\<not> poisoned si" by (auto simp: poisoned_def)
    with spec [OF st(2), of season] Some si show ?thesis by (auto simp: season_inv_def)
  qed
  then show ?thesis unfolding exact_def by (metis option.inject)
qed

text \<open>C6. An availability other than unknown is exact: an interval is present just in case each of its
  episodes is read off some observed media file.\<close>

theorem availability_exact:
  assumes "get iv (kEntryKey k) = Some (scan_series ord (kEntryKey k) w s extensions)"
    and "availability_of iv k \<noteq> Unknown"
  shows "availability_of iv k = Present \<longleftrightarrow>
    (\<forall>n \<in> {kEpisodeStart k .. key_end k}. \<exists>item \<in> set (scan_readings ord w s extensions). reads item (kSeason k) n)"
proof -
  have known: "siKnown (inventory_season iv (kEntryKey k) (kSeason k))"
    using assms(2) by (auto simp: availability_of_def Let_def split: if_splits)
  have "availability_of iv k = Present \<longleftrightarrow>
      (\<forall>n \<in> {kEpisodeStart k .. key_end k}. n \<in> siEpisodes (inventory_season iv (kEntryKey k) (kSeason k)))"
    using known by (simp add: availability_of_def Let_def list_all_iff)
  with inventory_exact [OF assms(1) known] show ?thesis by simp
qed

section \<open>Completeness\<close>

record EpisodeRange =
  erFrom :: int
  erThrough :: int

definition positive_episodes :: "int set \<Rightarrow> int list" where
  "positive_episodes eps = sorted_list_of_set {n \<in> eps. 0 < n}"

text \<open>The code's loop computes the smallest and the largest positive episode of the map.\<close>

definition internal_gaps :: "inventory \<Rightarrow> string \<Rightarrow> int \<Rightarrow> int list \<times> string" where
  "internal_gaps iv key season =
     (let si = inventory_season iv key season; ps = positive_episodes (siEpisodes si)
      in if \<not> siKnown si then ([], ''unknown'')
         else if ps = [] \<or> hd ps = last ps then ([], ''continuous'')
         else
           let gaps = filter (\<lambda>n. n \<notin> siEpisodes si) [hd ps .. last ps]
           in (gaps, if gaps = [] then ''continuous'' else ''incomplete''))"

definition missing_in_range :: "inventory \<Rightarrow> string \<Rightarrow> int \<Rightarrow> EpisodeRange \<Rightarrow> int list \<times> string" where
  "missing_in_range iv key season r =
     (let si = inventory_season iv key season;
          gaps = filter (\<lambda>n. n \<notin> siEpisodes si) [erFrom r .. erThrough r]
      in if erFrom r \<le> 0 \<or> erThrough r < erFrom r then ([], ''invalid'')
         else if \<not> siKnown si then ([], ''unknown'')
         else (gaps, if gaps = [] then ''complete'' else ''incomplete''))"

definition episode_keys :: "string \<Rightarrow> int \<Rightarrow> int list \<Rightarrow> Key list" where
  "episode_keys key season ns =
     map (\<lambda>n. \<lparr> kEntryKey = key, kSeason = season, kEpisodeStart = n, kEpisodeEnd = n,
            kRevision = 0, kSpecial = (season = 0) \<rparr>) (filter (\<lambda>n. 0 < n) ns)"

lemma gaps_between:
  assumes "finite eps" and "positive_episodes eps \<noteq> []"
  shows "set (filter (\<lambda>n. n \<notin> eps) [hd (positive_episodes eps) .. last (positive_episodes eps)]) =
    {n. n \<notin> eps \<and> (\<exists>a \<in> eps. \<exists>b \<in> eps. 0 < a \<and> a < n \<and> n < b)}"
proof -
  let ?P = "{n \<in> eps. 0 < n}" and ?ps = "positive_episodes eps"
  have fin: "finite ?P" using assms(1) by simp
  have set: "set ?ps = ?P" and sorted: "sorted ?ps" using fin by (simp_all add: positive_episodes_def)
  have lo: "hd ?ps \<in> ?P" and hi: "last ?ps \<in> ?P" using assms(2) set hd_in_set last_in_set by blast+
  have min: "hd ?ps \<le> a" if "a \<in> ?P" for a
  proof -
    have "a \<in> set ?ps" unfolding set using that .
    then obtain i where i: "i < length ?ps" "?ps ! i = a" unfolding in_set_conv_nth by blast
    then have "?ps ! 0 \<le> ?ps ! i" using sorted by (intro sorted_nth_mono) auto
    with i assms(2) show ?thesis by (simp add: hd_conv_nth)
  qed
  have max: "a \<le> last ?ps" if "a \<in> ?P" for a
  proof -
    have "a \<in> set ?ps" unfolding set using that .
    then obtain i where i: "i < length ?ps" "?ps ! i = a" unfolding in_set_conv_nth by blast
    then have "?ps ! i \<le> ?ps ! (length ?ps - 1)" using sorted by (intro sorted_nth_mono) auto
    with i assms(2) show ?thesis by (simp add: last_conv_nth)
  qed
  show ?thesis
  proof (rule set_eqI, rule iffI)
    fix n
    assume "n \<in> set (filter (\<lambda>n. n \<notin> eps) [hd ?ps .. last ?ps])"
    then have n: "n \<notin> eps" "hd ?ps \<le> n" "n \<le> last ?ps" by simp_all
    moreover have "hd ?ps \<noteq> n" "last ?ps \<noteq> n" using n(1) lo hi by auto
    ultimately have "hd ?ps \<in> eps" "last ?ps \<in> eps" "0 < hd ?ps" "hd ?ps < n" "n < last ?ps"
      using lo hi by auto
    with n(1) show "n \<in> {n. n \<notin> eps \<and> (\<exists>a \<in> eps. \<exists>b \<in> eps. 0 < a \<and> a < n \<and> n < b)}"
      by blast
  next
    fix n
    assume "n \<in> {n. n \<notin> eps \<and> (\<exists>a \<in> eps. \<exists>b \<in> eps. 0 < a \<and> a < n \<and> n < b)}"
    then obtain a b where ab: "n \<notin> eps" "a \<in> ?P" "b \<in> ?P" "a < n" "n < b" by fastforce
    with min [OF ab(2)] max [OF ab(3)] show "n \<in> set (filter (\<lambda>n. n \<notin> eps) [hd ?ps .. last ?ps])" by simp
  qed
qed

text \<open>The internal gaps of a known season are the episodes it lacks strictly between two positive
  episodes it has; no missing head or tail is made up.\<close>

theorem gaps_internal:
  assumes "siKnown (inventory_season iv key season)" and "finite (siEpisodes (inventory_season iv key season))"
  shows "set (fst (internal_gaps iv key season)) =
      {n. n \<notin> siEpisodes (inventory_season iv key season) \<and>
        (\<exists>a \<in> siEpisodes (inventory_season iv key season).
         \<exists>b \<in> siEpisodes (inventory_season iv key season). 0 < a \<and> a < n \<and> n < b)}"
proof -
  let ?eps = "siEpisodes (inventory_season iv key season)" and ?ps = "positive_episodes (siEpisodes (inventory_season iv key season))"
  show ?thesis
  proof (cases "?ps = [] \<or> hd ?ps = last ?ps")
    case True
    have P: "set ?ps = {n \<in> ?eps. 0 < n}" using assms(2) by (simp add: positive_episodes_def)
    have none: "\<not> (\<exists>a \<in> ?eps. \<exists>b \<in> ?eps. 0 < a \<and> a < n \<and> n < b)" for n
    proof (cases "?ps = []")
      case True
      with P show ?thesis by auto
    next
      case False
      with True have "hd ?ps = last ?ps" by simp
      moreover have "distinct ?ps" by (simp add: positive_episodes_def)
      ultimately have "?ps = [hd ?ps]"
        using False by (cases ?ps) (auto split: if_splits)
      then have "set ?ps = {hd ?ps}" by (metis empty_set list.simps(15))
      with P have one: "{n \<in> ?eps. 0 < n} = {hd ?ps}" by simp
      show ?thesis
      proof
        assume "\<exists>a \<in> ?eps. \<exists>b \<in> ?eps. 0 < a \<and> a < n \<and> n < b"
        then obtain a b where ab: "a \<in> {n \<in> ?eps. 0 < n}" "b \<in> {n \<in> ?eps. 0 < n}" "a < n" "n < b"
          by force
        then have "a = hd ?ps" "b = hd ?ps" unfolding one by simp_all
        with ab(3,4) show False by simp
      qed
    qed
    with True assms(1) show ?thesis by (simp add: internal_gaps_def Let_def)
  next
    case False
    with assms(1) gaps_between [OF assms(2)] show ?thesis by (simp add: internal_gaps_def Let_def)
  qed
qed

section \<open>Instances\<close>

definition sample_inventory :: inventory where
  "sample_inventory = [(''k'', \<lparr> eiKnown = True, eiAvailable = False, eiEpisodes = {},
     eiSeasons = [(1, known_season {1, 3})], eiErr = None \<rparr>)]"

text \<open>C5. For a season that is known after the scan the inventory is exact: it lists an episode just
  in case an observed media file is read as it, and all the files read as one episode are one
  filesystem object.\<close>

theorem known_season_exact:
  assumes "get iv key = Some (scan_series ord key w s extensions)"
    and "siKnown (inventory_season iv key season)"
  shows "siEpisodes (inventory_season iv key season) =
      {n. \<exists>item \<in> set (scan_readings ord w s extensions). reads item season n} \<and>
    (\<forall>a \<in> set (scan_readings ord w s extensions). \<forall>b \<in> set (scan_readings ord w s extensions).
       \<forall>n. reads a season n \<longrightarrow> reads b season n \<longrightarrow> omID (fst a) = omID (fst b))"
  by (rule inventory_exact [OF assms])

lemma empty_scan: "scan_series ord key (sample_entry\<lparr> eSeasons := [1] \<rparr>) empty_snapshot [] =
    \<lparr> eiKnown = True, eiAvailable = False, eiEpisodes = {}, eiSeasons = [(1, known_season {})], eiErr = None \<rparr>"
  by (simp add: scan_series_def empty_snapshot_def infer_series_containers_def container_hints_def
      observed_media_def read_media_def Let_def sample_entry_def)

lemma known_season_exact_witness:
  "siEpisodes (inventory_season [(''k'', scan_series (\<lambda>m. m) ''k'' (sample_entry\<lparr> eSeasons := [1] \<rparr>) empty_snapshot [])] ''k'' 1) =
     {n. \<exists>item \<in> set (scan_readings (\<lambda>m. m) (sample_entry\<lparr> eSeasons := [1] \<rparr>) empty_snapshot []). reads item 1 n}"
  by (rule known_season_exact [THEN conjunct1]) (simp_all add: inventory_season_def empty_scan)

lemma availability_exact_witness:
  "availability_of [(''k'', scan_series (\<lambda>m. m) ''k'' (sample_entry\<lparr> eSeasons := [1] \<rparr>) empty_snapshot [])]
     \<lparr> kEntryKey = ''k'', kSeason = 1, kEpisodeStart = 1, kEpisodeEnd = 1, kRevision = 0, kSpecial = False \<rparr> \<noteq> Present"
proof -
  let ?k = "\<lparr> kEntryKey = ''k'', kSeason = 1, kEpisodeStart = 1, kEpisodeEnd = 1, kRevision = 0, kSpecial = False \<rparr>"
  let ?w = "sample_entry\<lparr> eSeasons := [1] \<rparr>"
  let ?iv = "[(''k'', scan_series (\<lambda>m. m) ''k'' ?w empty_snapshot [])]"
  have "scan_readings (\<lambda>m. m) ?w empty_snapshot [] = []"
    by (simp add: scan_readings_def read_media_def observed_media_def empty_snapshot_def)
  moreover have "availability_of ?iv ?k \<noteq> Unknown"
    by (simp add: availability_of_def inventory_season_def empty_scan)
  ultimately show ?thesis
    using availability_exact [of ?iv ?k "\<lambda>m. m" ?w empty_snapshot "[]"] by (auto simp: key_end_def)
qed

lemma gaps_internal_witness:
  "set (fst (internal_gaps sample_inventory ''k'' 1)) =
     {n. n \<notin> siEpisodes (inventory_season sample_inventory ''k'' 1) \<and>
        (\<exists>a \<in> siEpisodes (inventory_season sample_inventory ''k'' 1).
         \<exists>b \<in> siEpisodes (inventory_season sample_inventory ''k'' 1). 0 < a \<and> a < n \<and> n < b)}"
  by (rule gaps_internal) (simp_all add: sample_inventory_def inventory_season_def)

end
