(* ===== verification/Naming.thy ===== *)
theory Naming
  imports Inventory
begin

text \<open>
  Package \<open>naming\<close> (evidence.go): the names an Entry goes by, derived from its declaration, the
  managed directories and the media files, and the match of a release title against them. The
  invariant of the table of names is that each row is filed under its own compared title and
  group. The theorems show that the names are pairwise different when compared and that an
  Entry always answers to its configured title.
\<close>

record Evidence =
  nvTitle :: string
  nvGroup :: string
  nvOrigin :: string
  nvRank :: int

record EntryEvidence =
  neNames :: "string list"
  neSearch :: "Evidence list"

type_synonym name_table = "(string, Evidence) gomap"

definition normalize_name :: "string \<Rightarrow> string" where
  "normalize_name value = join_with '' '' (split_fields (trim_space value))"

definition compound_key :: "Evidence \<Rightarrow> string" where
  "compound_key ev = comparable_name (nvTitle ev) @ [NUL] @ comparable_name (nvGroup ev)"

definition add_name :: "string \<Rightarrow> string \<Rightarrow> string \<Rightarrow> int \<Rightarrow> name_table \<Rightarrow> name_table" where
  "add_name title grp origin rank table =
     (let ev = \<lparr> nvTitle = normalize_name title, nvGroup = normalize_name grp,
                 nvOrigin = origin, nvRank = rank \<rparr>
      in if comparable_name (nvTitle ev) = [] then table
         else case get table (compound_key ev) of
             None \<Rightarrow> put (compound_key ev) ev table
           | Some current \<Rightarrow>
               if nvRank ev > nvRank current \<or>
                  nvRank ev = nvRank current \<and> nvTitle ev < nvTitle current
               then put (compound_key ev) ev table else table)"

definition add_directory_name ::
    "(cohort_map \<Rightarrow> cohort_map) \<Rightarrow> string \<Rightarrow> string \<Rightarrow> int \<Rightarrow> name_table \<Rightarrow> name_table" where
  "add_directory_name ord root origin rank table =
     (let b = trim_space (base (clean root));
          parsed = nComponents (hd (bItems (analyze_many ord [b])))
      in if b = [] \<or> b = ''.'' \<or> b = ''/'' then table
         else if normalize_name (cTitle parsed) \<noteq> []
           then add_name (cTitle parsed) (cReleaseGroup parsed) origin rank table
         else add_name b [] origin rank table)"

definition add_item_names :: "string \<Rightarrow> int \<Rightarrow> Name \<Rightarrow> name_table \<Rightarrow> name_table" where
  "add_item_names origin rank item table =
     (let title0 = normalize_name (cTitle (nComponents item));
          title = (if cEpisodeStart (nComponents item) > 0 then
              (case reliable_episode_title item of Some t \<Rightarrow> t | None \<Rightarrow> title0) else title0)
      in if title0 = [] then table
         else add_name title [] origin (rank - 1)
                (add_name title (cReleaseGroup (nComponents item)) origin rank table))"

definition add_file_names ::
    "(cohort_map \<Rightarrow> cohort_map) \<Rightarrow> string list \<Rightarrow> Snapshot \<Rightarrow> string \<Rightarrow> int \<Rightarrow> name_table \<Rightarrow> name_table" where
  "add_file_names ord exts s origin rank table =
     (let paths = sort (filter (\<lambda>p. has_allowed_extension p exts) (keys (snPaths s)))
      in fold (add_item_names origin rank) (bItems (analyze_files ord (map base paths))) table)"

definition name_table ::
    "(cohort_map \<Rightarrow> cohort_map) \<Rightarrow> Entry \<Rightarrow> Snapshot \<Rightarrow> Snapshot \<Rightarrow> string list \<Rightarrow> name_table" where
  "name_table ord w source library extensions =
     (let exts = extension_set extensions;
          t1 = add_name (eTitle w) [] ''entry_title'' 10 [];
          t2 = (if snRootExists source
                then add_directory_name ord (snRoot source) ''source_directory'' 70 t1 else t1);
          t3 = (if snRootExists library
                then add_directory_name ord (snRoot library) ''library_directory'' 60 t2 else t2)
      in add_file_names ord exts library ''library_media'' 90
           (add_file_names ord exts source ''source_media'' 100 t3))"

text \<open>By falling rank, then compared title, then group.\<close>

definition ranked_names :: "name_table \<Rightarrow> Evidence list" where
  "ranked_names table =
     sort_key (\<lambda>ev. (- nvRank ev, comparable_name (nvTitle ev), to_lower (nvGroup ev))) (map snd table)"

fun unique_names :: "string list \<Rightarrow> Evidence list \<Rightarrow> string list" where
  "unique_names seen [] = []"
| "unique_names seen (ev # evs) =
     (let key = comparable_name (nvTitle ev)
      in if key \<in> set seen then unique_names seen evs
         else nvTitle ev # unique_names (key # seen) evs)"

definition build_entry ::
    "(cohort_map \<Rightarrow> cohort_map) \<Rightarrow> Entry \<Rightarrow> Snapshot \<Rightarrow> Snapshot \<Rightarrow> string list \<Rightarrow> EntryEvidence" where
  "build_entry ord w source library extensions =
     (let values = ranked_names (name_table ord w source library extensions)
      in \<lparr> neNames = unique_names [] values, neSearch = values \<rparr>)"

definition build_index ::
    "(cohort_map \<Rightarrow> cohort_map) \<Rightarrow> (string, Entry) gomap \<Rightarrow> (string, Snapshot) gomap \<Rightarrow>
     (string, Snapshot) gomap \<Rightarrow> string list \<Rightarrow> (string, EntryEvidence) gomap" where
  "build_index ord entries sources libraries extensions =
     map (\<lambda>(key, w). (key, build_entry ord w (get_or empty_snapshot sources key)
            (get_or empty_snapshot libraries key) extensions)) entries"

fun strip_year_suffixes :: "string \<Rightarrow> string list \<Rightarrow> string" where
  "strip_year_suffixes value [] = value"
| "strip_year_suffixes value (suf # sufs) =
     (let b = trim_set '' ._-'' (trim_space (trim_suffix value suf))
      in if suffix suf value \<and> b \<noteq> [] then b else strip_year_suffixes value sufs)"

definition strip_known_year_suffix :: "string \<Rightarrow> int \<Rightarrow> string" where
  "strip_known_year_suffix title year =
     (let y = show_int year
      in strip_year_suffixes (trim_space title) ['' ('' @ y @ '')'', ''.'' @ y, ''_'' @ y, '' '' @ y])"

definition match_entry :: "Entry \<Rightarrow> EntryEvidence \<Rightarrow> string \<Rightarrow> int \<Rightarrow> bool" where
  "match_entry w evidence title year =
     (if year \<noteq> 0 \<and> eYear w \<noteq> 0 \<and> year \<noteq> eYear w then False
      else
        let stripped = strip_known_year_suffix title (eYear w);
            queries = comparable_name title #
              (if eYear w \<noteq> 0 \<and> stripped \<noteq> trim_space title then [comparable_name stripped] else [])
        in list_ex (\<lambda>q. q \<noteq> [] \<and> list_ex (\<lambda>name. comparable_name name = q) (neNames evidence)) queries)"

section \<open>Names and matches\<close>

definition filed :: "name_table \<Rightarrow> bool" where
  "filed table \<longleftrightarrow> wf_map table \<and> (\<forall>k ev. get table k = Some ev \<longrightarrow> k = compound_key ev)"

lemma filed_Nil [simp]: "filed []"
  by (simp add: filed_def)

lemma filed_add [invI]: "filed table \<Longrightarrow> filed (add_name title grp origin rank table)"
proof -
  assume filed: "filed table"
  have "filed (put (compound_key ev) ev table)" for ev
    using filed by (auto simp: filed_def simp del: map_of_eq_Some_iff)
  with filed show ?thesis by (auto simp: add_name_def Let_def split: option.splits)
qed

lemma filed_add_directory [invI]: "filed table \<Longrightarrow> filed (add_directory_name ord root origin rank table)"
  by (auto simp: add_directory_name_def Let_def intro: invI)

lemma filed_fold: "(\<And>x t. filed t \<Longrightarrow> filed (f x t)) \<Longrightarrow> filed t \<Longrightarrow> filed (fold f xs t)"
  by (induction xs arbitrary: t) auto

lemma filed_add_files [invI]: "filed table \<Longrightarrow> filed (add_file_names ord exts s origin rank table)"
  unfolding add_file_names_def Let_def
  by (rule filed_fold) (auto simp: add_item_names_def Let_def intro!: invI)

lemma filed_name_table: "filed (name_table ord w source library extensions)"
  by (auto simp: name_table_def Let_def intro!: invI)

text \<open>A row never disappears: only one of the same compared title and group takes its place.\<close>

definition titled :: "name_table \<Rightarrow> string \<Rightarrow> bool" where
  "titled table k \<longleftrightarrow> get table k \<noteq> None"

lemma titled_add: "titled table k \<Longrightarrow> titled (add_name title grp origin rank table) k"
  by (auto simp: add_name_def titled_def Let_def split: option.splits)

lemma titled_add_directory: "titled table k \<Longrightarrow> titled (add_directory_name ord root origin rank table) k"
  by (auto simp: add_directory_name_def Let_def intro: titled_add)

lemma titled_fold: "(\<And>x t. titled t k \<Longrightarrow> titled (f x t) k) \<Longrightarrow> titled t k \<Longrightarrow> titled (fold f xs t) k"
  by (induction xs arbitrary: t) auto

lemma titled_add_files: "titled table k \<Longrightarrow> titled (add_file_names ord exts s origin rank table) k"
  unfolding add_file_names_def Let_def
  by (rule titled_fold) (auto simp: add_item_names_def Let_def intro!: titled_add)

lemma titled_own:
  assumes "comparable_name (normalize_name (eTitle w)) \<noteq> []"
  shows "\<exists>ev \<in> set (map snd (name_table ord w source library extensions)).
    comparable_name (nvTitle ev) @ [NUL] @ comparable_name (nvGroup ev) =
    comparable_name (normalize_name (eTitle w)) @ [NUL] @ comparable_name (normalize_name [])"
proof -
  let ?ev = "\<lparr> nvTitle = normalize_name (eTitle w), nvGroup = normalize_name [],
    nvOrigin = ''entry_title'', nvRank = 10 \<rparr>"
  let ?t = "name_table ord w source library extensions"
  have "titled (add_name (eTitle w) [] ''entry_title'' 10 []) (compound_key ?ev)"
    using assms by (simp add: add_name_def titled_def Let_def)
  then have "titled ?t (compound_key ?ev)"
    unfolding name_table_def Let_def by (auto intro!: titled_add_files titled_add_directory)
  then obtain ev where ev: "get ?t (compound_key ?ev) = Some ev" by (auto simp: titled_def)
  then have "compound_key ?ev = compound_key ev" using filed_name_table by (simp add: filed_def)
  moreover have "ev \<in> set (map snd ?t)" using map_of_SomeD [OF ev] by force
  ultimately show ?thesis by (auto simp: compound_key_def)
qed

lemma set_ranked [simp]: "set (ranked_names table) = set (map snd table)"
  by (simp add: ranked_names_def)

lemma unique_names_keys:
  "comparable_name ` set (unique_names seen evs) = comparable_name ` nvTitle ` set evs - set seen"
  by (induction seen evs rule: unique_names.induct) (auto simp: Let_def)

lemma unique_names_distinct: "distinct (map comparable_name (unique_names seen evs))"
proof (induction seen evs rule: unique_names.induct)
  case (2 seen ev evs)
  then show ?case using unique_names_keys [of "comparable_name (nvTitle ev) # seen" evs]
    by (auto simp: Let_def)
qed simp

lemma rune_bounds:
  fixes n b c d :: nat
  shows "(n mod 32) * 64 + b mod 64 < 0x200000"
    and "(n mod 16) * 4096 + (b mod 64) * 64 + c mod 64 < 0x200000"
    and "(n mod 8) * 262144 + (b mod 64) * 4096 + (c mod 64) * 64 + d mod 64 < 0x200000"
proof -
  have m: "n mod 32 < 32" "n mod 16 < 16" "n mod 8 < 8" "b mod 64 < 64" "c mod 64 < 64" "d mod 64 < 64"
    by simp_all
  show "(n mod 32) * 64 + b mod 64 < 0x200000" using m by linarith
  show "(n mod 16) * 4096 + (b mod 64) * 64 + c mod 64 < 0x200000" using m by linarith
  show "(n mod 8) * 262144 + (b mod 64) * 4096 + (c mod 64) * 64 + d mod 64 < 0x200000" using m by linarith
qed

lemma decode_rune_bound: "fst (decode_rune s) < 0x200000"
  using rune_bounds by (cases s rule: decode_rune.cases) (simp_all add: Let_def)

lemma runes_bound: "r \<in> set (runes s) \<Longrightarrow> r < 0x200000"
proof (induction s rule: runes.induct)
  case (2 c s)
  obtain q w where d: "decode_rune (c # s) = (q, w)" by force
  then have "r = q \<or> r \<in> set (runes (drop w (c # s)))" using 2(2) by (simp add: runes.simps(2))
  then show ?case using decode_rune_bound [of "c # s"] d 2(1) [OF d [symmetric] refl] by auto
qed simp

lemma comparable_name_no_NUL: "NUL \<notin> set (comparable_name v)"
proof
  assume "NUL \<in> set (comparable_name v)"
  then obtain r where r: "r \<in> set (List.map_filter comparable_rune (runes v))" "NUL \<in> set (encode_rune r)"
    by (auto simp: comparable_name_def from_runes_def)
  then obtain r0 where "r0 \<in> set (runes v)" "comparable_rune r0 = Some r"
    by (auto simp: map_filter_def)
  with runes_bound have "r0 < 0x200000" "comparable_rune r0 = Some r" by blast+
  then have b: "0 < r" "r < 0x200000" by (auto simp: comparable_rune_def Let_def split: if_splits)
  have nz: "\<not> (0 < n \<and> n < 256)" if "NUL = char_of n" for n :: nat
    using that [symmetric] by (auto simp: char_of_eq_iff take_bit_eq_mod mod_eq_0_iff_dvd dest: dvd_imp_le)
  show False using r(2) b by (auto simp: encode_rune_def split: if_splits dest!: nz)
qed


lemma decode_rune_ascii: "(of_char c :: nat) < 128 \<Longrightarrow> decode_rune (c # s) = (of_char c, 1)"
  by (cases "c # s" rule: decode_rune.cases) (auto simp: Let_def)

lemma comparable_name_Cons:
  assumes "(of_char c :: nat) < 128"
  shows "comparable_name (c # s) =
    (case comparable_rune (of_char c) of None \<Rightarrow> [] | Some r \<Rightarrow> [char_of r]) @ comparable_name s"
proof -
  have r: "r < 128" if "comparable_rune (of_char c) = Some r" for r
    using that assms by (auto simp: comparable_rune_def Let_def split: if_splits)
  have "runes (c # s) = of_char c # runes s"
    using decode_rune_ascii [OF assms, of s] by (simp add: runes.simps(2))
  with r show ?thesis
    by (cases "comparable_rune (of_char c)")
      (auto simp: comparable_name_def from_runes_def map_filter_def encode_rune_def)
qed

lemma comparable_name_Nil [simp]: "comparable_name [] = []"
  by (simp add: comparable_name_def from_runes_def map_filter_def)

section \<open>Properties\<close>

text \<open>An Entry answers to its configured title, whatever else the filesystem says: a release
  whose title compares equal to it and whose year does not contradict the Entry's matches.\<close>

theorem own_title_matches:
  assumes "comparable_name (normalize_name (eTitle w)) \<noteq> []"
    and "comparable_name title = comparable_name (normalize_name (eTitle w))"
    and "year = 0 \<or> eYear w = 0 \<or> year = eYear w"
  shows "match_entry w (build_entry ord w source library extensions) title year"
proof -
  let ?t = "name_table ord w source library extensions"
  obtain ev where ev: "ev \<in> set (map snd ?t)" "comparable_name (nvTitle ev) @ [NUL] @ comparable_name (nvGroup ev) =
      comparable_name (normalize_name (eTitle w)) @ [NUL] @ comparable_name (normalize_name [])"
    using titled_own [OF assms(1)] by blast
  from last_sep_unique [of NUL "comparable_name (nvGroup ev)" "comparable_name (normalize_name [])"] ev(2)
  have eq: "comparable_name (nvTitle ev) = comparable_name title"
    using comparable_name_no_NUL assms(2) by simp
  have "comparable_name title \<in> comparable_name ` set (unique_names [] (ranked_names ?t))"
    unfolding unique_names_keys set_ranked eq [symmetric] using ev(1) by simp
  then have "list_ex (\<lambda>name. comparable_name name = comparable_name title)
      (neNames (build_entry ord w source library extensions))"
    by (auto simp: build_entry_def Let_def list_ex_iff)
  with assms show ?thesis by (auto simp: match_entry_def Let_def)
qed

text \<open>The names of an Entry are pairwise different when compared, and each is the title of a
  piece of evidence.\<close>

theorem names_distinct:
  "distinct (map comparable_name (neNames (build_entry ord w source library extensions))) \<and>
   comparable_name ` set (neNames (build_entry ord w source library extensions)) =
   comparable_name ` nvTitle ` set (neSearch (build_entry ord w source library extensions))"
  using unique_names_distinct unique_names_keys by (simp add: build_entry_def Let_def)

lemma own_title_matches_witness:
  "match_entry (sample_entry\<lparr> eTitle := ''ab'' \<rparr>)
     (build_entry (\<lambda>m. m) (sample_entry\<lparr> eTitle := ''ab'' \<rparr>) empty_snapshot empty_snapshot []) ''AB'' 2020"
proof (rule own_title_matches)
  have "trim_space ''ab'' = ''ab''" by (simp add: name_values)
  moreover have "split_fields ''ab'' = [''ab'']" by code_simp
  ultimately have n: "normalize_name ''ab'' = ''ab''" by (simp add: normalize_name_def)
  show "comparable_name (normalize_name (eTitle (sample_entry\<lparr> eTitle := ''ab'' \<rparr>))) \<noteq> []"
    using n by (simp add: comparable_name_Cons comparable_rune_def)
  show "comparable_name ''AB'' = comparable_name (normalize_name (eTitle (sample_entry\<lparr> eTitle := ''ab'' \<rparr>)))"
    using n by (simp add: comparable_name_Cons comparable_rune_def)
qed (simp add: sample_titles)

end
