(* ===== verification/Config.thy ===== *)
theory Config
  imports Naming
begin

text \<open>
  Package \<open>configstore\<close> (config.go): clients, content sources and the bundle a pass works on, the
  checks made when they are loaded, and the order of the sources. Reading the files is not
  modelled; \<open>ops\<close> stands for \<open>net/url\<close>.
\<close>

record PathMapping =
  pmRemote :: string
  pmLocal :: string

record Client =
  clID :: string
  clType :: string
  clURL :: string
  clUsername :: string
  clPathMappings :: "PathMapping list"
  clEnabled :: bool
  clCredentialSet :: bool

record RSSSource =
  rsName :: string
  rsURL :: string

record ContentSource =
  csID :: string
  csProvider :: string
  csRSS :: "RSSSource list"
  csSearch :: "string option"
  csEnabled :: bool
  csPriority :: int

record Bundle =
  buClients :: "(string, Client) gomap"
  buSources :: "(string, ContentSource) gomap"
  buEntries :: "(string, Entry) gomap"

datatype config_error =
    IdRequired | IdMismatch string string | InvalidId string
  | UnsupportedClient string | ClientURLRequired | ClientURL | CredentialPersisted | MappingIncomplete
  | ProviderRequired | ProviderUnsupported string | NotCanonicalId string | OwnsSearch | ReservedId string
  | FeedURLRequired nat | FeedURL nat | FeedDuplicate string | NothingConfigured
  | TemplateQueries | TemplateURL | ManyClients | UnknownSource string string

definition validate_id :: "string \<Rightarrow> string \<Rightarrow> config_error option" where
  "validate_id file_id content_id =
     (if content_id = [] then Some IdRequired
      else if file_id \<noteq> content_id then Some (IdMismatch content_id (file_id @ ''.json''))
      else if CHR ''/'' \<in> set content_id \<or> CHR 0x5C \<in> set content_id \<or>
              content_id = ''.'' \<or> content_id = ''..'' then Some (InvalidId content_id)
      else None)"

definition valid_http_url :: "'x url_ops_scheme \<Rightarrow> string \<Rightarrow> bool" where
  "valid_http_url ops raw =
     (case url_parse ops raw of
        None \<Rightarrow> False
      | Some u \<Rightarrow> (uScheme u = ''http'' \<or> uScheme u = ''https'') \<and> uHost u \<noteq> [])"

text \<open>\<open>has_user\<close> tells whether a parsed URL embeds credentials.\<close>

definition validate_client ::
    "'x url_ops_scheme \<Rightarrow> (string \<Rightarrow> bool) \<Rightarrow> string \<Rightarrow> Client \<Rightarrow> config_error option" where
  "validate_client ops has_user file_id v =
     (case validate_id file_id (clID v) of
        Some e \<Rightarrow> Some e
      | None \<Rightarrow>
          if clType v \<noteq> ''qbittorrent'' \<and> clType v \<noteq> ''transmission'' \<and> clType v \<noteq> ''aria2''
            then Some (UnsupportedClient (clType v))
          else if clURL v = [] then Some ClientURLRequired
          else if \<not> valid_http_url ops (clURL v) \<or> has_user (clURL v) then Some ClientURL
          else if clCredentialSet v then Some CredentialPersisted
          else if list_ex (\<lambda>m. pmRemote m = [] \<or> pmLocal m = []) (clPathMappings v)
            then Some MappingIncomplete
          else None)"

fun validate_feeds ::
    "'x url_ops_scheme \<Rightarrow> nat \<Rightarrow> string list \<Rightarrow> RSSSource list \<Rightarrow> config_error option" where
  "validate_feeds ops i seen [] = None"
| "validate_feeds ops i seen (feed # feeds) =
     (let u = trim_space (rsURL feed)
      in if u = [] then Some (FeedURLRequired i)
         else if \<not> valid_http_url ops u then Some (FeedURL i)
         else if u \<in> set seen then Some (FeedDuplicate u)
         else validate_feeds ops (Suc i) (u # seen) feeds)"

text \<open>\<open>strings.Count\<close> and the first \<open>strings.Replace\<close> of a non-empty text.\<close>

fun count_sub :: "nat \<Rightarrow> string \<Rightarrow> string \<Rightarrow> nat" where
  "count_sub skip s [] = 0"
| "count_sub (Suc n) s (c # cs) = count_sub n s cs"
| "count_sub 0 s (c # cs) =
     (if prefix s (c # cs) then Suc (count_sub (length s - 1) s cs) else count_sub 0 s cs)"

fun replace_first :: "string \<Rightarrow> string \<Rightarrow> string \<Rightarrow> string" where
  "replace_first s t [] = []"
| "replace_first s t (c # cs) =
     (if prefix s (c # cs) then t @ drop (length s) (c # cs) else c # replace_first s t cs)"

definition builtin_providers :: "string list" where
  "builtin_providers = [''mikan'', ''dmhy'', ''nyaa'']"

definition query_slot :: string where
  "query_slot = ''{query}''"

definition validate_source ::
    "'x url_ops_scheme \<Rightarrow> string \<Rightarrow> ContentSource \<Rightarrow> config_error option" where
  "validate_source ops file_id v =
     (let template = (case csSearch v of None \<Rightarrow> [] | Some t \<Rightarrow> t); generic = (csProvider v = ''generic'')
      in case validate_id file_id (csID v) of
           Some e \<Rightarrow> Some e
         | None \<Rightarrow>
             if csProvider v = [] then Some ProviderRequired
             else if \<not> generic \<and> csProvider v \<notin> set builtin_providers
               then Some (ProviderUnsupported (csProvider v))
             else if \<not> generic \<and> file_id \<noteq> csProvider v then Some (NotCanonicalId file_id)
             else if \<not> generic \<and> csSearch v \<noteq> None then Some OwnsSearch
             else if generic \<and> file_id \<in> set builtin_providers then Some (ReservedId file_id)
             else (case validate_feeds ops 0 [] (csRSS v) of
                 Some e \<Rightarrow> Some e
               | None \<Rightarrow>
                   if generic \<and> csRSS v = [] \<and> template = [] then Some NothingConfigured
                   else if generic \<and> template \<noteq> [] \<and> count_sub 0 query_slot template \<noteq> 1
                     then Some TemplateQueries
                   else if generic \<and> template \<noteq> [] \<and>
                           \<not> valid_http_url ops (replace_first query_slot ''probe'' template)
                     then Some TemplateURL
                   else None))"

definition validate_references :: "Bundle \<Rightarrow> config_error option" where
  "validate_references b =
     (if length (buClients b) > 1 then Some ManyClients
      else (case find (\<lambda>(_, source). get (buSources b) source = None)
              (concat (map (\<lambda>(key, w). map (\<lambda>s. (key, s)) (eSources w)) (buEntries b))) of
          Some (key, source) \<Rightarrow> Some (UnknownSource key source)
        | None \<Rightarrow> None))"

definition enabled_source_ids :: "Bundle \<Rightarrow> string list" where
  "enabled_source_ids b =
     map snd (sort (map (\<lambda>(i, v). (csPriority v, i)) (filter (\<lambda>(_, v). csEnabled v) (buSources b))))"

definition effective_client :: "Bundle \<Rightarrow> string" where
  "effective_client b =
     (case find (\<lambda>(_, c). clEnabled c) (buClients b) of Some (i, _) \<Rightarrow> i | None \<Rightarrow> [])"

definition folder_projection_for :: "Entry \<Rightarrow> string \<Rightarrow> FolderProjection option" where
  "folder_projection_for w observed_source =
     (if trim_space (eDeclarationPath w) = [] \<or> eFolderProjections w = [] then None
      else case rel (clean (eDeclarationPath w)) (clean observed_source) of
          None \<Rightarrow> None
        | Some r \<Rightarrow>
            let part = hd (split_on CHR ''/'' r)
            in if r = ''.'' \<or> is_abs r \<or> escapes_up r \<or> trim_space part = [] then None
               else get (eFolderProjections w) part)"

section \<open>Properties\<close>

text \<open>A built-in provider has at most one valid source, the one with its own name, and no
  generic source takes such a name.\<close>

theorem builtin_source_unique:
  assumes "validate_source ops i v = None" and "validate_source ops j w = None"
    and "csProvider v = csProvider w" and "csProvider v \<noteq> ''generic''"
  shows "i = j \<and> i = csProvider v \<and> i \<in> set builtin_providers"
  using assms by (auto simp: validate_source_def Let_def split: option.splits if_splits)

text \<open>With at most one client the effective client does not depend on the order of the map: it
  is the client if it is enabled, and there is none otherwise.\<close>

theorem effective_client_single:
  assumes "validate_references b = None"
  shows "effective_client b =
    (case buClients b of [(i, c)] \<Rightarrow> if clEnabled c then i else [] | _ \<Rightarrow> [])"
proof -
  from assms have "length (buClients b) \<le> 1"
    by (auto simp: validate_references_def split: if_splits)
  then consider "buClients b = []" | i c where "buClients b = [(i, c)]"
    by (cases "buClients b") auto
  then show ?thesis by cases (auto simp: effective_client_def)
qed

lemma effective_client_single_witness:
  "effective_client \<lparr> buClients = [(''q'', \<lparr> clID = ''q'', clType = ''aria2'', clURL = ''u'', clUsername = [],
      clPathMappings = [], clEnabled = True, clCredentialSet = False \<rparr>)], buSources = [], buEntries = [] \<rparr> = ''q''"
  by (subst effective_client_single) (simp_all add: validate_references_def)

definition sample_url :: URL where
  "sample_url = \<lparr> uScheme = ''http'', uHostname = ''h'', uPort = [], uHost = ''h'', uPath = [],
     uFragment = [], uRawQuery = [] \<rparr>"

definition sample_ops :: url_ops where
  "sample_ops = \<lparr> url_parse = (\<lambda>s. if s = [] then None else Some sample_url),
     url_query = (\<lambda>u k. []), url_encode_query = uRawQuery, url_string = uHost, sha256_hex = (\<lambda>s. s) \<rparr>"

lemma builtin_source_unique_witness:
  "''nyaa'' \<in> set builtin_providers"
proof -
  let ?v = "\<lparr> csID = ''nyaa'', csProvider = ''nyaa'', csRSS = [], csSearch = None, csEnabled = True,
    csPriority = 0 \<rparr>"
  have "validate_source sample_ops ''nyaa'' ?v = None"
    by (simp add: validate_source_def validate_id_def builtin_providers_def)
  from builtin_source_unique [OF this this] show ?thesis by simp
qed

end
