(* ===== verification/Schedule.thy ===== *)
theory Schedule
  imports Prelude "HOL-Library.Sublist"
begin

text \<open>
  The dynamic program in the middle of \<open>selectBestByScore\<close> (candidate/plan.go), over indices
  with a first and a last episode, a width and an order of preference on selections. The locale
  states what the preference must promise, that a wider coverage is always preferred; under it
  the program picks a set of non-overlapping ranges of maximal coverage, however ties are
  decided. The locale is interpreted on the code's preference in theory Candidate.
\<close>

record selection =
  slIndexes :: "nat list"
  slCoverage :: int

definition empty_selection :: selection where
  "empty_selection = \<lparr> slIndexes = [], slCoverage = 0 \<rparr>"

text \<open>One past the last earlier position whose range ends before this one starts.\<close>

definition compatible_prefix :: "(nat \<Rightarrow> int) \<Rightarrow> (nat \<Rightarrow> int) \<Rightarrow> nat list \<Rightarrow> nat \<Rightarrow> nat" where
  "compatible_prefix start stop idx pos =
     (case find (\<lambda>j. stop (idx ! j) < start (idx ! pos)) (rev [0 ..< pos]) of
        None \<Rightarrow> 0 | Some j \<Rightarrow> Suc j)"

definition schedule_step ::
    "(nat \<Rightarrow> int) \<Rightarrow> (nat \<Rightarrow> int) \<Rightarrow> (nat \<Rightarrow> int) \<Rightarrow> (selection \<Rightarrow> selection \<Rightarrow> bool) \<Rightarrow> nat list \<Rightarrow>
     nat \<Rightarrow> selection list \<Rightarrow> selection list" where
  "schedule_step start stop width pref idx pos dp =
     (let previous = dp ! compatible_prefix start stop idx pos;
          include = \<lparr> slIndexes = slIndexes previous @ [idx ! pos],
                      slCoverage = slCoverage previous + width (idx ! pos) \<rparr>;
          exclude = dp ! pos
      in dp @ [if pref include exclude then include else exclude])"

definition schedule ::
    "(nat \<Rightarrow> int) \<Rightarrow> (nat \<Rightarrow> int) \<Rightarrow> (nat \<Rightarrow> int) \<Rightarrow> (selection \<Rightarrow> selection \<Rightarrow> bool) \<Rightarrow> nat list \<Rightarrow>
     selection" where
  "schedule start stop width pref idx =
     last (fold (schedule_step start stop width pref idx) [0 ..< length idx] [empty_selection])"

section \<open>Sorted ranges\<close>

lemma find_rev_upt:
  "(case find P (rev [0 ..< n]) of None \<Rightarrow> 0 | Some j \<Rightarrow> Suc j) =
     (if \<exists>j<n. P j then Suc (Max {j. j < n \<and> P j}) else 0)"
proof (induction n)
  case 0
  then show ?case by simp
next
  case (Suc n)
  show ?case
  proof (cases "P n")
    case True
    have "Max {j. j < Suc n \<and> P j} = n"
      using True by (intro Max_eqI) auto
    with True show ?thesis by auto
  next
    case False
    then have "{j. j < Suc n \<and> P j} = {j. j < n \<and> P j}" by (auto simp: less_Suc_eq)
    moreover have "(\<exists>j<Suc n. P j) = (\<exists>j<n. P j)" using False by (auto simp: less_Suc_eq)
    ultimately show ?thesis using Suc False by simp
  qed
qed

text \<open>The compatible prefix holds exactly the earlier ranges that end before this one starts.\<close>

lemma compatible_prefix_filter:
  assumes "sorted (map stop idx)" and "pos < length idx"
  shows "take (compatible_prefix start stop idx pos) idx =
    filter (\<lambda>i. stop i < start (idx ! pos)) (take pos idx)"
    and "compatible_prefix start stop idx pos \<le> pos"
proof -
  let ?P = "\<lambda>j. stop (idx ! j) < start (idx ! pos)" and ?k = "compatible_prefix start stop idx pos"
  have k: "?k = (if \<exists>j<pos. ?P j then Suc (Max {j. j < pos \<and> ?P j}) else 0)"
    unfolding compatible_prefix_def by (rule find_rev_upt)
  have "Max {j. j < pos \<and> ?P j} \<in> {j. j < pos \<and> ?P j}" if "\<exists>j<pos. ?P j"
    using that by (intro Max_in) auto
  then have "Max {j. j < pos \<and> ?P j} < pos" if "\<exists>j<pos. ?P j" using that by blast
  with k show le: "?k \<le> pos" by (simp add: Suc_le_eq)
  have iff: "j < ?k \<longleftrightarrow> ?P j" if "j < pos" for j
  proof
    assume jk: "j < ?k"
    let ?m = "Max {j. j < pos \<and> ?P j}"
    from jk k have ex: "\<exists>j<pos. ?P j" by (auto split: if_splits)
    then have "?m \<in> {j. j < pos \<and> ?P j}" by (intro Max_in) auto
    moreover have "j \<le> ?m" using jk k ex by simp
    moreover have "stop (idx ! j) \<le> stop (idx ! ?m)" if "?m < pos" "j \<le> ?m"
      using sorted_nth_mono [OF assms(1), of j ?m] that assms(2) by simp
    ultimately show "?P j" by auto
  next
    assume "?P j"
    then have "j \<le> Max {j. j < pos \<and> ?P j}" using that by (intro Max_ge) auto
    moreover have "\<exists>j<pos. ?P j" using \<open>?P j\<close> that by blast
    ultimately show "j < ?k" using k by simp
  qed
  have "filter (\<lambda>i. stop i < start (idx ! pos)) (take pos idx) = map ((!) idx) (filter ?P [0 ..< pos])"
  proof -
    have "take pos idx = map ((!) idx) [0 ..< pos]"
      using assms(2) by (intro nth_equalityI) simp_all
    then show ?thesis by (simp add: filter_map comp_def)
  qed
  also have "filter ?P [0 ..< pos] = filter (\<lambda>j. j < ?k) [0 ..< pos]"
    using iff by (intro filter_cong) auto
  also have "\<dots> = [0 ..< ?k]"
  proof -
    have "filter (\<lambda>j. j < k) [0 ..< n] = [0 ..< k]" if "k \<le> n" for k n
      using that by (induction n) (auto simp: le_Suc_eq filter_id_conv)
    with le show ?thesis by simp
  qed
  also have "map ((!) idx) [0 ..< ?k] = take ?k idx"
    using le assms(2) by (intro nth_equalityI) simp_all
  finally show "take ?k idx = filter (\<lambda>i. stop i < start (idx ! pos)) (take pos idx)" ..
qed

section \<open>Optimality\<close>

text \<open>Ranges in order, each ending before the next starts.\<close>

definition separated :: "(nat \<Rightarrow> int) \<Rightarrow> (nat \<Rightarrow> int) \<Rightarrow> nat list \<Rightarrow> bool" where
  "separated start stop js \<longleftrightarrow> sorted_wrt (\<lambda>a b. stop a < start b) js"

definition total_width :: "(nat \<Rightarrow> int) \<Rightarrow> nat list \<Rightarrow> int" where
  "total_width width js = (\<Sum>i\<leftarrow>js. width i)"

locale coverage_first =
  fixes pref :: "selection \<Rightarrow> selection \<Rightarrow> bool"
  assumes wider_preferred: "slCoverage b < slCoverage a \<Longrightarrow> pref a b"
    and preferred_wide: "pref a b \<Longrightarrow> slCoverage b \<le> slCoverage a"
begin

lemma chosen_coverage:
  "slCoverage (if pref a b then a else b) = max (slCoverage a) (slCoverage b)"
  using wider_preferred [of b a] preferred_wide [of a b] by (cases "slCoverage b < slCoverage a") auto

end

definition optimal ::
    "(nat \<Rightarrow> int) \<Rightarrow> (nat \<Rightarrow> int) \<Rightarrow> (nat \<Rightarrow> int) \<Rightarrow> nat list \<Rightarrow> selection \<Rightarrow> bool" where
  "optimal start stop width idx s \<longleftrightarrow>
     subseq (slIndexes s) idx \<and> separated start stop (slIndexes s) \<and>
     slCoverage s = total_width width (slIndexes s) \<and>
     (\<forall>js. subseq js idx \<longrightarrow> separated start stop js \<longrightarrow> total_width width js \<le> slCoverage s)"

lemma subseq_snocD:
  assumes "subseq js (xs @ [x])"
  shows "subseq js xs \<or> (\<exists>ys. js = ys @ [x] \<and> subseq ys xs)"
proof -
  from assms obtain ys zs where "js = ys @ zs" "subseq ys xs" "subseq zs [x]"
    by (auto simp: subseq_append_iff dest: subseq_appendE)
  then show ?thesis by (cases zs) (auto split: if_splits)
qed

lemma set_subseq: "subseq xs ys \<Longrightarrow> set xs \<subseteq> set ys"
  by (induction rule: list_emb.induct) auto

lemma subseq_filterI: "subseq ys xs \<Longrightarrow> \<forall>y \<in> set ys. P y \<Longrightarrow> subseq ys (filter P xs)"
  by (metis filter_True subseq_filter)

context coverage_first
begin

lemma schedule_step_optimal:
  assumes sorted: "sorted (map stop idx)" and pos: "pos < length idx"
    and len: "length dp = Suc pos"
    and dp: "\<forall>k \<le> pos. optimal start stop width (take k idx) (dp ! k)"
  shows "optimal start stop width (take (Suc pos) idx)
    (last (schedule_step start stop width pref idx pos dp))"
proof -
  let ?k = "compatible_prefix start stop idx pos" and ?x = "idx ! pos"
  let ?prev = "dp ! ?k" and ?exc = "dp ! pos"
  let ?inc = "\<lparr> slIndexes = slIndexes ?prev @ [?x], slCoverage = slCoverage ?prev + width ?x \<rparr>"
  let ?res = "if pref ?inc ?exc then ?inc else ?exc"
  have res: "last (schedule_step start stop width pref idx pos dp) = ?res"
    by (simp add: schedule_step_def Let_def)
  have take: "take (Suc pos) idx = take pos idx @ [?x]" using pos by (rule take_Suc_conv_app_nth)
  note cp = compatible_prefix_filter [OF sorted pos, of start]
  have prev: "optimal start stop width (filter (\<lambda>i. stop i < start ?x) (take pos idx)) ?prev"
    using dp cp by metis
  have exc: "optimal start stop width (take pos idx) ?exc" using dp by simp
  have sub: "subseq (slIndexes ?prev) (filter (\<lambda>i. stop i < start ?x) (take pos idx))"
    using prev by (simp add: optimal_def)
  have before: "\<forall>i \<in> set (slIndexes ?prev). stop i < start ?x"
  proof
    fix i assume "i \<in> set (slIndexes ?prev)"
    then have "i \<in> set (filter (\<lambda>i. stop i < start ?x) (take pos idx))"
      using sub using subseq_order.order_refl by (blast dest: set_subseq)
    then show "stop i < start ?x" by simp
  qed
  have inc_sub: "subseq (slIndexes ?inc) (take pos idx @ [?x])"
  proof -
    have "subseq (slIndexes ?prev) (take pos idx)"
      using sub subseq_filter_left subseq_order.order_trans by blast
    then show ?thesis by simp
  qed
  have inc_sep: "separated start stop (slIndexes ?inc)"
    using prev before by (simp add: optimal_def separated_def sorted_wrt_append)
  have inc_cov: "slCoverage ?inc = total_width width (slIndexes ?inc)"
    using prev by (simp add: optimal_def total_width_def)
  have exc_sub: "subseq (slIndexes ?exc) (take pos idx @ [?x])"
    using exc by (simp add: optimal_def subseq_rev_drop_many)
  have bound: "total_width width js \<le> max (slCoverage ?inc) (slCoverage ?exc)"
    if js: "subseq js (take pos idx @ [?x])" "separated start stop js" for js
    using subseq_snocD [OF js(1)]
  proof
    assume "subseq js (take pos idx)"
    then have "total_width width js \<le> slCoverage ?exc" using exc js(2) unfolding optimal_def by blast
    then show ?thesis by simp
  next
    assume "\<exists>ys. js = ys @ [?x] \<and> subseq ys (take pos idx)"
    then obtain ys where ys: "js = ys @ [?x]" "subseq ys (take pos idx)" by blast
    have "\<forall>y \<in> set ys. stop y < start ?x" "separated start stop ys"
      using js(2) ys(1) by (auto simp: separated_def sorted_wrt_append)
    with ys(2) have "total_width width ys \<le> slCoverage ?prev"
      using prev subseq_filterI [of ys "take pos idx" "\<lambda>i. stop i < start ?x"]
      unfolding optimal_def by blast
    with ys(1) show ?thesis by (simp add: total_width_def)
  qed
  have cov: "slCoverage ?res = max (slCoverage ?inc) (slCoverage ?exc)" by (rule chosen_coverage)
  show ?thesis unfolding res take
  proof (cases "pref ?inc ?exc")
    case True
    then have r: "?res = ?inc" by simp
    show "optimal start stop width (take pos idx @ [?x]) ?res"
      using inc_sub inc_sep inc_cov bound cov unfolding optimal_def r by simp
  next
    case False
    then have r: "?res = ?exc" by simp
    show "optimal start stop width (take pos idx @ [?x]) ?res"
      using exc exc_sub bound cov unfolding optimal_def r by simp
  qed
qed

lemma schedule_fold:
  assumes sorted: "sorted (map stop idx)" and "n \<le> length idx"
  shows "length (fold (schedule_step start stop width pref idx) [0 ..< n] [empty_selection]) = Suc n \<and>
    (\<forall>k \<le> n. optimal start stop width (take k idx)
       (fold (schedule_step start stop width pref idx) [0 ..< n] [empty_selection] ! k))"
  using assms(2)
proof (induction n)
  case 0
  then show ?case by (auto simp: optimal_def empty_selection_def separated_def total_width_def dest: list_emb_Nil2)
next
  case (Suc n)
  let ?dp = "fold (schedule_step start stop width pref idx) [0 ..< n] [empty_selection]"
  let ?next = "schedule_step start stop width pref idx n ?dp"
  from Suc have len: "length ?dp = Suc n" and ih: "\<forall>k \<le> n. optimal start stop width (take k idx) (?dp ! k)"
    by simp_all
  obtain r where r: "?next = ?dp @ [r]" by (auto simp: schedule_step_def Let_def)
  have "optimal start stop width (take (Suc n) idx) r"
    using schedule_step_optimal [OF sorted _ len ih] Suc.prems r by simp
  then have "\<forall>k \<le> Suc n. optimal start stop width (take k idx) (?next ! k)"
    using ih len r by (auto simp: nth_append le_Suc_eq)
  then show ?case using r len by simp
qed

text \<open>The chosen selection is optimal among all sets of separated ranges.\<close>

lemma schedule_optimal:
  assumes "sorted (map stop idx)"
  shows "optimal start stop width idx (schedule start stop width pref idx)"
proof -
  let ?dp = "fold (schedule_step start stop width pref idx) [0 ..< length idx] [empty_selection]"
  have len: "length ?dp = Suc (length idx)"
    and opt: "\<forall>k \<le> length idx. optimal start stop width (take k idx) (?dp ! k)"
    using schedule_fold [OF assms order_refl] by blast+
  have "last ?dp = ?dp ! length idx" using len last_conv_nth [of ?dp] by fastforce
  then show ?thesis using opt by (auto simp: schedule_def)
qed

end

end
