(* ===== verification/Candidate.thy ===== *)
theory Candidate
  imports Config Schedule
begin

text \<open>
  Package candidate (candidate/plan.go): what becomes of each observed release. A candidate is
  evaluated against its Entry (filters, projection of the episode range, acquisition identity),
  a repeated acquisition is a duplicate, and among the remaining candidates of one season the
  best set of non-overlapping ranges is selected, of one film the best release. The errors and
  reasons of the package are constructors instead of texts. Iterations over Go maps whose order
  the result may depend on take that order as a parameter.
\<close>

section \<open>Candidates\<close>

datatype decision = Selected | Filtered | Duplicate | Invalid | Superseded

datatype reason =
    NoReason | RejectedBy string | DuplicateRelease | NoEpisodeIdentity | NoFolder | CrossesSeason
  | BadIdentity identity_error | OtherMediaType string string | BestForMovie | SupersededBy string
  | BestSet | OverlapSupersededBy string | BetterSet

record Candidate =
  caMediaType :: string
  caEntryKey :: string
  caSourceID :: string
  caRelease :: Release
  caSourceEpisode :: Key
  caEpisode :: Key
  caAcquisition :: Identity
  caDecision :: decision
  caReason :: reason
  caSourceFolder :: string

datatype plan_warning = SkippedMediaType string nat

record Plan =
  plCandidates :: "Candidate list"
  plWarnings :: "plan_warning list"

datatype plan_error =
    PlanCancelled | EntryNotFound string | SourceNotFound string | SourceDisabled string
  | MediaTypeMismatch string string

definition no_key :: Key where
  "no_key = \<lparr> kEntryKey = [], kSeason = 0, kEpisodeStart = 0, kEpisodeEnd = 0, kRevision = 0,
              kSpecial = False \<rparr>"

definition no_identity :: Identity where
  "no_identity = \<lparr> idID = [], idKind = [], idCanonical = [] \<rparr>"

definition new_candidate :: "Catalog.Entry \<Rightarrow> string \<Rightarrow> Release \<Rightarrow> decision \<Rightarrow> reason \<Rightarrow> Candidate" where
  "new_candidate w source_id r d why =
     \<lparr> caMediaType = eMediaType w, caEntryKey = eKey w, caSourceID = source_id, caRelease = r,
       caSourceEpisode = no_key, caEpisode = no_key, caAcquisition = no_identity,
       caDecision = d, caReason = why, caSourceFolder = [] \<rparr>"

definition with_identity :: "'x url_ops_scheme \<Rightarrow> Candidate \<Rightarrow> Candidate" where
  "with_identity ops c =
     (case acquisition_identity ops (caRelease c) of
        Inl e \<Rightarrow> c\<lparr> caDecision := Invalid, caReason := BadIdentity e \<rparr>
      | Inr ident \<Rightarrow> c\<lparr> caAcquisition := ident, caDecision := Selected \<rparr>)"

definition evaluate ::
    "'x url_ops_scheme \<Rightarrow> Catalog.Entry \<Rightarrow> string \<Rightarrow> Release \<Rightarrow> FolderProjectionEvidence list \<Rightarrow> Candidate" where
  "evaluate ops w source_id r evidence =
     (let new = new_candidate w source_id r; rejected = reject_reason (eFilters w) r;
          n = rComponents r; first = cEpisodeStart n;
          final = (if cEpisodeEnd n < first then first else cEpisodeEnd n);
          project = project_observed_episode w evidence (cSeason n) (cSeasonExplicit n)
      in if rejected \<noteq> [] then new Filtered (RejectedBy rejected)
         else if eMediaType w = media_movie then
           with_identity ops ((new Selected NoReason)\<lparr>
             caSourceEpisode := no_key\<lparr> kEntryKey := eKey w \<rparr>, caEpisode := no_key\<lparr> kEntryKey := eKey w \<rparr> \<rparr>)
         else if first \<le> 0 then new Invalid NoEpisodeIdentity
         else case project first of
             None \<Rightarrow> new Invalid NoFolder
           | Some ps \<Rightarrow>
               if prEpisode ps \<le> 0 then new Invalid NoFolder
               else case project final of
                   None \<Rightarrow> new Invalid CrossesSeason
                 | Some pe \<Rightarrow>
                     if prEpisode pe \<le> 0 \<or> prSeason pe \<noteq> prSeason ps \<or>
                        prFolder ps \<noteq> [] \<and> prFolder pe \<noteq> [] \<and> prFolder ps \<noteq> prFolder pe
                     then new Invalid CrossesSeason
                     else
                       let season = (if cSeason n \<le> 0 \<and> \<not> cSeasonExplicit n then 1 else cSeason n)
                       in with_identity ops ((new Selected NoReason)\<lparr>
                            caSourceEpisode := \<lparr> kEntryKey = eKey w, kSeason = season,
                              kEpisodeStart = first, kEpisodeEnd = final, kRevision = cVersion n,
                              kSpecial = (season = 0) \<rparr>,
                            caEpisode := \<lparr> kEntryKey = eKey w, kSeason = prSeason ps,
                              kEpisodeStart = prEpisode ps, kEpisodeEnd = prEpisode pe,
                              kRevision = cVersion n, kSpecial = (prSeason ps = 0) \<rparr>,
                            caSourceFolder := (if prFolder ps = [] then prFolder pe else prFolder ps) \<rparr>))"

definition matches_work :: "Catalog.Entry \<Rightarrow> EntryEvidence \<Rightarrow> Release \<Rightarrow> bool" where
  "matches_work w names r \<longleftrightarrow>
     (rMediaType r = [] \<or> eMediaType w = rMediaType r) \<and>
     match_entry w names (cTitle (rComponents r)) (cYear (rComponents r))"

section \<open>Review and continuity\<close>

datatype review =
    NoReview | GroupDiffersKindUnknown string string | KindDiffers string string string string
  | GroupDiffers string string

definition stable_group_for :: "FolderProjectionEvidence list \<Rightarrow> int \<Rightarrow> string option" where
  "stable_group_for evidence season =
     (case stable_observed_group evidence season of
        Some g \<Rightarrow> Some g | None \<Rightarrow> stable_observed_group_any evidence)"

definition review_reason :: "Candidate \<Rightarrow> FolderProjectionEvidence list \<Rightarrow> review" where
  "review_reason c evidence =
     (if caMediaType c \<noteq> media_series \<or> caDecision c \<noteq> Selected then NoReview
      else case stable_group_for evidence (kSeason (caEpisode c)) of
          None \<Rightarrow> NoReview
        | Some g \<Rightarrow>
            let mine = rGroup (caRelease c);
                kind = tSourceKind (technical_traits_of (rMediaName (caRelease c)));
                expected = orSourceKind (stable_observed_release_traits evidence (kSeason (caEpisode c)))
            in if same g mine then NoReview
               else if kind = [] then GroupDiffersKindUnknown mine g
               else if expected \<noteq> [] \<and> \<not> same expected kind then KindDiffers mine g expected kind
               else GroupDiffers mine g)"

definition graded :: "string \<Rightarrow> string \<Rightarrow> int \<Rightarrow> int \<Rightarrow> int \<Rightarrow> int" where
  "graded expected value hit blank miss =
     (if expected = [] then 0 else if same expected value then hit
      else if trim_space value = [] then blank else miss)"

definition technical_score :: "string \<Rightarrow> string \<Rightarrow> int \<Rightarrow> int \<Rightarrow> int" where
  "technical_score expected value hit miss =
     (if expected = [] then 0 else if same expected value then hit else if value \<noteq> [] then - miss else 0)"

definition resolution_rank :: "string \<Rightarrow> int" where
  "resolution_rank value =
     (let v = to_lower (trim_space value)
      in if v = ''2160p'' then 8 else if v = ''1080p'' then 6 else if v = ''720p'' then 4
         else if v = ''480p'' then 2 else 0)"

definition kind_rank :: "string \<Rightarrow> int" where
  "kind_rank kind = (if kind = ''web'' then 12 else if kind = ''disc'' then 8
     else if kind = ''broadcast'' then 4 else 0)"

definition continuity_score :: "Candidate \<Rightarrow> FolderProjectionEvidence list \<Rightarrow> int" where
  "continuity_score c evidence =
     (let r = caRelease c; season = kSeason (caEpisode c);
          traits = stable_observed_release_traits evidence season;
          technical = technical_traits_of (rMediaName r)
      in (case stable_group_for evidence season of
            Some g \<Rightarrow> (if same g (rGroup r) then 1000 else 0) | None \<Rightarrow> 0)
         + graded (orResolution traits) (rResolution r) 160 (- 25) (- 40)
         + resolution_rank (rResolution r)
         + graded (orSubtitle traits) (rSubtitle r) 70 (- 10) (- 20)
         + (if orSourceKind traits \<noteq> [] \<and> same (orSourceKind traits) (tSourceKind technical) then 90 else 0)
         + (if orSource traits \<noteq> [] \<and> same (orSource traits) (tSource technical) then 35 else 0)
         + (if tSource technical \<noteq> [] then 10 else 0)
         + kind_rank (tSourceKind technical)
         + technical_score (orVideoCodec traits) (tVideoCodec technical) 45 10
         + (if tVideoCodec technical \<noteq> [] then 5 else 0)
         + technical_score (orBitDepth traits) (tBitDepth technical) 25 5
         + technical_score (orAudioCodec traits) (tAudioCodec technical) 15 3
         + (if reliable_episode_evidence (rComponents r) then 10 else 0))"

section \<open>Selection\<close>

definition source_priority :: "Bundle \<Rightarrow> string \<Rightarrow> int" where
  "source_priority b source_id =
     (case get (buSources b) source_id of Some s \<Rightarrow> csPriority s | None \<Rightarrow> 0)"

text \<open>The comparison of times is that of the Go structures: instant and location.\<close>

definition better :: "(Candidate \<Rightarrow> int) \<Rightarrow> Bundle \<Rightarrow> Candidate \<Rightarrow> Candidate \<Rightarrow> bool" where
  "better score b x y =
     (if score x \<noteq> score y then score x > score y
      else if kRevision (caEpisode x) \<noteq> kRevision (caEpisode y)
        then kRevision (caEpisode x) > kRevision (caEpisode y)
      else if source_priority b (caSourceID x) \<noteq> source_priority b (caSourceID y)
        then source_priority b (caSourceID x) < source_priority b (caSourceID y)
      else if rPublishedAt (caRelease x) \<noteq> rPublishedAt (caRelease y)
        then time_after (rPublishedAt (caRelease x)) (rPublishedAt (caRelease y))
      else idID (caAcquisition x) < idID (caAcquisition y))"

definition rank_less :: "(nat \<Rightarrow> nat \<Rightarrow> bool) \<Rightarrow> nat \<Rightarrow> nat \<Rightarrow> bool" where
  "rank_less lt i j = (if lt i j then True else if lt j i then False else i < j)"

fun compare_ranked :: "(nat \<Rightarrow> nat \<Rightarrow> bool) \<Rightarrow> nat list \<Rightarrow> nat list \<Rightarrow> bool option" where
  "compare_ranked lt (i # is') (j # js) = (if i = j then compare_ranked lt is' js else Some (rank_less lt i j))"
| "compare_ranked lt is' js = None"

definition better_selection :: "(nat \<Rightarrow> nat \<Rightarrow> bool) \<Rightarrow> selection \<Rightarrow> selection \<Rightarrow> bool" where
  "better_selection lt a b =
     (if slCoverage a \<noteq> slCoverage b then slCoverage a > slCoverage b
      else case compare_ranked lt (sort_stable (rank_less lt) (slIndexes a))
                  (sort_stable (rank_less lt) (slIndexes b)) of
          Some r \<Rightarrow> r
        | None \<Rightarrow> length (slIndexes a) < length (slIndexes b))"

definition group_key :: "Candidate \<Rightarrow> string" where
  "group_key c =
     (if caMediaType c = media_movie then caEntryKey c @ ''/movie''
      else caEntryKey c @ ''/S'' @ pad0 2 (kSeason (caEpisode c)) @ ''/special='' @
           show_bool (kSpecial (caEpisode c)))"

definition mark :: "decision \<Rightarrow> reason \<Rightarrow> nat \<Rightarrow> Candidate list \<Rightarrow> Candidate list" where
  "mark d why i cs = cs[i := (cs ! i)\<lparr> caDecision := d, caReason := why \<rparr>]"

definition movie_selection :: "(Candidate \<Rightarrow> Candidate \<Rightarrow> bool) \<Rightarrow> nat list \<Rightarrow> Candidate list \<Rightarrow> Candidate list" where
  "movie_selection lt idx cs =
     (case sort_stable (\<lambda>i j. lt (cs ! i) (cs ! j)) idx of
        [] \<Rightarrow> cs
      | winner # others \<Rightarrow>
          fold (mark Superseded (SupersededBy (idID (caAcquisition (cs ! winner))))) others
            (cs[winner := (cs ! winner)\<lparr> caReason := BestForMovie \<rparr>]))"

definition season_order :: "(Candidate \<Rightarrow> Candidate \<Rightarrow> bool) \<Rightarrow> Candidate list \<Rightarrow> nat \<Rightarrow> nat \<Rightarrow> bool" where
  "season_order lt cs i j =
     (let x = caEpisode (cs ! i); y = caEpisode (cs ! j)
      in if key_end x \<noteq> key_end y then key_end x < key_end y
         else if kEpisodeStart x \<noteq> kEpisodeStart y then kEpisodeStart x < kEpisodeStart y
         else lt (cs ! i) (cs ! j))"

definition season_choice :: "(Candidate \<Rightarrow> Candidate \<Rightarrow> bool) \<Rightarrow> nat list \<Rightarrow> Candidate list \<Rightarrow> nat list" where
  "season_choice lt idx cs =
     slIndexes (schedule (\<lambda>i. kEpisodeStart (caEpisode (cs ! i))) (\<lambda>i. key_end (caEpisode (cs ! i)))
       (\<lambda>i. key_width (caEpisode (cs ! i))) (better_selection (\<lambda>i j. lt (cs ! i) (cs ! j))) idx)"

text \<open>\<open>visit\<close> is the order in which the map of winners is iterated.\<close>

definition supersede ::
    "(nat list \<Rightarrow> nat list) \<Rightarrow> (Candidate \<Rightarrow> Candidate \<Rightarrow> bool) \<Rightarrow> nat list \<Rightarrow> nat \<Rightarrow> Candidate list \<Rightarrow> Candidate list" where
  "supersede visit lt chosen i cs =
     (if i \<in> set chosen then cs
      else case sort_stable (\<lambda>a b. lt (cs ! a) (cs ! b))
                  (filter (\<lambda>v. key_overlaps (caEpisode (cs ! i)) (caEpisode (cs ! v))) (visit chosen)) of
          winner # _ \<Rightarrow> mark Superseded (OverlapSupersededBy (idID (caAcquisition (cs ! winner)))) i cs
        | [] \<Rightarrow> mark Superseded BetterSet i cs)"

definition season_selection ::
    "(nat list \<Rightarrow> nat list) \<Rightarrow> (Candidate \<Rightarrow> Candidate \<Rightarrow> bool) \<Rightarrow> nat list \<Rightarrow> Candidate list \<Rightarrow> Candidate list" where
  "season_selection visit lt idx cs =
     (let ordered = sort_stable (season_order lt cs) idx;
          chosen = season_choice lt ordered cs
      in fold (supersede visit lt chosen) ordered
           (fold (\<lambda>i cs. cs[i := (cs ! i)\<lparr> caReason := BestSet \<rparr>]) chosen cs))"

definition select_group ::
    "(nat list \<Rightarrow> nat list) \<Rightarrow> (Candidate \<Rightarrow> Candidate \<Rightarrow> bool) \<Rightarrow> nat list \<Rightarrow> Candidate list \<Rightarrow> Candidate list" where
  "select_group visit lt idx cs =
     (if length idx < 2 then cs
      else if caMediaType (cs ! hd idx) = media_movie then movie_selection lt idx cs
      else season_selection visit lt idx cs)"

definition selected_groups :: "Candidate list \<Rightarrow> (string, nat list) gomap" where
  "selected_groups cs =
     group_into (\<lambda>i. group_key (cs ! i)) (filter (\<lambda>i. caDecision (cs ! i) = Selected) [0 ..< length cs])"

definition select_best ::
    "(nat list \<Rightarrow> nat list) \<Rightarrow> Bundle \<Rightarrow> (Candidate \<Rightarrow> int) \<Rightarrow> Plan \<Rightarrow> Plan" where
  "select_best visit b score p =
     p\<lparr> plCandidates := fold (\<lambda>(_, idx). select_group visit (better score b) idx)
                         (selected_groups (plCandidates p)) (plCandidates p) \<rparr>"

section \<open>Plans\<close>

definition sorted_entries :: "(string, Catalog.Entry) gomap \<Rightarrow> Catalog.Entry list" where
  "sorted_entries m = sort_key eKey (map snd m)"

definition sources_for_entry :: "Bundle \<Rightarrow> Catalog.Entry \<Rightarrow> string list" where
  "sources_for_entry b w =
     sort (fold (\<lambda>i out. append_unique out i) (effective_sources w (enabled_source_ids b)) [])"

type_synonym gathered = "string list \<times> Candidate list"

definition take_candidate :: "Candidate \<Rightarrow> gathered \<Rightarrow> gathered" where
  "take_candidate c st =
     (let (seen, cs) = st; i = idID (caAcquisition c)
      in if caDecision c \<noteq> Selected then (seen, cs @ [c])
         else if i \<in> set seen
           then (seen, cs @ [c\<lparr> caDecision := Duplicate, caReason := DuplicateRelease \<rparr>])
         else (i # seen, cs @ [c]))"

definition take_release ::
    "'x url_ops_scheme \<Rightarrow> Catalog.Entry \<Rightarrow> EntryEvidence \<Rightarrow> FolderProjectionEvidence list \<Rightarrow> string \<Rightarrow>
     Release \<Rightarrow> gathered \<Rightarrow> gathered" where
  "take_release ops w names evidence source_id r st =
     (if rMediaType r \<noteq> [] \<and> rMediaType r \<noteq> eMediaType w then st
      else if \<not> matches_work w names r then st
      else take_candidate (evaluate ops w source_id r evidence) st)"

definition take_source ::
    "'x url_ops_scheme \<Rightarrow> Bundle \<Rightarrow> (string, Release list) gomap \<Rightarrow> Catalog.Entry \<Rightarrow> EntryEvidence \<Rightarrow>
     FolderProjectionEvidence list \<Rightarrow> string \<Rightarrow> gathered \<Rightarrow> gathered" where
  "take_source ops b by_source w names evidence source_id st =
     (case get (buSources b) source_id of
        None \<Rightarrow> st
      | Some source \<Rightarrow>
          if \<not> csEnabled source then st
          else fold (take_release ops w names evidence source_id) (get_or [] by_source source_id) st)"

definition no_names :: EntryEvidence where
  "no_names = \<lparr> neNames = [], neSearch = [] \<rparr>"

definition take_entry ::
    "'x url_ops_scheme \<Rightarrow> Bundle \<Rightarrow> (string, Release list) gomap \<Rightarrow> (string, EntryEvidence) gomap \<Rightarrow>
     (string, FolderProjectionEvidence list) gomap \<Rightarrow> Catalog.Entry \<Rightarrow> gathered \<Rightarrow> gathered" where
  "take_entry ops b by_source names evidence_by_entry w st =
     fold (take_source ops b by_source w (get_or no_names names (eKey w))
             (get_or [] evidence_by_entry (eKey w)))
       (sources_for_entry b w) st"

definition gather_observed ::
    "'x url_ops_scheme \<Rightarrow> Bundle \<Rightarrow> (string, Release list) gomap \<Rightarrow> (string, EntryEvidence) gomap \<Rightarrow>
     (string, FolderProjectionEvidence list) gomap \<Rightarrow> gathered" where
  "gather_observed ops b by_source names evidence_by_entry =
     fold (take_entry ops b by_source names evidence_by_entry) (sorted_entries (buEntries b)) ([], [])"

definition build_observed ::
    "(nat list \<Rightarrow> nat list) \<Rightarrow> 'x url_ops_scheme \<Rightarrow> Bundle \<Rightarrow> (string, Release list) gomap \<Rightarrow>
     (string, EntryEvidence) gomap \<Rightarrow> (string, FolderProjectionEvidence list) gomap \<Rightarrow> Plan" where
  "build_observed visit ops b by_source names evidence_by_entry =
     select_best visit b (\<lambda>c. continuity_score c (get_or [] evidence_by_entry (caEntryKey c)))
       \<lparr> plCandidates = snd (gather_observed ops b by_source names evidence_by_entry), plWarnings = [] \<rparr>"

text \<open>
  A plan bound to one Entry. \<open>cancelled n\<close> is what the n-th look at the context's error says;
  the loops stop at the first one that is set.
\<close>

fun bound_releases ::
    "(nat \<Rightarrow> bool) \<Rightarrow> 'x url_ops_scheme \<Rightarrow> Catalog.Entry \<Rightarrow> string \<Rightarrow> FolderProjectionEvidence list \<Rightarrow> string \<Rightarrow>
     Release list \<Rightarrow> nat \<Rightarrow> nat \<Rightarrow> gathered \<Rightarrow> plan_error + (nat \<times> nat \<times> gathered)" where
  "bound_releases cancelled ops w entry_key evidence source_id [] looks skipped st = Inr (looks, skipped, st)"
| "bound_releases cancelled ops w entry_key evidence source_id (r # rs) looks skipped st =
     (if cancelled looks then Inl PlanCancelled
      else if rMediaType r \<noteq> [] \<and> rMediaType r \<noteq> eMediaType w then
        bound_releases cancelled ops w entry_key evidence source_id rs (Suc looks) (Suc skipped)
          (fst st, snd st @ [(new_candidate w source_id r Invalid
             (OtherMediaType (rMediaType r) (eMediaType w)))\<lparr> caEntryKey := entry_key \<rparr>])
      else bound_releases cancelled ops w entry_key evidence source_id rs (Suc looks) skipped
             (take_candidate (evaluate ops w source_id r evidence) st))"

fun bound_sources ::
    "(nat \<Rightarrow> bool) \<Rightarrow> 'x url_ops_scheme \<Rightarrow> Bundle \<Rightarrow> Catalog.Entry \<Rightarrow> string \<Rightarrow> FolderProjectionEvidence list \<Rightarrow>
     (string \<times> Release list) list \<Rightarrow> nat \<Rightarrow> plan_warning list \<Rightarrow> gathered \<Rightarrow>
     plan_error + (plan_warning list \<times> gathered)" where
  "bound_sources cancelled ops b w entry_key evidence [] looks warnings st = Inr (warnings, st)"
| "bound_sources cancelled ops b w entry_key evidence ((source_id, rs) # rest) looks warnings st =
     (case get (buSources b) source_id of
        None \<Rightarrow> Inl (SourceNotFound source_id)
      | Some source \<Rightarrow>
          if \<not> csEnabled source then Inl (SourceDisabled source_id)
          else case bound_releases cancelled ops w entry_key evidence source_id rs looks 0 st of
              Inl e \<Rightarrow> Inl e
            | Inr (looks', skipped, st') \<Rightarrow>
                bound_sources cancelled ops b w entry_key evidence rest looks'
                  (warnings @ (if skipped > 0 then [SkippedMediaType source_id skipped] else [])) st')"

definition build_bound_plan ::
    "(nat \<Rightarrow> bool) \<Rightarrow> (nat list \<Rightarrow> nat list) \<Rightarrow> 'x url_ops_scheme \<Rightarrow> Bundle \<Rightarrow> string \<Rightarrow>
     (string, Release list) gomap \<Rightarrow> FolderProjectionEvidence list \<Rightarrow> plan_error + Plan" where
  "build_bound_plan cancelled visit ops b entry_key by_source evidence =
     (if cancelled 0 then Inl PlanCancelled
      else case get (buEntries b) entry_key of
          None \<Rightarrow> Inl (EntryNotFound entry_key)
        | Some w \<Rightarrow>
            (case bound_sources cancelled ops b w entry_key evidence (sort_key fst by_source) 1 [] ([], []) of
               Inl e \<Rightarrow> Inl e
             | Inr (warnings, (seen, cs)) \<Rightarrow>
                 Inr (select_best visit b (\<lambda>c. continuity_score c evidence)
                        \<lparr> plCandidates = cs, plWarnings = warnings \<rparr>)))"

definition build_bound ::
    "bool \<Rightarrow> 'x url_ops_scheme \<Rightarrow> Bundle \<Rightarrow> string \<Rightarrow> string \<Rightarrow> Release \<Rightarrow> FolderProjectionEvidence list \<Rightarrow>
     plan_error + Candidate" where
  "build_bound cancelled ops b entry_key source_id r evidence =
     (if cancelled then Inl PlanCancelled
      else case get (buEntries b) entry_key of
          None \<Rightarrow> Inl (EntryNotFound entry_key)
        | Some w \<Rightarrow>
            (case get (buSources b) source_id of
               None \<Rightarrow> Inl (SourceNotFound source_id)
             | Some source \<Rightarrow>
                 if \<not> csEnabled source then Inl (SourceDisabled source_id)
                 else if rMediaType r \<noteq> [] \<and> rMediaType r \<noteq> eMediaType w
                   then Inl (MediaTypeMismatch (rMediaType r) (eMediaType w))
                 else Inr (evaluate ops w source_id r evidence)))"

section \<open>The preference is coverage first\<close>

interpretation season_plan: coverage_first "better_selection lt" for lt
  by unfold_locales (auto simp: better_selection_def split: if_splits)

end
