(* ===== verification/PlanProofs.thy ===== *)
theory PlanProofs
  imports Candidate
begin

text \<open>
  The correctness of the selection of package candidate: among the candidates of one season
  the selected ranges do not overlap and cover as many episodes as any choice could, every
  candidate that lost overlaps a winner, a film keeps one release, and no acquisition is
  selected twice.
\<close>

section \<open>What a step may touch\<close>

definition core :: "Candidate \<Rightarrow> Candidate" where
  "core c = c\<lparr> caDecision := Selected, caReason := NoReason \<rparr>"

lemma core_simps [simp]:
  "core (c\<lparr> caDecision := d \<rparr>) = core c" "core (c\<lparr> caReason := r \<rparr>) = core c"
  "core (c\<lparr> caDecision := d, caReason := r \<rparr>) = core c"
  by (simp_all add: core_def)

lemma core_eqD:
  assumes "core c = core d"
  shows "caMediaType c = caMediaType d" "caEntryKey c = caEntryKey d" "caEpisode c = caEpisode d"
    "caAcquisition c = caAcquisition d" "caSourceID c = caSourceID d" "caRelease c = caRelease d"
  using assms by (cases c; cases d; simp add: core_def)+

definition retouch :: "nat set \<Rightarrow> Candidate list \<Rightarrow> Candidate list \<Rightarrow> bool" where
  "retouch S cs cs' \<longleftrightarrow>
     length cs' = length cs \<and> (\<forall>i. core (cs' ! i) = core (cs ! i)) \<and> (\<forall>i. i \<notin> S \<longrightarrow> cs' ! i = cs ! i)"

lemma retouch_refl [simp]: "retouch S cs cs"
  by (simp add: retouch_def)

lemma retouch_trans: "retouch S cs cs' \<Longrightarrow> retouch T cs' cs'' \<Longrightarrow> retouch (S \<union> T) cs cs''"
  by (simp add: retouch_def)

lemma retouch_mono: "retouch S cs cs' \<Longrightarrow> S \<subseteq> T \<Longrightarrow> retouch T cs cs'"
  by (auto simp: retouch_def)

lemma retouch_update: "core c = core (cs ! i) \<Longrightarrow> retouch {i} cs (cs[i := c])"
  by (cases "i < length cs") (auto simp: retouch_def nth_list_update list_update_beyond)

lemma retouch_mark: "retouch {i} cs (mark d why i cs)"
  by (simp add: mark_def retouch_update)

lemma retouch_fold:
  assumes "\<And>x cs. x \<in> set xs \<Longrightarrow> retouch (S x) cs (f x cs)"
  shows "retouch (\<Union>x \<in> set xs. S x) cs (fold f xs cs)"
  using assms
proof (induction xs arbitrary: cs)
  case (Cons x xs)
  have "retouch (S x) cs (f x cs)" by (intro Cons.prems) simp
  moreover have "retouch (\<Union>x \<in> set xs. S x) (f x cs) (fold f xs (f x cs))"
    by (intro Cons.IH Cons.prems) simp
  ultimately show ?case using retouch_trans by fastforce
qed simp

lemma retouch_decision: "retouch S cs cs' \<Longrightarrow> i \<notin> S \<Longrightarrow> caDecision (cs' ! i) = caDecision (cs ! i)"
  by (simp add: retouch_def)

section \<open>One group\<close>

lemma mark_decision: "i < length cs \<Longrightarrow> caDecision (mark d why i cs ! i) = d"
  by (simp add: mark_def)

lemma fold_mark_decision:
  assumes "i \<in> set xs" "i < length cs"
  shows "caDecision (fold (mark d why) xs cs ! i) = d"
  using assms
proof (induction xs rule: rev_induct)
  case (snoc x xs)
  let ?cs = "fold (mark d why) xs cs"
  have len: "length ?cs = length cs"
    using retouch_fold [of xs "\<lambda>x. {x}" "mark d why" cs] retouch_mark by (auto simp: retouch_def)
  show ?case
  proof (cases "x = i")
    case True
    with snoc len show ?thesis by (simp add: mark_decision)
  next
    case False
    with snoc show ?thesis using retouch_decision [OF retouch_mark, of i x d why ?cs] by simp
  qed
qed simp

lemma retouch_supersede: "retouch ({i} - set chosen) cs (supersede visit lt chosen i cs)"
proof (cases "i \<in> set chosen")
  case False
  then have "{i} - set chosen = {i}" by blast
  then show ?thesis using retouch_mark by (simp add: supersede_def split: list.split)
qed (simp add: supersede_def)

lemma supersede_decision:
  assumes "i \<notin> set chosen" "i < length cs"
  shows "caDecision (supersede visit lt chosen i cs ! i) = Superseded"
  using assms by (simp add: supersede_def mark_def split: list.splits)

lemma retouch_fold_supersede:
  "retouch (set xs - set chosen) cs (fold (supersede visit lt chosen) xs cs)"
  using retouch_fold [of xs "\<lambda>i. {i} - set chosen" "supersede visit lt chosen" cs] retouch_supersede
  by (auto intro: retouch_mono)

lemma fold_supersede_decision:
  assumes "i \<in> set xs" "i \<notin> set chosen" "i < length cs"
  shows "caDecision (fold (supersede visit lt chosen) xs cs ! i) = Superseded"
  using assms
proof (induction xs rule: rev_induct)
  case (snoc x xs)
  let ?cs = "fold (supersede visit lt chosen) xs cs"
  have len: "length ?cs = length cs" using retouch_fold_supersede by (auto simp: retouch_def)
  show ?case
  proof (cases "x = i")
    case True
    with snoc len show ?thesis by (simp add: supersede_decision)
  next
    case False
    then have "caDecision (supersede visit lt chosen x ?cs ! i) = caDecision (?cs ! i)"
      by (intro retouch_decision [OF retouch_supersede]) simp
    with snoc False show ?thesis by simp
  qed
qed simp

text \<open>
  A group is settled: of a film one candidate is selected, of a season those of an optimal
  choice among the ranges in order of their ends; the others are superseded.
\<close>

definition range_of :: "(nat \<Rightarrow> Key) \<Rightarrow> nat list \<Rightarrow> selection \<Rightarrow> bool" where
  "range_of ep = optimal (\<lambda>i. kEpisodeStart (ep i)) (\<lambda>i. key_end (ep i)) (\<lambda>i. key_width (ep i))"

definition decided :: "Candidate list \<Rightarrow> nat list \<Rightarrow> nat list \<Rightarrow> bool" where
  "decided cs idx chosen \<longleftrightarrow>
     (\<forall>i \<in> set idx. caDecision (cs ! i) = (if i \<in> set chosen then Selected else Superseded))"

definition settled :: "Candidate list \<Rightarrow> nat list \<Rightarrow> bool" where
  "settled cs idx \<longleftrightarrow>
     (if caMediaType (cs ! hd idx) = media_movie
      then \<exists>winner \<in> set idx. decided cs idx [winner]
      else \<exists>ordered s. mset ordered = mset idx \<and> sorted (map (\<lambda>i. key_end (caEpisode (cs ! i))) ordered) \<and>
             range_of (\<lambda>i. caEpisode (cs ! i)) ordered s \<and> decided cs idx (slIndexes s))"

lemma settled_retouch:
  assumes "retouch S cs cs'" "set idx \<inter> S = {}" "idx \<noteq> []"
  shows "settled cs' idx = settled cs idx"
proof -
  have "caEpisode (cs' ! i) = caEpisode (cs ! i)" "caMediaType (cs' ! i) = caMediaType (cs ! i)" for i
    using assms(1) core_eqD [of "cs' ! i" "cs ! i"] by (auto simp: retouch_def)
  moreover have "decided cs' idx js = decided cs idx js" for js
    unfolding decided_def
  proof (rule ball_cong [OF refl])
    fix i assume "i \<in> set idx"
    then have "i \<notin> S" using assms(2) by blast
    then show "(caDecision (cs' ! i) = (if i \<in> set js then Selected else Superseded)) =
      (caDecision (cs ! i) = (if i \<in> set js then Selected else Superseded))"
      by (simp add: retouch_decision [OF assms(1)])
  qed
  ultimately show ?thesis by (simp add: settled_def)
qed

lemma movie_selection_settled:
  assumes "idx \<noteq> []" "distinct idx" "\<forall>i \<in> set idx. i < length cs \<and> caDecision (cs ! i) = Selected"
  shows "retouch (set idx) cs (movie_selection lt idx cs) \<and>
    (\<exists>winner \<in> set idx. decided (movie_selection lt idx cs) idx [winner])"
proof -
  obtain v vs where v: "sort_stable (\<lambda>i j. lt (cs ! i) (cs ! j)) idx = v # vs"
    using assms(1) by (cases "sort_stable (\<lambda>i j. lt (cs ! i) (cs ! j)) idx")
      (auto dest: arg_cong [of _ _ set])
  then have set: "set idx = insert v (set vs)" by (metis list.simps(15) set_sort_stable)
  have d: "v \<notin> set vs" using assms(2) v by (metis distinct.simps(2) distinct_sort_stable)
  let ?cs = "cs[v := (cs ! v)\<lparr> caReason := BestForMovie \<rparr>]"
  let ?f = "mark Superseded (SupersededBy (idID (caAcquisition (cs ! v))))"
  have res: "movie_selection lt idx cs = fold ?f vs ?cs" by (simp add: movie_selection_def v)
  have r1: "retouch {v} cs ?cs" by (rule retouch_update) simp
  have r2: "retouch (set vs) ?cs (fold ?f vs ?cs)"
    using retouch_fold [of vs "\<lambda>x. {x}" ?f ?cs] retouch_mark by simp
  have "retouch (set idx) cs (movie_selection lt idx cs)"
    using retouch_trans [OF r1 r2] unfolding res set by simp
  moreover have "decided (fold ?f vs ?cs) idx [v]"
  proof -
    have "caDecision (fold ?f vs ?cs ! i) = Superseded" if "i \<in> set vs" for i
      using fold_mark_decision [OF that, of ?cs] assms(3) set that by simp
    moreover have "caDecision (fold ?f vs ?cs ! v) = Selected"
      using retouch_decision [OF r2 d] assms(3) set by simp
    ultimately show ?thesis using d by (auto simp: decided_def set)
  qed
  ultimately show ?thesis unfolding res using set by blast
qed

lemma season_order_refines: "refines_key (season_order lt cs) (\<lambda>i. key_end (caEpisode (cs ! i)))"
  by (auto simp: refines_key_def season_order_def Let_def split: if_splits)

lemma season_selection_settled:
  assumes "\<forall>i \<in> set idx. i < length cs \<and> caDecision (cs ! i) = Selected"
  shows "retouch (set idx) cs (season_selection visit lt idx cs) \<and>
    (\<exists>ordered s. mset ordered = mset idx \<and> sorted (map (\<lambda>i. key_end (caEpisode (cs ! i))) ordered) \<and>
       range_of (\<lambda>i. caEpisode (cs ! i)) ordered s \<and> decided (season_selection visit lt idx cs) idx (slIndexes s))"
proof -
  let ?ordered = "sort_stable (season_order lt cs) idx"
  let ?s = "schedule (\<lambda>i. kEpisodeStart (caEpisode (cs ! i))) (\<lambda>i. key_end (caEpisode (cs ! i)))
    (\<lambda>i. key_width (caEpisode (cs ! i))) (better_selection (\<lambda>i j. lt (cs ! i) (cs ! j))) ?ordered"
  let ?chosen = "slIndexes ?s"
  let ?praise = "\<lambda>i cs. cs[i := (cs ! i)\<lparr> caReason := BestSet \<rparr>]"
  let ?cs = "fold ?praise ?chosen cs"
  have sorted: "sorted (map (\<lambda>i. key_end (caEpisode (cs ! i))) ?ordered)"
    by (rule sorted_sort_stable [OF season_order_refines])
  then have opt: "range_of (\<lambda>i. caEpisode (cs ! i)) ?ordered ?s"
    unfolding range_of_def by (rule season_plan.schedule_optimal)
  then have "subseq ?chosen ?ordered" by (simp add: range_of_def optimal_def)
  then have sub: "set ?chosen \<subseteq> set idx" using set_subseq by force
  have r1: "retouch (set ?chosen) cs ?cs"
    using retouch_fold [of ?chosen "\<lambda>x. {x}" ?praise cs] retouch_update by simp
  have d1: "caDecision (?cs ! i) = caDecision (cs ! i)" for i
  proof -
    have "\<forall>i. caDecision (fold ?praise xs cs' ! i) = caDecision (cs' ! i)" for xs cs'
    proof (induction xs arbitrary: cs')
      case (Cons x xs)
      then show ?case
        by (cases "x < length cs'") (simp_all add: nth_list_update list_update_beyond)
    qed simp
    then show ?thesis by blast
  qed
  have res: "season_selection visit lt idx cs = fold (supersede visit lt ?chosen) ?ordered ?cs"
    by (simp add: season_selection_def season_choice_def Let_def)
  have r2: "retouch (set idx - set ?chosen) ?cs (season_selection visit lt idx cs)"
    unfolding res using retouch_fold_supersede [of ?ordered ?chosen] by simp
  have len: "length ?cs = length cs" using r1 by (simp add: retouch_def)
  have "decided (season_selection visit lt idx cs) idx ?chosen"
    unfolding decided_def
  proof
    fix i assume i: "i \<in> set idx"
    show "caDecision (season_selection visit lt idx cs ! i) = (if i \<in> set ?chosen then Selected else Superseded)"
    proof (cases "i \<in> set ?chosen")
      case True
      then show ?thesis using retouch_decision [OF r2, of i] d1 assms i by simp
    next
      case False
      then show ?thesis unfolding res using fold_supersede_decision [of i ?ordered ?chosen ?cs] assms i len by simp
    qed
  qed
  moreover have "retouch (set idx) cs (season_selection visit lt idx cs)"
    using retouch_trans [OF r1 r2] sub by (auto intro: retouch_mono)
  ultimately show ?thesis using sorted opt by (intro conjI exI [of _ ?ordered] exI [of _ ?s]) simp_all
qed

section \<open>All groups\<close>

lemma select_group_settled:
  assumes "idx \<noteq> []" "distinct idx" "\<forall>i \<in> set idx. i < length cs \<and> caDecision (cs ! i) = Selected"
  shows "retouch (set idx) cs (select_group visit lt idx cs) \<and> settled (select_group visit lt idx cs) idx"
proof (cases "length idx < 2")
  case True
  then obtain i where i: "idx = [i]" using assms(1) by (cases idx) (auto split: list.splits)
  let ?ep = "caEpisode (cs ! i)"
  have "optimal (\<lambda>i. kEpisodeStart (caEpisode (cs ! i))) (\<lambda>i. key_end (caEpisode (cs ! i)))
      (\<lambda>i. key_width (caEpisode (cs ! i))) [i] \<lparr> slIndexes = [i], slCoverage = key_width ?ep \<rparr>"
  proof -
    have "total_width (\<lambda>i. key_width (caEpisode (cs ! i))) js \<le> key_width ?ep" if "subseq js [i]" for js
    proof -
      from that have "js = [] \<or> js = [i]" by (cases js) (auto split: if_splits dest: list_emb_Nil2)
      then show ?thesis using width_card [of ?ep] by (auto simp: total_width_def)
    qed
    then show ?thesis by (simp add: optimal_def separated_def total_width_def)
  qed
  then have "range_of (\<lambda>i. caEpisode (cs ! i)) [i] \<lparr> slIndexes = [i], slCoverage = key_width ?ep \<rparr>"
    by (simp add: range_of_def)
  moreover have "decided cs [i] [i]" using assms(3) by (simp add: i decided_def)
  ultimately have "settled cs idx" unfolding settled_def i
    by (auto intro!: exI [of _ "[i]"] exI [of _ "\<lparr> slIndexes = [i], slCoverage = key_width ?ep \<rparr>"])
  then show ?thesis using True by (simp add: select_group_def)
next
  case False
  note long = False
  let ?cs = "select_group visit lt idx cs"
  show ?thesis
  proof (cases "caMediaType (cs ! hd idx) = media_movie")
    case True
    then have res: "?cs = movie_selection lt idx cs" using long by (simp add: select_group_def)
    note m = movie_selection_settled [OF assms, of lt]
    then have "caMediaType (?cs ! hd idx) = media_movie"
      using True core_eqD(1) [of "?cs ! hd idx" "cs ! hd idx"] res by (auto simp: retouch_def)
    then show ?thesis using m unfolding settled_def res by simp
  next
    case False
    then have res: "?cs = season_selection visit lt idx cs" using long by (simp add: select_group_def)
    note m = season_selection_settled [OF assms(3), of visit lt]
    have same: "caEpisode (?cs ! i) = caEpisode (cs ! i)" "caMediaType (?cs ! i) = caMediaType (cs ! i)" for i
      using m core_eqD [of "?cs ! i" "cs ! i"] res by (auto simp: retouch_def)
    show ?thesis using m False unfolding settled_def same unfolding res by simp
  qed
qed

definition groups_ok :: "Candidate list \<Rightarrow> (string, nat list) gomap \<Rightarrow> bool" where
  "groups_ok cs gs \<longleftrightarrow>
     (\<forall>(k, idx) \<in> set gs. idx \<noteq> [] \<and> distinct idx \<and>
        (\<forall>i \<in> set idx. i < length cs \<and> caDecision (cs ! i) = Selected \<and> group_key (cs ! i) = k)) \<and>
     distinct (map fst gs)"

lemma groups_ok_selected: "groups_ok cs (selected_groups cs)"
proof -
  let ?idx = "filter (\<lambda>i. caDecision (cs ! i) = Selected) [0 ..< length cs]"
  have "idx \<noteq> [] \<and> distinct idx \<and>
      (\<forall>i \<in> set idx. i < length cs \<and> caDecision (cs ! i) = Selected \<and> group_key (cs ! i) = k)"
    if "(k, idx) \<in> set (selected_groups cs)" for k idx
    using group_into_elem [of k idx "\<lambda>i. group_key (cs ! i)" ?idx] that by (auto simp: selected_groups_def)
  moreover have "distinct (map fst (selected_groups cs))"
    using wf_group_into by (simp add: selected_groups_def)
  ultimately show ?thesis by (auto simp: groups_ok_def)
qed

lemma groups_disjoint:
  assumes "groups_ok cs gs" "(k, a) \<in> set gs" "(l, b) \<in> set gs" "k \<noteq> l"
  shows "set a \<inter> set b = {}"
proof -
  have "group_key (cs ! i) = k" if "i \<in> set a" for i
    using assms(1,2) that by (auto simp: groups_ok_def)
  moreover have "group_key (cs ! i) = l" if "i \<in> set b" for i
    using assms(1,3) that by (auto simp: groups_ok_def)
  ultimately show ?thesis using assms(4) by blast
qed

lemma select_groups_settled:
  assumes "groups_ok cs gs"
  shows "retouch (\<Union>(k, idx) \<in> set gs. set idx) cs (fold (\<lambda>(_, idx). select_group visit lt idx) gs cs) \<and>
    (\<forall>(k, idx) \<in> set gs. settled (fold (\<lambda>(_, idx). select_group visit lt idx) gs cs) idx)"
  using assms
proof (induction gs rule: rev_induct)
  case Nil
  then show ?case by simp
next
  case (snoc g gs)
  obtain k idx where g: "g = (k, idx)" by force
  let ?f = "\<lambda>(_, idx). select_group visit lt idx"
  let ?S = "\<Union>(k, idx) \<in> set gs. set idx" and ?cs = "fold ?f gs cs"
  have "groups_ok cs gs" using snoc.prems by (auto simp: groups_ok_def)
  with snoc.IH have ih: "retouch ?S cs ?cs" "\<forall>(k, idx) \<in> set gs. settled ?cs idx" by blast+
  have new: "idx \<noteq> []" "distinct idx"
    "\<forall>i \<in> set idx. i < length cs \<and> caDecision (cs ! i) = Selected"
    using snoc.prems by (auto simp: groups_ok_def g)
  have apart: "set idx \<inter> set b = {}" if "(l, b) \<in> set gs" for l b
  proof -
    have "l \<noteq> k" using snoc.prems that by (force simp: groups_ok_def g)
    then show ?thesis using groups_disjoint [OF snoc.prems, of k idx l b] that g by simp
  qed
  have "i < length ?cs \<and> caDecision (?cs ! i) = Selected" if "i \<in> set idx" for i
  proof -
    have "i \<notin> ?S" using apart that by fastforce
    then show ?thesis using ih(1) new(3) that by (simp add: retouch_def)
  qed
  then have step: "retouch (set idx) ?cs (select_group visit lt idx ?cs)"
      "settled (select_group visit lt idx ?cs) idx"
    using select_group_settled [OF new(1,2)] by blast+
  have "settled (select_group visit lt idx ?cs) b" if b: "(l, b) \<in> set gs" for l b
  proof -
    have "b \<noteq> []" using snoc.prems b by (auto simp: groups_ok_def)
    then show ?thesis
      using settled_retouch [OF step(1), of b] apart [OF b] ih(2) b by auto
  qed
  moreover have "retouch (?S \<union> set idx) cs (select_group visit lt idx ?cs)"
    using retouch_trans [OF ih(1) step(1)] .
  ultimately show ?case using step(2) by (auto simp: g Un_commute)
qed

section \<open>Group keys\<close>

definition season_like :: "Candidate \<Rightarrow> Candidate \<Rightarrow> bool" where
  "season_like c d \<longleftrightarrow> caEntryKey c = caEntryKey d \<and>
     kSeason (caEpisode c) = kSeason (caEpisode d) \<and> kSpecial (caEpisode c) = kSpecial (caEpisode d)"

lemma group_key_series:
  assumes "caMediaType c \<noteq> media_movie" "caMediaType d \<noteq> media_movie"
  shows "group_key c = group_key d \<longleftrightarrow> season_like c d"
proof
  let ?c = "CHR ''/''"
  let ?sp = "\<lambda>c. ''special='' @ show_bool (kSpecial (caEpisode c))"
  let ?se = "\<lambda>c. ''S'' @ pad0 2 (kSeason (caEpisode c))"
  assume eq: "group_key c = group_key d"
  have shape: "group_key c = (caEntryKey c @ ?c # ?se c) @ ?c # ?sp c" if "caMediaType c \<noteq> media_movie" for c
    using that by (simp add: group_key_def)
  have ns: "?c \<notin> set (?sp c)" "?c \<notin> set (?se c)" for c
    using pad0_no_slash by (simp_all add: show_bool_def)
  from last_sep_unique [OF ns(1) [of c] ns(1) [of d]] eq
  have 1: "caEntryKey c @ ?c # ?se c = caEntryKey d @ ?c # ?se d" "?sp c = ?sp d"
    unfolding shape [OF assms(1)] shape [OF assms(2)] by blast+
  from last_sep_unique [OF ns(2) [of c] ns(2) [of d] 1(1)]
  have 2: "caEntryKey c = caEntryKey d" "?se c = ?se d" by blast+
  then have "kSeason (caEpisode c) = kSeason (caEpisode d)" using pad0_inj by simp
  moreover have "kSpecial (caEpisode c) = kSpecial (caEpisode d)"
    using 1(2) by (simp add: show_bool_def split: if_splits)
  ultimately show "season_like c d" using 2(1) by (simp add: season_like_def)
qed (use assms in \<open>simp add: season_like_def group_key_def\<close>)

lemma group_key_movie: "caMediaType c = media_movie \<Longrightarrow> caMediaType d = media_movie \<Longrightarrow>
    group_key c = group_key d \<longleftrightarrow> caEntryKey c = caEntryKey d"
  by (simp add: group_key_def)

lemma group_key_kind:
  assumes "group_key c = group_key d"
  shows "caMediaType c = media_movie \<longleftrightarrow> caMediaType d = media_movie"
proof -
  have m: "last (group_key c) = CHR ''e'' \<and> last (butlast (group_key c)) = CHR ''i''"
    if "caMediaType c = media_movie" for c
    using that by (simp add: group_key_def last_append butlast_append)
  have s: "last (butlast (group_key c)) \<noteq> CHR ''i''" if "caMediaType c \<noteq> media_movie" for c
    using that by (simp add: group_key_def show_bool_def last_append butlast_append)
  show ?thesis using m [of c] m [of d] s [of c] s [of d] assms by metis
qed

section \<open>Gathered candidates\<close>

definition usable :: "Candidate \<Rightarrow> bool" where
  "usable c \<longleftrightarrow> kEntryKey (caEpisode c) = caEntryKey c \<and>
     (caMediaType c \<noteq> media_movie \<longrightarrow> kEpisodeStart (caEpisode c) > 0)"

definition sound :: "Candidate \<Rightarrow> bool" where
  "sound c \<longleftrightarrow> caDecision c \<noteq> Superseded \<and> (caDecision c = Selected \<longrightarrow> usable c)"

definition gathered_ok :: "gathered \<Rightarrow> bool" where
  "gathered_ok st \<longleftrightarrow>
     (\<forall>c \<in> set (snd st). sound c) \<and>
     rev (fst st) = map (\<lambda>c. idID (caAcquisition c)) (filter (\<lambda>c. caDecision c = Selected) (snd st)) \<and>
     distinct (fst st)"

lemma sound_identity: "usable c \<Longrightarrow> sound (with_identity ops c)"
  by (simp add: with_identity_def sound_def usable_def split: sum.split)

lemma sound_new: "d \<noteq> Superseded \<Longrightarrow> d \<noteq> Selected \<Longrightarrow> sound (new_candidate w i r d why)"
  by (simp add: new_candidate_def sound_def)

lemma sound_if: "(P \<Longrightarrow> sound c) \<Longrightarrow> (\<not> P \<Longrightarrow> sound d) \<Longrightarrow> sound (if P then c else d)"
  by simp

lemma sound_option:
  "(x = None \<Longrightarrow> sound c) \<Longrightarrow> (\<And>y. x = Some y \<Longrightarrow> sound (f y)) \<Longrightarrow>
    sound (case x of None \<Rightarrow> c | Some y \<Rightarrow> f y)"
  by (cases x) simp_all

lemma evaluate_sound: "sound (evaluate ops w i r ev)"
  unfolding evaluate_def Let_def
  by (intro sound_if sound_option sound_new sound_identity)
    (simp_all add: usable_def new_candidate_def no_key_def)

lemma gathered_ok_take:
  assumes "gathered_ok st" "sound c"
  shows "gathered_ok (take_candidate c st)"
  using assms by (cases st) (auto simp: gathered_ok_def take_candidate_def sound_def Let_def
    dest: arg_cong [of "rev _" _ set])

lemma gathered_ok_release: "gathered_ok st \<Longrightarrow> gathered_ok (take_release ops w names ev i r st)"
  by (simp add: take_release_def gathered_ok_take evaluate_sound)

lemma gathered_ok_fold:
  "(\<And>x st. gathered_ok st \<Longrightarrow> gathered_ok (f x st)) \<Longrightarrow> gathered_ok st \<Longrightarrow> gathered_ok (fold f xs st)"
  by (induction xs arbitrary: st) auto

lemma gathered_ok_source: "gathered_ok st \<Longrightarrow> gathered_ok (take_source ops b by w names ev i st)"
  by (auto simp: take_source_def split: option.split intro: gathered_ok_fold gathered_ok_release)

lemma gathered_ok_observed: "gathered_ok (gather_observed ops b by names ev)"
  unfolding gather_observed_def take_entry_def
  by (intro gathered_ok_fold gathered_ok_source) (simp_all add: gathered_ok_def)

lemma bound_releases_ok:
  assumes "bound_releases cancelled ops w k ev i rs n skipped st = Inr (n', skipped', st')" "gathered_ok st"
  shows "gathered_ok st'"
  using assms
proof (induction cancelled ops w k ev i rs n skipped st rule: bound_releases.induct)
  case (2 cancelled ops w k ev i r rs n skipped st)
  have "gathered_ok (fst st, snd st @ [(new_candidate w i r Invalid
      (OtherMediaType (rMediaType r) (eMediaType w)))\<lparr> caEntryKey := k \<rparr>])"
    using 2(4) by (simp add: gathered_ok_def new_candidate_def sound_def)
  moreover have "gathered_ok (take_candidate (evaluate ops w i r ev) st)"
    using 2(4) by (intro gathered_ok_take evaluate_sound)
  ultimately show ?case using 2 by (auto split: if_splits)
qed simp

lemma bound_sources_ok:
  assumes "bound_sources cancelled ops b w k ev xs n ws st = Inr (ws', st')" "gathered_ok st"
  shows "gathered_ok st'"
  using assms
proof (induction cancelled ops b w k ev xs n ws st rule: bound_sources.induct)
  case (2 cancelled ops b w k ev i rs rest n ws st)
  from 2(2) obtain n1 sk st1 src where r: "get (buSources b) i = Some src" "csEnabled src"
      "bound_releases cancelled ops w k ev i rs n 0 st = Inr (n1, sk, st1)"
      "bound_sources cancelled ops b w k ev rest n1
         (ws @ (if sk > 0 then [SkippedMediaType i sk] else [])) st1 = Inr (ws', st')"
    by (auto split: option.splits if_splits sum.splits)
  then show ?case using 2(1) [of src "(n1, sk, st1)" n1 "(sk, st1)" sk st1] bound_releases_ok [OF r(3) 2(3)]
    by simp
qed simp

section \<open>The plan\<close>

definition contenders :: "Candidate list \<Rightarrow> Key \<Rightarrow> nat set" where
  "contenders cs k =
     {i. i < length cs \<and> caMediaType (cs ! i) \<noteq> media_movie \<and>
         caDecision (cs ! i) \<in> {Selected, Superseded} \<and> same_scope (caEpisode (cs ! i)) k}"

definition winners :: "Candidate list \<Rightarrow> Key \<Rightarrow> nat set" where
  "winners cs k = {i \<in> contenders cs k. caDecision (cs ! i) = Selected}"

definition disjoint_ranges :: "Candidate list \<Rightarrow> nat set \<Rightarrow> bool" where
  "disjoint_ranges cs A \<longleftrightarrow>
     (\<forall>i \<in> A. \<forall>j \<in> A. i \<noteq> j \<longrightarrow> \<not> key_overlaps (caEpisode (cs ! i)) (caEpisode (cs ! j)))"

definition episodes_covered :: "Candidate list \<Rightarrow> nat set \<Rightarrow> int" where
  "episodes_covered cs A = (\<Sum>i \<in> A. key_width (caEpisode (cs ! i)))"

definition settled_plan :: "Candidate list \<Rightarrow> bool" where
  "settled_plan cs \<longleftrightarrow>
     (\<forall>i < length cs. caDecision (cs ! i) \<in> {Selected, Superseded} \<longrightarrow>
        usable (cs ! i) \<and>
        (\<exists>idx. distinct idx \<and> settled cs idx \<and> idx \<noteq> [] \<and>
           set idx = {j. j < length cs \<and> caDecision (cs ! j) \<in> {Selected, Superseded} \<and>
                         group_key (cs ! j) = group_key (cs ! i)}))"

lemma settled_decisions:
  assumes "settled cs idx" "i \<in> set idx"
  shows "caDecision (cs ! i) \<in> {Selected, Superseded}"
  using assms by (auto simp: settled_def decided_def split: if_splits)

lemma settled_plan_select:
  assumes "\<forall>c \<in> set (plCandidates p). sound c"
  shows "settled_plan (plCandidates (select_best visit b score p))"
    and "retouch {i. caDecision (plCandidates p ! i) = Selected} (plCandidates p)
      (plCandidates (select_best visit b score p))"
proof -
  let ?cs = "plCandidates p" and ?gs = "selected_groups (plCandidates p)"
  let ?cs' = "plCandidates (select_best visit b score p)"
  let ?S = "\<Union>(k, idx) \<in> set ?gs. set idx"
  note ok = groups_ok_selected [of ?cs]
  have all: "retouch ?S ?cs ?cs'" "\<forall>(k, idx) \<in> set ?gs. settled ?cs' idx"
    using select_groups_settled [OF ok, of visit "better score b"] by (simp_all add: select_best_def)
  have S: "?S \<subseteq> {i. caDecision (?cs ! i) = Selected}" using ok by (auto simp: groups_ok_def)
  then show "retouch {i. caDecision (?cs ! i) = Selected} ?cs ?cs'" using retouch_mono all(1) by blast
  have len: "length ?cs' = length ?cs" using all(1) by (simp add: retouch_def)
  have same: "group_key (?cs' ! i) = group_key (?cs ! i)" "usable (?cs' ! i) = usable (?cs ! i)" for i
    using all(1) core_eqD [of "?cs' ! i" "?cs ! i"] by (auto simp: retouch_def group_key_def usable_def)
  have grp: "(group_key (?cs ! i), filter (\<lambda>j. group_key (?cs ! j) = group_key (?cs ! i))
      (filter (\<lambda>j. caDecision (?cs ! j) = Selected) [0 ..< length ?cs])) \<in> set ?gs"
    if "i < length ?cs" "caDecision (?cs ! i) = Selected" for i
    using map_of_SomeD [OF get_group_into [THEN trans, of "group_key (?cs ! i)"]] that
    by (auto simp: selected_groups_def intro!: map_of_SomeD simp: get_group_into)
  have was: "caDecision (?cs' ! i) \<in> {Selected, Superseded} \<longleftrightarrow> caDecision (?cs ! i) = Selected"
    if i: "i < length ?cs" for i
  proof (cases "caDecision (?cs ! i) = Selected")
    case True
    from grp [OF i True] all(2) have "settled ?cs' (filter (\<lambda>j. group_key (?cs ! j) = group_key (?cs ! i))
        (filter (\<lambda>j. caDecision (?cs ! j) = Selected) [0 ..< length ?cs]))" by blast
    then have "caDecision (?cs' ! i) \<in> {Selected, Superseded}"
      by (rule settled_decisions) (use i True in simp)
    with True show ?thesis by simp
  next
    case False
    then have "i \<notin> ?S" using S by blast
    then have "caDecision (?cs' ! i) = caDecision (?cs ! i)" by (rule retouch_decision [OF all(1)])
    moreover have "caDecision (?cs ! i) \<noteq> Superseded" using assms i by (simp add: sound_def)
    ultimately show ?thesis using False by auto
  qed
  show "settled_plan ?cs'"
    unfolding settled_plan_def
  proof (intro allI impI conjI)
    fix i assume i: "i < length ?cs'" and d: "caDecision (?cs' ! i) \<in> {Selected, Superseded}"
    let ?idx = "filter (\<lambda>j. group_key (?cs ! j) = group_key (?cs ! i))
      (filter (\<lambda>j. caDecision (?cs ! j) = Selected) [0 ..< length ?cs])"
    have sel: "i < length ?cs" "caDecision (?cs ! i) = Selected" using i d was len by auto
    then have "sound (?cs ! i)" using assms by simp
    with sel show "usable (?cs' ! i)" by (simp add: same sound_def)
    have "settled ?cs' ?idx" using grp [OF sel] all(2) by blast
    moreover have "set ?idx = {j. j < length ?cs' \<and> caDecision (?cs' ! j) \<in> {Selected, Superseded} \<and>
        group_key (?cs' ! j) = group_key (?cs' ! i)}"
      using was by (auto simp: len same)
    moreover have "?idx \<noteq> []"
    proof -
      have "i \<in> set ?idx" using sel by simp
      then show ?thesis by (metis empty_iff empty_set)
    qed
    moreover have "distinct ?idx" by simp
    ultimately show "\<exists>idx. distinct idx \<and> settled ?cs' idx \<and> idx \<noteq> [] \<and>
        set idx = {j. j < length ?cs' \<and> caDecision (?cs' ! j) \<in> {Selected, Superseded} \<and>
          group_key (?cs' ! j) = group_key (?cs' ! i)}"
      by blast
  qed
qed

section \<open>Seasons\<close>

lemma season_settled:
  assumes "settled_plan cs" "contenders cs k \<noteq> {}"
  obtains ordered s where "set ordered = contenders cs k" "distinct ordered"
    "sorted (map (\<lambda>i. key_end (caEpisode (cs ! i))) ordered)"
    "range_of (\<lambda>i. caEpisode (cs ! i)) ordered s" "winners cs k = set (slIndexes s)"
proof -
  from assms(2) obtain i where i: "i \<in> contenders cs k" by blast
  from i assms(1) obtain idx where idx: "distinct idx" "settled cs idx" "idx \<noteq> []"
      "set idx = {j. j < length cs \<and> caDecision (cs ! j) \<in> {Selected, Superseded} \<and>
         group_key (cs ! j) = group_key (cs ! i)}"
    by (auto simp: settled_plan_def contenders_def)
  have entry: "kEntryKey (caEpisode (cs ! j)) = caEntryKey (cs ! j)"
    if "j < length cs" "caDecision (cs ! j) \<in> {Selected, Superseded}" for j
    using assms(1) that by (auto simp: settled_plan_def usable_def)
  have like: "group_key (cs ! j) = group_key (cs ! i) \<longleftrightarrow>
      caMediaType (cs ! j) \<noteq> media_movie \<and> same_scope (caEpisode (cs ! j)) k"
    if "j < length cs" "caDecision (cs ! j) \<in> {Selected, Superseded}" for j
  proof -
    have "caMediaType (cs ! i) \<noteq> media_movie" and sc: "same_scope (caEpisode (cs ! i)) k"
      using i by (simp_all add: contenders_def)
    then have "group_key (cs ! j) = group_key (cs ! i) \<longleftrightarrow>
        caMediaType (cs ! j) \<noteq> media_movie \<and> season_like (cs ! j) (cs ! i)"
      using group_key_series group_key_kind by blast
    moreover have "kEntryKey (caEpisode (cs ! i)) = caEntryKey (cs ! i)"
      using i by (intro entry) (auto simp: contenders_def)
    ultimately show ?thesis using entry [OF that] sc by (auto simp: season_like_def same_scope_def)
  qed
  have set: "set idx = contenders cs k" using idx(4) like by (auto simp: contenders_def)
  have "hd idx \<in> contenders cs k" using idx(3) set by (metis list.set_sel(1))
  then have "caMediaType (cs ! hd idx) \<noteq> media_movie" by (simp add: contenders_def)
  with idx(2) obtain ordered s where o: "mset ordered = mset idx"
      "sorted (map (\<lambda>i. key_end (caEpisode (cs ! i))) ordered)"
      "range_of (\<lambda>i. caEpisode (cs ! i)) ordered s" "decided cs idx (slIndexes s)"
    by (auto simp: settled_def)
  have so: "set ordered = contenders cs k" using o(1) set by (metis set_mset_mset)
  have "set (slIndexes s) \<subseteq> set ordered"
    using o(3) set_subseq unfolding range_of_def optimal_def by blast
  then have "winners cs k = set (slIndexes s)"
    using o(4) so set by (auto simp: winners_def decided_def split: if_splits)
  moreover have "distinct ordered" using o(1) idx(1) mset_eq_imp_distinct_iff by blast
  ultimately show thesis using that so o(2,3) by blast
qed

lemma total_width_sum: "distinct js \<Longrightarrow> total_width f js = (\<Sum>i \<in> set js. f i)"
  by (simp add: total_width_def sum_list_distinct_conv_sum_set)

lemma separated_disjoint:
  assumes "separated (\<lambda>i. kEpisodeStart (caEpisode (cs ! i))) (\<lambda>i. key_end (caEpisode (cs ! i))) js"
  shows "disjoint_ranges cs (set js)"
proof -
  have "\<not> key_overlaps (caEpisode (cs ! (js ! a))) (caEpisode (cs ! (js ! b)))"
    if "a < b" "b < length js" for a b
  proof -
    have "key_end (caEpisode (cs ! (js ! a))) < kEpisodeStart (caEpisode (cs ! (js ! b)))"
      using assms that by (simp add: separated_def sorted_wrt_iff_nth_less)
    then show ?thesis by (auto simp: key_overlaps_def)
  qed
  then have "\<not> key_overlaps (caEpisode (cs ! (js ! a))) (caEpisode (cs ! (js ! b)))"
    if "a \<noteq> b" "a < length js" "b < length js" for a b
    using that overlaps_sym by (metis linorder_neqE_nat)
  then show ?thesis unfolding disjoint_ranges_def by (metis in_set_conv_nth)
qed

lemma disjoint_separated:
  assumes "sorted (map (\<lambda>i. key_end (caEpisode (cs ! i))) js)" "distinct js"
    "disjoint_ranges cs (set js)"
    "\<forall>i \<in> set js. same_scope (caEpisode (cs ! i)) k \<and> kEpisodeStart (caEpisode (cs ! i)) > 0"
  shows "separated (\<lambda>i. kEpisodeStart (caEpisode (cs ! i))) (\<lambda>i. key_end (caEpisode (cs ! i))) js"
  unfolding separated_def sorted_wrt_iff_nth_less
proof (intro allI impI)
  fix a b assume ab: "a < b" "b < length js"
  let ?x = "caEpisode (cs ! (js ! a))" and ?y = "caEpisode (cs ! (js ! b))"
  have mem: "js ! a \<in> set js" "js ! b \<in> set js" "js ! a \<noteq> js ! b"
    using ab assms(2) by (simp_all add: nth_eq_iff_index_eq)
  have "key_end ?x \<le> key_end ?y" using sorted_nth_mono [OF assms(1), of a b] ab by simp
  moreover have "\<not> key_overlaps ?x ?y" using assms(3) mem by (simp add: disjoint_ranges_def)
  moreover have "same_scope ?x ?y" using assms(4) mem by (simp add: same_scope_def)
  moreover have "kEpisodeStart ?x > 0" "kEpisodeStart ?y > 0" using assms(4) mem by simp_all
  ultimately show "key_end ?x < kEpisodeStart ?y"
    using key_end_ge [of ?x] by (auto simp: key_overlaps_def)
qed

lemma finite_contenders [simp]: "finite (contenders cs k)" "finite (winners cs k)"
  by (simp_all add: contenders_def winners_def)

lemma winners_best:
  assumes "settled_plan cs"
  shows "disjoint_ranges cs (winners cs k)"
    and "A \<subseteq> contenders cs k \<Longrightarrow> disjoint_ranges cs A \<Longrightarrow>
      episodes_covered cs A \<le> episodes_covered cs (winners cs k)"
proof -
  consider "contenders cs k = {}" | "contenders cs k \<noteq> {}" by blast
  then have "disjoint_ranges cs (winners cs k) \<and> (\<forall>A. A \<subseteq> contenders cs k \<longrightarrow> disjoint_ranges cs A \<longrightarrow>
      episodes_covered cs A \<le> episodes_covered cs (winners cs k))"
  proof cases
    case 1
    then show ?thesis by (simp add: winners_def disjoint_ranges_def)
  next
    case 2
    obtain ordered s where o: "set ordered = contenders cs k" "distinct ordered"
        "sorted (map (\<lambda>i. key_end (caEpisode (cs ! i))) ordered)"
        "range_of (\<lambda>i. caEpisode (cs ! i)) ordered s" "winners cs k = set (slIndexes s)"
      by (rule season_settled [OF assms 2])
    let ?width = "\<lambda>i. key_width (caEpisode (cs ! i))"
    have s: "subseq (slIndexes s) ordered" "slCoverage s = total_width ?width (slIndexes s)"
        "separated (\<lambda>i. kEpisodeStart (caEpisode (cs ! i))) (\<lambda>i. key_end (caEpisode (cs ! i))) (slIndexes s)"
      using o(4) by (simp_all add: range_of_def optimal_def)
    have "distinct (slIndexes s)" using s(1) o(2) by (metis subseq_conv_nths distinct_nthsI)
    then have cov: "episodes_covered cs (winners cs k) = slCoverage s"
      by (simp add: episodes_covered_def o(5) s(2) total_width_sum)
    have "episodes_covered cs A \<le> slCoverage s" if A: "A \<subseteq> contenders cs k" "disjoint_ranges cs A" for A
    proof -
      let ?js = "filter (\<lambda>i. i \<in> A) ordered"
      have set: "set ?js = A" using A(1) o(1) by auto
      have "kEpisodeStart (caEpisode (cs ! i)) > 0" if "i \<in> contenders cs k" for i
        using assms that by (auto simp: settled_plan_def usable_def contenders_def)
      then have "separated (\<lambda>i. kEpisodeStart (caEpisode (cs ! i))) (\<lambda>i. key_end (caEpisode (cs ! i))) ?js"
        using A set o(2,3) by (intro disjoint_separated [where k = k])
          (auto simp: contenders_def intro: sorted_filter)
      then have "total_width ?width ?js \<le> slCoverage s"
        using o(4) subseq_filter_left unfolding range_of_def optimal_def by blast
      then show ?thesis
        using set total_width_sum [of ?js ?width] o(2) by (simp add: episodes_covered_def)
    qed
    then show ?thesis using separated_disjoint [OF s(3)] unfolding cov unfolding o(5) by blast
  qed
  then show "disjoint_ranges cs (winners cs k)"
    and "A \<subseteq> contenders cs k \<Longrightarrow> disjoint_ranges cs A \<Longrightarrow>
      episodes_covered cs A \<le> episodes_covered cs (winners cs k)" by blast+
qed

lemma loser_meets_winner:
  assumes "settled_plan cs" "i \<in> contenders cs k - winners cs k"
  shows "\<exists>j \<in> winners cs k. key_overlaps (caEpisode (cs ! i)) (caEpisode (cs ! j))"
proof (rule ccontr)
  assume none: "\<not> (\<exists>j \<in> winners cs k. key_overlaps (caEpisode (cs ! i)) (caEpisode (cs ! j)))"
  let ?A = "insert i (winners cs k)"
  have "disjoint_ranges cs ?A"
    using none winners_best(1) [OF assms(1), of k] overlaps_sym unfolding disjoint_ranges_def by blast
  moreover have "?A \<subseteq> contenders cs k" using assms(2) by (auto simp: winners_def)
  ultimately have "episodes_covered cs ?A \<le> episodes_covered cs (winners cs k)"
    by (rule winners_best(2) [OF assms(1), rotated])
  moreover have "episodes_covered cs ?A = key_width (caEpisode (cs ! i)) + episodes_covered cs (winners cs k)"
    using assms(2) by (simp add: episodes_covered_def)
  moreover have "kEpisodeStart (caEpisode (cs ! i)) > 0"
    using assms by (auto simp: settled_plan_def usable_def contenders_def)
  ultimately show False using key_end_ge [of "caEpisode (cs ! i)"] by (simp add: key_width_def)
qed

lemma observed_settled: "settled_plan (plCandidates (build_observed visit ops b by_source names evidence))"
  unfolding build_observed_def using gathered_ok_observed [of ops b by_source names evidence]
  by (intro settled_plan_select) (simp add: gathered_ok_def)

lemma bound_settled:
  assumes "build_bound_plan cancelled visit ops b k by_source evidence = Inr p"
  shows "settled_plan (plCandidates p)"
proof -
  from assms obtain w ws seen cs where r:
      "bound_sources cancelled ops b w k evidence (sort_key fst by_source) 1 [] ([], []) = Inr (ws, (seen, cs))"
      "p = select_best visit b (\<lambda>c. continuity_score c evidence) \<lparr> plCandidates = cs, plWarnings = ws \<rparr>"
    by (auto simp: build_bound_plan_def split: if_splits option.splits sum.splits)
  have "gathered_ok (seen, cs)" by (rule bound_sources_ok [OF r(1)]) (simp add: gathered_ok_def)
  then show ?thesis unfolding r(2) by (intro settled_plan_select) (simp add: gathered_ok_def)
qed

section \<open>Properties\<close>

text \<open>C1. In every plan built from observed releases the selected ranges of a season do not
  overlap, and they cover as many episodes as any set of its legal candidates without overlap
  could.\<close>

theorem observed_plan_best:
  "let cs = plCandidates (build_observed visit ops b by_source names evidence)
   in disjoint_ranges cs (winners cs k) \<and>
      episodes_covered cs (winners cs k) =
        Max (episodes_covered cs ` {A. A \<subseteq> contenders cs k \<and> disjoint_ranges cs A})"
proof -
  let ?cs = "plCandidates (build_observed visit ops b by_source names evidence)"
  note best = winners_best [OF observed_settled [of visit ops b by_source names evidence], where k = k]
  have "winners ?cs k \<subseteq> contenders ?cs k" by (auto simp: winners_def)
  then have "Max (episodes_covered ?cs ` {A. A \<subseteq> contenders ?cs k \<and> disjoint_ranges ?cs A}) =
      episodes_covered ?cs (winners ?cs k)"
    using best by (intro Max_eqI) auto
  with best(1) show ?thesis by (simp add: Let_def)
qed

text \<open>C2. A candidate of a bound plan is superseded only by a selected one of the same season
  whose range overlaps its own: no episode of a loser is dropped without a winner nearby.\<close>

theorem bound_losers_overlap:
  "pred_sum (\<lambda>_. True) (\<lambda>p. let cs = plCandidates p in
       contenders cs k - winners cs k \<subseteq>
         {i. list_ex (\<lambda>j. j \<in> winners cs k \<and> key_overlaps (caEpisode (cs ! i)) (caEpisode (cs ! j)))
               [0 ..< length cs]})
     (build_bound_plan cancelled visit ops b entry_key by_source evidence)"
proof (cases "build_bound_plan cancelled visit ops b entry_key by_source evidence")
  case (Inr p)
  have "list_ex (\<lambda>j. j \<in> winners (plCandidates p) k \<and>
      key_overlaps (caEpisode (plCandidates p ! i)) (caEpisode (plCandidates p ! j))) [0 ..< length (plCandidates p)]"
    if lost: "i \<in> contenders (plCandidates p) k - winners (plCandidates p) k" for i
  proof -
    obtain j where j: "j \<in> winners (plCandidates p) k"
        "key_overlaps (caEpisode (plCandidates p ! i)) (caEpisode (plCandidates p ! j))"
      using loser_meets_winner [OF bound_settled [OF Inr] lost] by blast
    from j(1) have "j < length (plCandidates p)" by (simp add: winners_def contenders_def)
    with j show ?thesis by (auto simp: list_ex_iff)
  qed
  with Inr show ?thesis by (auto simp: Let_def)
qed simp

section \<open>Acquisitions and films\<close>

lemma subseq_map_filter:
  "list_all2 (\<lambda>c d. f c = f d \<and> (P d \<longrightarrow> Q c)) xs ys \<Longrightarrow>
    subseq (map f (filter P ys)) (map f (filter Q xs))"
  by (induction rule: list_all2_induct) auto

lemma subseq_distinct: "subseq xs ys \<Longrightarrow> distinct ys \<Longrightarrow> distinct xs"
  by (metis subseq_conv_nths distinct_nthsI)

lemma selected_distinct:
  assumes "gathered_ok (seen, plCandidates p)"
  shows "distinct (map (\<lambda>c. idID (caAcquisition c))
    (filter (\<lambda>c. caDecision c = Selected) (plCandidates (select_best visit b score p))))"
proof -
  let ?cs = "plCandidates p" and ?cs' = "plCandidates (select_best visit b score p)"
  have r: "retouch {i. caDecision (?cs ! i) = Selected} ?cs ?cs'"
    using assms by (intro settled_plan_select) (simp add: gathered_ok_def)
  have "list_all2 (\<lambda>c d. idID (caAcquisition c) = idID (caAcquisition d) \<and>
      (caDecision d = Selected \<longrightarrow> caDecision c = Selected)) ?cs ?cs'"
    unfolding list_all2_conv_all_nth
  proof (intro conjI allI impI)
    show "length ?cs = length ?cs'" using r by (simp add: retouch_def)
  next
    fix i
    have "core (?cs' ! i) = core (?cs ! i)" using r by (simp add: retouch_def)
    from core_eqD(4) [OF this]
    show "idID (caAcquisition (?cs ! i)) = idID (caAcquisition (?cs' ! i))" by simp
    assume "caDecision (?cs' ! i) = Selected"
    then show "caDecision (?cs ! i) = Selected" using retouch_decision [OF r, of i] by (cases "caDecision (?cs ! i) = Selected") auto
  qed
  from subseq_map_filter [OF this] show ?thesis
    using assms by (elim subseq_distinct) (metis gathered_ok_def distinct_rev fst_conv snd_conv)
qed

text \<open>C3. No acquisition is selected twice in a plan, whatever sources and Entries it was
  observed for.\<close>

theorem acquisitions_distinct:
  "distinct (map (\<lambda>c. idID (caAcquisition c))
     (filter (\<lambda>c. caDecision c = Selected)
       (plCandidates (build_observed visit ops b by_source names evidence))))"
  unfolding build_observed_def using gathered_ok_observed [of ops b by_source names evidence]
  by (intro selected_distinct [of "fst (gather_observed ops b by_source names evidence)"]) simp

definition film_releases :: "Candidate list \<Rightarrow> string \<Rightarrow> nat set" where
  "film_releases cs e =
     {i. i < length cs \<and> caMediaType (cs ! i) = media_movie \<and> caEntryKey (cs ! i) = e \<and>
         caDecision (cs ! i) \<in> {Selected, Superseded}}"

text \<open>C4. A film with a legal release in the plan has exactly one selected.\<close>

theorem film_single:
  "let cs = plCandidates (build_observed visit ops b by_source names evidence)
   in card {i \<in> film_releases cs e. caDecision (cs ! i) = Selected} =
        (if film_releases cs e = {} then 0 else 1)"
proof -
  let ?cs = "plCandidates (build_observed visit ops b by_source names evidence)"
  have "card {i \<in> film_releases ?cs e. caDecision (?cs ! i) = Selected} = 1" if some: "film_releases ?cs e \<noteq> {}"
  proof -
    obtain i where i: "i \<in> film_releases ?cs e" using some by blast
    then have "i < length ?cs" "caDecision (?cs ! i) \<in> {Selected, Superseded}"
      by (simp_all add: film_releases_def)
    with observed_settled [of visit ops b by_source names evidence]
    obtain idx where idx: "distinct idx" "settled ?cs idx" "idx \<noteq> []"
        "set idx = {j. j < length ?cs \<and> caDecision (?cs ! j) \<in> {Selected, Superseded} \<and>
           group_key (?cs ! j) = group_key (?cs ! i)}"
      unfolding settled_plan_def by blast
    have "group_key (?cs ! j) = group_key (?cs ! i) \<longleftrightarrow>
        caMediaType (?cs ! j) = media_movie \<and> caEntryKey (?cs ! j) = e" for j
      using i group_key_kind [of "?cs ! j" "?cs ! i"] group_key_movie [of "?cs ! j" "?cs ! i"]
      by (auto simp: film_releases_def)
    then have set: "set idx = film_releases ?cs e" using idx(4) by (auto simp: film_releases_def)
    have "caMediaType (?cs ! hd idx) = media_movie"
      using idx(3) set list.set_sel(1) [of idx] by (auto simp: film_releases_def)
    then obtain v where v: "v \<in> set idx" "decided ?cs idx [v]" using idx(2) by (auto simp: settled_def)
    then have "{i \<in> film_releases ?cs e. caDecision (?cs ! i) = Selected} = {v}"
      using set by (auto simp: decided_def split: if_splits)
    then show ?thesis by simp
  qed
  then show ?thesis by (simp add: Let_def)
qed

section \<open>Two anomalies\<close>

text \<open>
  The start of a range may be projected by the fallback for an Entry with one season and its
  end by a folder with an offset: the two episodes of the release become thirteen.
\<close>

definition widening_entry :: Catalog.Entry where
  "widening_entry = sample_entry\<lparr> eSeasons := [1] \<rparr>"

definition widening_evidence :: "FolderProjectionEvidence list" where
  "widening_evidence =
     [(sample_evidence ''B'' 1 6 9)\<lparr> evEpisodeOffset := 11 \<rparr>, sample_evidence ''C'' 2 20 29]"

lemma projected_range_widens:
  "project_observed_episode widening_entry widening_evidence 0 False 5 =
     Some \<lparr> prSeason = 1, prEpisode = 5, prFolder = [] \<rparr> \<and>
   project_observed_episode widening_entry widening_evidence 0 False 6 =
     Some \<lparr> prSeason = 1, prEpisode = 17, prFolder = ''B'' \<rparr>"
  by (simp add: project_observed_episode_def widening_entry_def widening_evidence_def
      sample_evidence_def sample_entry_def preceding_def through_def identity_projection_def
      empty_evidence_def)

text \<open>
  Times are compared as structures before they are compared as instants: two releases of one
  instant read in different zones are of equal rank, whatever the rank of a third between them.
\<close>

definition dated :: "nat \<Rightarrow> string \<Rightarrow> Candidate" where
  "dated zone i = (new_candidate sample_entry ''s''
     (zero_release\<lparr> rPublishedAt := \<lparr> tmInstant = 1, tmLoc = zone \<rparr> \<rparr>) Selected NoReason)
       \<lparr> caAcquisition := no_identity\<lparr> idID := i \<rparr> \<rparr>"

lemma better_not_weak_order:
  "better (\<lambda>_. 0) b (dated 0 ''a'') (dated 0 ''c'') \<and>
   \<not> better (\<lambda>_. 0) b (dated 0 ''a'') (dated 1 ''b'') \<and> \<not> better (\<lambda>_. 0) b (dated 1 ''b'') (dated 0 ''a'') \<and>
   \<not> better (\<lambda>_. 0) b (dated 1 ''b'') (dated 0 ''c'') \<and> \<not> better (\<lambda>_. 0) b (dated 0 ''c'') (dated 1 ''b'')"
  by (simp add: better_def dated_def new_candidate_def no_identity_def no_key_def time_after_def)

end
