(* ===== verification/Placement.thy ===== *)
theory Placement
  imports Config
begin

text \<open>
  Package source (source/topology.go) and the path mappings of package download
  (download/download.go): the translation of paths between a downloader and this host, the
  container a task's files live in, where a new download is placed, and the depth at which
  content may sit below a source root. Of a downloader task the fields are kept that any
  modelled code reads; sizes, rates and progress are left out.
\<close>

section \<open>Tasks and path mappings\<close>

datatype state =
    Queued | Downloading | Completed | Seeding | Paused | Checking | Failed | Unknown

record Task =
  tkID :: string
  tkInfoHash :: string
  tkName :: string
  tkState :: state
  tkSavePath :: string
  tkContentPath :: string
  tkLabels :: "string list"
  tkSources :: "string list"
  tkError :: string
  tkCompletedAt :: Time

record File =
  flPath :: string
  flWanted :: bool

definition map_path_step ::
    "string \<Rightarrow> bool \<Rightarrow> PathMapping \<Rightarrow> string \<times> string \<Rightarrow> string \<times> string" where
  "map_path_step cleaned reverse m best =
     (let remote0 = (if reverse then pmLocal m else pmRemote m);
          local = (if reverse then pmRemote m else pmLocal m);
          remote = clean remote0
      in if remote = ''.'' \<or> remote = [] \<or> local = [] then best
         else case rel remote cleaned of
             None \<Rightarrow> best
           | Some r \<Rightarrow>
               if escapes_up r then best
               else if length remote > length (fst best) then (remote, clean local) else best)"

definition map_path_dir :: "bool \<Rightarrow> string \<Rightarrow> PathMapping list \<Rightarrow> string" where
  "map_path_dir reverse path mappings =
     (let cleaned = clean path;
          best = fold (map_path_step cleaned reverse) mappings ([], [])
      in if fst best = [] then path
         else join_path [snd best, case rel (fst best) cleaned of Some r \<Rightarrow> r | None \<Rightarrow> []])"

definition map_path :: "string \<Rightarrow> PathMapping list \<Rightarrow> string" where
  "map_path = map_path_dir False"

definition unmap_path :: "string \<Rightarrow> PathMapping list \<Rightarrow> string" where
  "unmap_path = map_path_dir True"

section \<open>Observation of a task\<close>

datatype shape = SingleFile | MultiFile | NoShape

datatype topology_error =
    NoWantedFiles | OutsideContent string string | NoContentPath | NotFlat
  | ShapeRequired | EntryRootRequired | SourceRootRequired | UnknownMedia string | UnsafeContainer

record Observation =
  obTask :: Task
  obContentRoot :: string
  obPaths :: "string list"
  obShape :: shape

definition escapes :: "string \<Rightarrow> bool" where
  "escapes r \<longleftrightarrow> is_abs r \<or> escapes_up r"

definition same_path :: "string \<Rightarrow> string \<Rightarrow> bool" where
  "same_path a b \<longleftrightarrow> clean a = clean b"

definition source_within :: "string \<Rightarrow> string \<Rightarrow> bool" where
  "source_within root path =
     (if root = [] \<or> path = [] then False
      else case rel (clean root) (clean path) of None \<Rightarrow> False | Some r \<Rightarrow> \<not> escapes r)"

definition observe :: "Task \<Rightarrow> File list \<Rightarrow> PathMapping list \<Rightarrow> topology_error + Observation" where
  "observe task0 files mappings =
     (let task = task0\<lparr> tkSavePath := map_path (tkSavePath task0) mappings,
                        tkContentPath := map_path (tkContentPath task0) mappings \<rparr>;
          paths = map (\<lambda>f. clean (map_path (flPath f) mappings)) (filter flWanted files);
          found = (\<lambda>root shape. \<lparr> obTask = task, obContentRoot = root, obPaths = paths, obShape = shape \<rparr>);
          content = clean (tkContentPath task); save = clean (tkSavePath task)
      in if paths = [] then Inl NoWantedFiles
         else if tkContentPath task \<noteq> [] then
           (if length paths = 1 \<and> same_path (hd paths) content then Inr (found (dir content) SingleFile)
            else case find (\<lambda>p. \<not> source_within content p \<or> same_path content p) paths of
                Some p \<Rightarrow> Inl (OutsideContent p content)
              | None \<Rightarrow> Inr (found content MultiFile))
         else if tkSavePath task = [] then Inl NoContentPath
         else if \<not> list_all (\<lambda>p. same_path (dir p) save) paths then Inl NotFlat
         else Inr (found save (if length paths = 1 then SingleFile else MultiFile)))"

section \<open>Placement\<close>

definition placement_for ::
    "string \<Rightarrow> shape \<Rightarrow> string \<Rightarrow> string \<Rightarrow> string \<Rightarrow> topology_error + string" where
  "placement_for media shape entry_root source_root container_name =
     (let name = trim_space container_name;
          placed = (\<lambda>root. if name = [] \<or> name = ''.'' \<or> base name \<noteq> name then Inl UnsafeContainer
                           else Inr (join_path [root, name]))
      in if shape \<noteq> SingleFile \<and> shape \<noteq> MultiFile then Inl ShapeRequired
         else if media = media_series then
           (if entry_root = [] then Inl EntryRootRequired else placed entry_root)
         else if media = media_movie then
           (if source_root = [] then Inl SourceRootRequired
            else if shape = MultiFile then Inr (clean source_root)
            else placed source_root)
         else Inl (UnknownMedia media))"

section \<open>Topology\<close>

datatype detail =
    ValidTopology | RootsRequired | AssetsRequired | OutsideSource | BadDepth nat nat nat
  | AssetEscapes string

record Topology =
  toValid :: bool
  toRelativeDepth :: nat
  toDetail :: detail

definition invalid :: "nat \<Rightarrow> detail \<Rightarrow> Topology" where
  "invalid n d = \<lparr> toValid = False, toRelativeDepth = n, toDetail = d \<rparr>"

definition validate_root :: "string \<Rightarrow> string \<Rightarrow> nat \<Rightarrow> nat \<Rightarrow> Topology" where
  "validate_root parent_root content_root min_depth max_depth =
     (if parent_root = [] \<or> content_root = [] then invalid 0 RootsRequired
      else case rel (clean parent_root) (clean content_root) of
          None \<Rightarrow> invalid 0 OutsideSource
        | Some r \<Rightarrow>
            if r = ''.'' \<or> escapes r then invalid 0 OutsideSource
            else
              let depth = length (split_on CHR ''/'' r)
              in if depth < min_depth \<or> depth > max_depth
                 then invalid depth (BadDepth depth min_depth max_depth)
                 else \<lparr> toValid = True, toRelativeDepth = depth, toDetail = ValidTopology \<rparr>)"

definition validate_series_root :: "string \<Rightarrow> string \<Rightarrow> Topology" where
  "validate_series_root entry_root content_root = validate_root entry_root content_root 1 2"

definition validate_series_at_source_root :: "string \<Rightarrow> string \<Rightarrow> Topology" where
  "validate_series_at_source_root source_root content_root = validate_root source_root content_root 2 3"

definition validate_movie_root :: "string \<Rightarrow> string \<Rightarrow> Topology" where
  "validate_movie_root source_root content_root = validate_root source_root content_root 1 1"

fun validate_paths :: "string \<Rightarrow> string list \<Rightarrow> Topology \<Rightarrow> Topology" where
  "validate_paths content [] t = t"
| "validate_paths content (p # ps) t =
     (case rel content (clean p) of
        None \<Rightarrow> t\<lparr> toValid := False, toDetail := AssetEscapes p \<rparr>
      | Some r \<Rightarrow>
          if r = ''.'' \<or> escapes r then t\<lparr> toValid := False, toDetail := AssetEscapes p \<rparr>
          else validate_paths content ps t)"

definition validate_tree ::
    "(string \<Rightarrow> string \<Rightarrow> Topology) \<Rightarrow> string \<Rightarrow> string \<Rightarrow> string list \<Rightarrow> Topology" where
  "validate_tree root_check root content_root paths =
     (if root = [] \<or> content_root = [] \<or> paths = [] then invalid 0 AssetsRequired
      else let t = root_check root content_root
           in if \<not> toValid t then t else validate_paths (clean content_root) paths t)"

definition validate_series :: "string \<Rightarrow> string \<Rightarrow> string list \<Rightarrow> Topology" where
  "validate_series = validate_tree validate_series_root"

definition validate_series_at_source :: "string \<Rightarrow> string \<Rightarrow> string list \<Rightarrow> Topology" where
  "validate_series_at_source = validate_tree validate_series_at_source_root"

definition validate_movie :: "string \<Rightarrow> string \<Rightarrow> string list \<Rightarrow> Topology" where
  "validate_movie = validate_tree validate_movie_root"

section \<open>Relative paths below an absolute root\<close>

lemma join_Cons_app: "\<exists>r. join_with sep (a # as) = a @ r"
  by (cases as) auto

lemma proper_not_abs:
  assumes "\<forall>c \<in> set t. proper c"
  shows "\<not> is_abs (join_with ''/'' t)"
proof (cases t)
  case (Cons a as)
  obtain r where r: "join_with ''/'' (a # as) = a @ r" using join_Cons_app by blast
  have "a \<noteq> []" "CHR ''/'' \<notin> set a" using assms Cons by (simp_all add: proper_def)
  then show ?thesis unfolding Cons r by (cases a) (auto simp: is_abs_def)
qed (simp add: is_abs_def)

lemma proper_not_dot:
  assumes "\<forall>c \<in> set t. proper c" "t \<noteq> []"
  shows "join_with ''/'' t \<noteq> ''.''"
proof
  assume eq: "join_with ''/'' t = ''.''"
  obtain a as where t: "t = a # as" using assms(2) by (cases t) auto
  have a: "a \<noteq> []" "a \<noteq> ''.''" using assms(1) t by (simp_all add: proper_def)
  show False
  proof (cases as)
    case Nil
    with eq t a show ?thesis by simp
  next
    case (Cons b bs)
    then have "length (join_with ''/'' t) \<ge> 2" using t a(1) by (cases a) auto
    with eq show ?thesis by simp
  qed
qed

text \<open>What \<open>Rel\<close> says of two absolute paths, in terms of their names.\<close>

lemma rel_below:
  assumes "is_abs root" "is_abs path"
  shows "(case rel (clean root) (clean path) of None \<Rightarrow> False | Some r \<Rightarrow> r \<noteq> ''.'' \<and> \<not> escapes r) \<longleftrightarrow>
    strict_prefix (comps root) (comps path)"
proof (cases "prefix (comps root) (comps path)")
  case False
  with rel_abs_not_prefix [of "clean root" "clean path"] assms show ?thesis
    by (auto simp: escapes_def strict_prefix_def)
next
  case True
  then obtain t where t: "comps path = comps root @ t" by (auto simp: prefix_def)
  show ?thesis
  proof (cases "t = []")
    case True
    with t assms have "rel (clean root) (clean path) = Some ''.''"
      by (intro rel_same) (simp add: clean_eq_iff)
    with True t show ?thesis by simp
  next
    case False
    have pr: "\<forall>c \<in> set t. proper c" using t comps_abs_proper [OF assms(2)] by simp
    have "rel (clean root) (clean path) = Some (join_with ''/'' t)"
      using rel_abs_prefix [of "clean root" "clean path" t] False t assms by simp
    with False t show ?thesis
      using proper_not_abs [OF pr] proper_not_dot [OF pr False] join_proper_not_escapes [OF pr]
      by (simp add: escapes_def strict_prefix_def)
  qed
qed

lemma rel_clean_below:
  assumes "is_abs root" "is_abs path" "comps path = comps root @ t" "t \<noteq> []"
  shows "rel (clean root) (clean path) = Some (join_with ''/'' t)"
    and "\<not> escapes (join_with ''/'' t)" and "join_with ''/'' t \<noteq> ''.''"
    and "split_on CHR ''/'' (join_with ''/'' t) = t"
proof -
  have pr: "\<forall>c \<in> set t. proper c" using assms comps_abs_proper [OF assms(2)] by simp
  show "rel (clean root) (clean path) = Some (join_with ''/'' t)"
    using rel_abs_prefix [of "clean root" "clean path" t] assms by simp
  show "\<not> escapes (join_with ''/'' t)"
    using proper_not_abs [OF pr] join_proper_not_escapes [OF pr] by (simp add: escapes_def)
  show "join_with ''/'' t \<noteq> ''.''" by (rule proper_not_dot [OF pr assms(4)])
  show "split_on CHR ''/'' (join_with ''/'' t) = t"
    using pr assms(4) by (intro split_join) (auto simp: proper_def)
qed

lemma split_on_snoc_join:
  assumes "t \<noteq> []" "\<forall>c \<in> set t. CHR ''/'' \<notin> set c"
  shows "split_on CHR ''/'' (s @ CHR ''/'' # join_with ''/'' t) = split_on CHR ''/'' s @ t"
proof -
  have "split_on CHR ''/'' (join_with ''/'' t) = t" using assms by (intro split_join) auto
  then show ?thesis by (induction s) (auto split: list.splits)
qed

lemma clean_comps_app:
  assumes "\<forall>c \<in> set t. proper c"
  shows "clean_comps True stack (cs @ t) = clean_comps True stack cs @ t"
  using assms
proof (induction True stack cs rule: clean_comps.induct)
  case (1 stack)
  then show ?case using clean_comps_proper by simp
next
  case (2 stack c cs)
  then show ?case by (auto split: list.splits)
qed

lemma comps_join_names:
  assumes "is_abs a" "\<forall>c \<in> set t. proper c" "t \<noteq> []"
  shows "comps (join_path [a, join_with ''/'' t]) = comps a @ t" and "is_abs (join_path [a, join_with ''/'' t])"
proof -
  obtain b bs where t: "t = b # bs" using assms(3) by (cases t) auto
  obtain r where r: "join_with ''/'' t = b @ r" using join_Cons_app unfolding t by blast
  have ne: "a \<noteq> []" "join_with ''/'' t \<noteq> []" using assms(1,2) t r by (auto simp: is_abs_def proper_def)
  have j: "join_path [a, join_with ''/'' t] = clean (a @ CHR ''/'' # join_with ''/'' t)"
    using ne by (simp add: join_path_def)
  have abs: "is_abs (a @ CHR ''/'' # join_with ''/'' t)" using assms(1) ne by (simp add: is_abs_def)
  have ns: "\<forall>c \<in> set t. CHR ''/'' \<notin> set c" using assms(2) by (simp add: proper_def)
  show "comps (join_path [a, join_with ''/'' t]) = comps a @ t"
    using abs assms(1) clean_comps_app [OF assms(2)] unfolding j comps_clean
    by (simp add: comps_def split_on_snoc_join [OF assms(3) ns])
  show "is_abs (join_path [a, join_with ''/'' t])" using abs unfolding j is_abs_clean .
qed

lemma join_dot: "is_abs a \<Longrightarrow> join_path [clean a, ''.''] = clean a"
proof -
  assume a: "is_abs a"
  have ne: "clean a \<noteq> []" using a by (simp add: clean_def render_def)
  have split: "split_on CHR ''/'' (s @ CHR ''/'' # ''.'') = split_on CHR ''/'' s @ [''.'']" for s
    by (induction s) (auto split: list.splits)
  have step: "clean_comps True stack (cs @ [''.'']) = clean_comps True stack cs" for stack cs
    by (induction True stack cs rule: clean_comps.induct) (auto split: list.splits)
  have abs: "is_abs (clean a @ CHR ''/'' # ''.'')" using is_abs_clean [of a] a ne by (simp add: is_abs_def)
  have "comps (clean a @ CHR ''/'' # ''.'') = comps (clean a)"
    using abs is_abs_clean [of a] a by (simp add: comps_def split step del: is_abs_clean)
  then have "clean (clean a @ CHR ''/'' # ''.'') = clean a"
    unfolding clean_eq_iff [of _ a] using abs a by simp
  then show ?thesis using ne by (simp add: join_path_def)
qed

section \<open>Mapping there and back\<close>

lemma map_path_single:
  assumes "is_abs remote" "is_abs local" "is_abs path" "comps path = comps remote @ t"
    "m = (if reverse then \<lparr> pmRemote = local, pmLocal = remote \<rparr> else \<lparr> pmRemote = remote, pmLocal = local \<rparr>)"
  shows "map_path_dir reverse path [m] = render True (comps local @ t)"
proof -
  have r: "clean remote \<noteq> ''.''" "clean remote \<noteq> []" "local \<noteq> []" "length (clean remote) > 0"
    using assms(1,2) by (auto simp: clean_def render_def is_abs_def)
  have out: "clean local = render True (comps local)" by (rule clean_abs_render [OF assms(2)])
  show ?thesis
  proof (cases "t = []")
    case True
    then have "rel (clean remote) (clean path) = Some ''.''"
      using assms by (intro rel_same) (simp add: clean_eq_iff)
    with True r assms(5) show ?thesis
      using join_dot [OF assms(2)] out
      by (simp add: map_path_dir_def map_path_step_def escapes_up_def Let_def)
  next
    case False
    note b = rel_clean_below [OF assms(1,3,4) False]
    have pr: "\<forall>c \<in> set t. proper c" using assms comps_abs_proper [OF assms(3)] by simp
    have "\<not> escapes_up (join_with ''/'' t)" using b(2) by (simp add: escapes_def)
    with b(1) r assms(5) have "map_path_dir reverse path [m] = join_path [clean local, join_with ''/'' t]"
      by (simp add: map_path_dir_def map_path_step_def Let_def)
    moreover have "clean (join_path [clean local, join_with ''/'' t]) = join_path [clean local, join_with ''/'' t]"
    proof -
      have "join_path es = [] \<or> clean (join_path es) = join_path es" for es
        by (simp add: join_path_def Let_def clean_eq_iff)
      moreover have "is_abs (join_path [clean local, join_with ''/'' t])"
        using assms(2) pr False by (intro comps_join_names(2)) simp_all
      then have "join_path [clean local, join_with ''/'' t] \<noteq> []" by (auto simp: is_abs_def)
      ultimately show ?thesis by blast
    qed
    moreover have "clean (join_path [clean local, join_with ''/'' t]) = render True (comps local @ t)"
    proof -
      have a: "is_abs (clean local)" using assms(2) by simp
      note c = comps_join_names [OF a pr False]
      show ?thesis unfolding clean_abs_render [OF c(2)] c(1) comps_clean ..
    qed
    ultimately show ?thesis by simp
  qed
qed

section \<open>Properties\<close>



text \<open>The content root of an observed task contains every file of the task.\<close>

lemma within_dir:
  assumes "is_abs p"
  shows "within (dir (clean p)) p"
proof -
  have pr: "\<forall>c \<in> set (comps p). proper c" using comps_abs_proper [OF assms] by blast
  have d: "dir (clean p) = render True (butlast (comps p))"
    unfolding clean_abs_render [OF assms] by (rule dir_render [OF pr])
  have n: "normal True (butlast (comps p))"
    using pr by (auto simp: normal_def dest: in_set_butlastD intro: exI [of _ 0])
  have "prefix (butlast (comps p)) (comps p)" by (cases "comps p" rule: rev_cases) auto
  then show ?thesis
    using within_abs [of "render True (butlast (comps p))" p] is_abs_render [OF n] comps_render [OF n] assms d
    by simp
qed

lemma source_within_within: "source_within root path \<Longrightarrow> within root path"
  by (auto simp: source_within_def within_def escapes_def split: option.splits if_splits)

lemma clean_clean [simp]: "clean (clean p) = clean p"
  by (simp add: clean_eq_iff)

lemma within_clean [simp]: "within root (clean p) = within root p" "within (clean root) p = within root p"
  by (simp_all add: within_def)

lemma dir_abs: "is_abs (dir (clean p)) \<Longrightarrow> is_abs p"
proof (rule ccontr)
  assume d: "is_abs (dir (clean p))" and p: "\<not> is_abs p"
  have "\<not> is_abs (clean p)" using p by simp
  then have "\<not> is_abs (rev (dropWhile (\<lambda>c. c \<noteq> CHR ''/'') (rev (clean p))))"
    by (cases "clean p") (auto simp: is_abs_def dropWhile_append split: if_splits)
  then show False using d by (simp add: dir_def)
qed

lemma length_one: "length xs = 1 \<Longrightarrow> \<exists>x. xs = [x]"
  by (cases xs) auto

text \<open>The three ways to find the content root.\<close>

lemma observe_cases:
  assumes "observe task files mappings = Inr ob"
  obtains (alone) p where "obPaths ob = [p]" "clean p = p" "obContentRoot ob = dir p" "obShape ob = SingleFile"
    | (tree) "obPaths ob \<noteq> []" "\<forall>p \<in> set (obPaths ob). source_within (obContentRoot ob) p \<and> \<not> same_path (obContentRoot ob) p"
        "clean (obContentRoot ob) = obContentRoot ob" "obShape ob = MultiFile"
    | (flat) "obPaths ob \<noteq> []" "\<forall>p \<in> set (obPaths ob). clean p = p \<and> dir p = obContentRoot ob"
        "obShape ob = (if length (obPaths ob) = 1 then SingleFile else MultiFile)"
proof -
  define cp sp where "cp = map_path (tkContentPath task) mappings" and "sp = map_path (tkSavePath task) mappings"
  define paths where "paths = map (\<lambda>f. clean (map_path (flPath f) mappings)) (filter flWanted files)"
  define found where "found = (\<lambda>root shape. \<lparr> obTask = task\<lparr> tkSavePath := sp, tkContentPath := cp \<rparr>,
    obContentRoot = root, obPaths = paths, obShape = shape \<rparr>)"
  have eq: "observe task files mappings =
     (if paths = [] then Inl NoWantedFiles
      else if cp \<noteq> [] then
        (if length paths = 1 \<and> same_path (hd paths) (clean cp) then Inr (found (dir (clean cp)) SingleFile)
         else case find (\<lambda>p. \<not> source_within (clean cp) p \<or> same_path (clean cp) p) paths of
             Some p \<Rightarrow> Inl (OutsideContent p (clean cp))
           | None \<Rightarrow> Inr (found (clean cp) MultiFile))
      else if sp = [] then Inl NoContentPath
      else if \<not> list_all (\<lambda>p. same_path (dir p) (clean sp)) paths then Inl NotFlat
      else Inr (found (clean sp) (if length paths = 1 then SingleFile else MultiFile)))"
    by (cases task) (simp only: observe_def Let_def cp_def sp_def paths_def found_def
        Task.select_convs Task.update_convs)
  have cl: "\<forall>p \<in> set paths. clean p = p" unfolding paths_def by auto
  have ne: "paths \<noteq> []" using assms unfolding eq by (auto split: if_splits)
  consider (alone) "cp \<noteq> []" "length paths = 1 \<and> same_path (hd paths) (clean cp)"
    | (tree) "cp \<noteq> []" "\<not> (length paths = 1 \<and> same_path (hd paths) (clean cp))"
    | (flat) "cp = []" by blast
  then show thesis
  proof cases
    case alone
    obtain p where p: "paths = [p]" using length_one [OF conjunct1 [OF alone(2)]] ..
    have q: "clean p = p" using cl p by simp
    have "same_path p (clean cp)" using alone(2) p by simp
    then have c: "clean cp = p" using q by (simp add: same_path_def)
    have "ob = found (dir (clean cp)) SingleFile" using assms ne alone unfolding eq by simp
    then show ?thesis using p q c by (intro that(1) [of p]) (simp_all add: found_def)
  next
    case tree
    then have r: "find (\<lambda>p. \<not> source_within (clean cp) p \<or> same_path (clean cp) p) paths = None"
        "ob = found (clean cp) MultiFile"
      using assms ne unfolding eq by (auto split: option.splits if_splits)
    from r(1) have "\<forall>p \<in> set paths. source_within (clean cp) p \<and> \<not> same_path (clean cp) p"
      unfolding find_None_iff by blast
    then show ?thesis using ne r(2) by (intro that(2)) (simp_all add: found_def)
  next
    case flat
    then have r: "list_all (\<lambda>p. same_path (dir p) (clean sp)) paths"
        "ob = found (clean sp) (if length paths = 1 then SingleFile else MultiFile)"
      using assms ne unfolding eq by (simp_all split: if_splits)
    have d: "clean (dir p) = dir p" for p by (simp add: dir_def)
    have "clean p = p \<and> dir p = clean sp" if "p \<in> set paths" for p
      using r(1) that cl d [of p] unfolding list_all_iff same_path_def by simp
    then show ?thesis using ne r(2) by (intro that(3)) (simp_all add: found_def)
  qed
qed


section \<open>Depth\<close>

lemma validate_root_iff:
  assumes "is_abs root" "is_abs content"
  shows "toValid (validate_root root content lo hi) \<longleftrightarrow>
    (\<exists>t. comps content = comps root @ t \<and> t \<noteq> [] \<and> lo \<le> length t \<and> length t \<le> hi)"
proof -
  have ne: "root \<noteq> []" "content \<noteq> []" using assms by (auto simp: is_abs_def)
  show ?thesis
  proof (cases "strict_prefix (comps root) (comps content)")
    case True
    then obtain t where t: "comps content = comps root @ t" "t \<noteq> []"
      by (auto simp: strict_prefix_def prefix_def)
    note b = rel_clean_below [OF assms t]
    have "toValid (validate_root root content lo hi) \<longleftrightarrow> lo \<le> length t \<and> length t \<le> hi"
      using ne b by (simp add: validate_root_def Let_def invalid_def not_less)
    then show ?thesis using t by simp
  next
    case False
    then have "\<not> toValid (validate_root root content lo hi)"
      using rel_below [OF assms] ne
      by (auto simp: validate_root_def Let_def invalid_def split: option.splits if_splits)
    moreover have "\<not> (\<exists>t. comps content = comps root @ t \<and> t \<noteq> [])"
      using False by (auto simp: strict_prefix_def)
    ultimately show ?thesis by blast
  qed
qed

lemma validate_paths_iff:
  assumes "is_abs content" "\<forall>p \<in> set ps. is_abs p" "toValid t"
  shows "toValid (validate_paths (clean content) ps t) \<longleftrightarrow> list_all (\<lambda>p. strict_prefix (comps content) (comps p)) ps"
  using assms(2)
proof (induction ps)
  case Nil
  then show ?case using assms(3) by simp
next
  case (Cons p ps)
  have "is_abs p" using Cons.prems by simp
  note b = rel_below [OF assms(1) this]
  show ?case
  proof (cases "rel (clean content) (clean p)")
    case None
    with b show ?thesis by simp
  next
    case (Some r)
    with b Cons show ?thesis by auto
  qed
qed

text \<open>C27. A series source is valid exactly when its content root lies one or two names below the
  Entry root and every media file strictly below the content root.\<close>

theorem series_topology_iff:
  assumes "is_abs root" "is_abs content" "list_all is_abs media" "media \<noteq> []"
  shows "toValid (validate_series root content media) \<longleftrightarrow>
    prefix (comps root) (comps content) \<and>
    length (comps content) - length (comps root) \<in> {1, 2} \<and>
    list_all (\<lambda>p. strict_prefix (comps content) (comps p)) media"
proof -
  have ne: "root \<noteq> []" "content \<noteq> []" using assms(1,2) by (auto simp: is_abs_def)
  have "toValid (validate_series root content media) \<longleftrightarrow>
      toValid (validate_series_root root content) \<and> list_all (\<lambda>p. strict_prefix (comps content) (comps p)) media"
    using ne assms validate_paths_iff [OF assms(2), of media "validate_series_root root content"]
    by (auto simp: validate_series_def validate_tree_def Let_def invalid_def list_all_iff)
  moreover have "toValid (validate_series_root root content) \<longleftrightarrow>
      prefix (comps root) (comps content) \<and> length (comps content) - length (comps root) \<in> {1, 2}"
    unfolding validate_series_root_def validate_root_iff [OF assms(1,2)]
    by (auto simp: prefix_def le_Suc_eq numeral_2_eq_2)
  ultimately show ?thesis by blast
qed

lemma series_topology_iff_witness:
  "toValid (validate_series ''/s'' ''/s/b'' [''/s/b/x'']) \<longleftrightarrow>
    prefix (comps ''/s'') (comps ''/s/b'') \<and> length (comps ''/s/b'') - length (comps ''/s'') \<in> {1, 2} \<and>
    list_all (\<lambda>p. strict_prefix (comps ''/s/b'') (comps p)) [''/s/b/x'']"
  by (rule series_topology_iff) (simp_all add: is_abs_def)



text \<open>A container named by two dots passes the check of the name, and the download is then
  placed beside its Entry instead of below it.\<close>

theorem dotdot_placement_escapes:
  "placement_for media_series MultiFile ''/s/E'' ''/s'' ''..'' = Inr ''/s'' \<and> \<not> within ''/s/E'' ''/s''"
proof -
  have t: "trim_space ''..'' = ''..''" by (simp add: name_values)
  have j: "join_path [''/s/E'', ''..''] = ''/s''"
    by (simp add: join_path_def clean_def comps_def is_abs_def render_def)
  have "\<not> prefix (comps ''/s/E'') (comps ''/s'')" by (simp add: comps_def is_abs_def)
  then show ?thesis
    by (simp add: placement_for_def t base_def j within_abs is_abs_def)
qed

definition sample_task :: Task where
  "sample_task = \<lparr> tkID = ''1'', tkInfoHash = [], tkName = ''x'', tkState = Completed, tkSavePath = [],
     tkContentPath = ''/s/x'', tkLabels = [], tkSources = [], tkError = [],
     tkCompletedAt = \<lparr> tmInstant = 0, tmLoc = 0 \<rparr> \<rparr>"


end
