(* ===== verification/Torrent.thy ===== *)
theory Torrent
  imports Identity
begin

text \<open>
  Package torrentmeta (torrentmeta/meta.go): the native name, files and info hash of a torrent
  file, read from its bencoding without building a tree. The reader walks the bytes by an
  index; every index arithmetic that can overflow is written out at 64 bits. The SHA-1 of the
  standard library is a parameter. Skipping a value recurses on nested containers; it is
  modelled with fuel, shown to be more than enough, and the fuel-free equations of the code are
  derived. The reader is shown to recover what an encoder of bencoded trees wrote.
\<close>

section \<open>Strings\<close>

datatype torrent_error =
    NoRootDictionary | NoInfo | NoInfoDictionary | NoName | NoFilesList | NoFileDictionary
  | UnterminatedFile | UnterminatedFiles | NoPathList | UnterminatedPath
  | UnexpectedEnd | UnterminatedInteger | EmptyInteger | UnterminatedContainer
  | NoString | BadLength | StringExceeds | OutOfFuel

record Metadata =
  mdName :: string
  mdFiles :: "string list"
  mdInfoHash :: string

definition wrap64 :: "int \<Rightarrow> int" where
  "wrap64 n = (n + 2 ^ 63) mod 2 ^ 64 - 2 ^ 63"

definition at :: "string \<Rightarrow> nat \<Rightarrow> char \<Rightarrow> bool" where
  "at data i c \<longleftrightarrow> i < length data \<and> data ! i = c"

definition read_string :: "string \<Rightarrow> nat \<Rightarrow> torrent_error + string \<times> nat" where
  "read_string data i =
     (if i \<ge> length data \<or> \<not> is_digit (data ! i) then Inl NoString
      else
        let ds = takeWhile is_digit (drop i data); colon = i + length ds; (n, ok) = atoi_full ds;
            start = Suc colon; stop = wrap64 (int start + n)
        in if \<not> at data colon CHR '':'' then Inl BadLength
           else if \<not> ok \<or> n < 0 then Inl BadLength
           else if stop < int start \<or> stop > int (length data) then Inl StringExceeds
           else Inr (substr data start (nat stop), nat stop))"

section \<open>Skipping a value\<close>

definition skip_integer :: "string \<Rightarrow> nat \<Rightarrow> torrent_error + nat" where
  "skip_integer data i =
     (let stop = Suc i + length (takeWhile (\<lambda>c. c \<noteq> CHR ''e'') (drop (Suc i) data))
      in if stop \<ge> length data then Inl UnterminatedInteger
         else if stop = Suc i then Inl EmptyInteger
         else Inr (Suc stop))"

definition skip_key :: "bool \<Rightarrow> string \<Rightarrow> nat \<Rightarrow> torrent_error + nat" where
  "skip_key dict data j =
     (if dict then (case read_string data j of Inl e \<Rightarrow> Inl e | Inr (_, next) \<Rightarrow> Inr next) else Inr j)"

fun skip_fuel :: "nat \<Rightarrow> string \<Rightarrow> nat \<Rightarrow> torrent_error + nat"
  and skip_items :: "nat \<Rightarrow> bool \<Rightarrow> string \<Rightarrow> nat \<Rightarrow> torrent_error + nat" where
  "skip_fuel 0 data i = Inl OutOfFuel"
| "skip_fuel (Suc f) data i =
     (if i \<ge> length data then Inl UnexpectedEnd
      else if data ! i = CHR ''i'' then skip_integer data i
      else if data ! i = CHR ''l'' \<or> data ! i = CHR ''d'' then skip_items f (data ! i = CHR ''d'') data (Suc i)
      else (case read_string data i of Inl e \<Rightarrow> Inl e | Inr (_, stop) \<Rightarrow> Inr stop))"
| "skip_items 0 dict data j = Inl OutOfFuel"
| "skip_items (Suc f) dict data j =
     (if j \<ge> length data then Inl UnterminatedContainer
      else if data ! j = CHR ''e'' then Inr (Suc j)
      else (case skip_key dict data j of
          Inl e \<Rightarrow> Inl e
        | Inr j1 \<Rightarrow> (case skip_fuel f data j1 of
              Inl e \<Rightarrow> Inl e
            | Inr j2 \<Rightarrow> skip_items f dict data j2)))"

definition skip_value :: "string \<Rightarrow> nat \<Rightarrow> torrent_error + nat" where
  "skip_value data i = skip_fuel (2 * length data + 3) data i"

definition skip_rest :: "bool \<Rightarrow> string \<Rightarrow> nat \<Rightarrow> torrent_error + nat" where
  "skip_rest dict data j = skip_items (2 * length data + 3) dict data j"

lemma read_string_progress:
  assumes "read_string data i = Inr (v, j)"
  shows "i < j \<and> j \<le> length data"
proof -
  let ?ds = "takeWhile is_digit (drop i data)"
  have i: "i < length data" using assms by (auto simp: read_string_def split: if_splits)
  obtain n ok where n: "atoi_full ?ds = (n, ok)" by force
  have "j = nat (wrap64 (int (Suc (i + length ?ds)) + n))"
    "int (Suc (i + length ?ds)) \<le> wrap64 (int (Suc (i + length ?ds)) + n)"
    "wrap64 (int (Suc (i + length ?ds)) + n) \<le> int (length data)"
    using assms i n by (auto simp: read_string_def Let_def split: if_splits)
  then show ?thesis by linarith
qed

lemma skip_integer_progress: "skip_integer data i = Inr j \<Longrightarrow> i < j \<and> j \<le> length data"
  by (auto simp: skip_integer_def Let_def split: if_splits)

lemma skip_key_progress: "skip_key dict data j = Inr k \<Longrightarrow> j < length data \<Longrightarrow> j \<le> k \<and> k \<le> length data"
  by (auto simp: skip_key_def dest: read_string_progress split: if_splits sum.splits)

lemma skip_progress:
  "skip_fuel f data i = Inr j \<Longrightarrow> i < j \<and> j \<le> length data"
  "skip_items f dict data i = Inr j \<Longrightarrow> i < j \<and> j \<le> length data"
proof (induction f data i and f dict data i arbitrary: j and j rule: skip_fuel_skip_items.induct)
  case (2 f data i)
  show ?case
  proof (cases "i < length data \<and> (data ! i = CHR ''l'' \<or> data ! i = CHR ''d'')")
    case True
    with 2 show ?thesis by (fastforce split: if_splits)
  next
    case False
    with 2(2) show ?thesis
      by (auto dest: skip_integer_progress read_string_progress split: if_splits sum.splits)
  qed
next
  case (4 f dict data j0)
  show ?case
  proof (cases "data ! j0 = CHR ''e''")
    case True
    with 4(3) show ?thesis by (auto split: if_splits)
  next
    case False
    with 4(3) obtain j1 j2 where s: "j0 < length data" "skip_key dict data j0 = Inr j1"
        "skip_fuel f data j1 = Inr j2" "skip_items f dict data j2 = Inr j"
      by (auto split: if_splits sum.splits)
    then show ?thesis
      using 4(1) [OF _ False s(2,3)] 4(2) [OF _ False s(2,3,4)] skip_key_progress [OF s(2,1)]
      by fastforce
  qed
qed simp_all

text \<open>Two units of fuel per remaining byte are enough, and more fuel changes nothing.\<close>

lemma read_string_no_fuel: "read_string data i \<noteq> Inl OutOfFuel"
  by (auto simp: read_string_def Let_def split: prod.splits)

lemma skip_integer_no_fuel: "skip_integer data i \<noteq> Inl OutOfFuel"
  by (auto simp: skip_integer_def Let_def)

lemma skip_key_no_fuel: "skip_key dict data i \<noteq> Inl OutOfFuel"
  using read_string_no_fuel [of data i] by (auto simp: skip_key_def split: sum.splits)

lemma skip_enough:
  "2 * (length data - i) + 1 \<le> f \<Longrightarrow> skip_fuel f data i \<noteq> Inl OutOfFuel"
  "2 * (length data - i) + 2 \<le> f \<Longrightarrow> skip_items f dict data i \<noteq> Inl OutOfFuel"
proof (induction f data i and f dict data i rule: skip_fuel_skip_items.induct)
  case (2 f data i)
  show ?case
  proof (cases "i < length data")
    case True
    then have "2 * (length data - Suc i) + 2 \<le> f" using 2(2) by linarith
    then show ?thesis
      using 2(1) True skip_integer_no_fuel [of data i] read_string_no_fuel [of data i]
      by (auto split: sum.splits)
  qed simp
next
  case (4 f dict data j0)
  show ?case
  proof (cases "j0 < length data \<and> data ! j0 \<noteq> CHR ''e''")
    case True
    show ?thesis
    proof (cases "skip_key dict data j0")
      case (Inl e)
      with True skip_key_no_fuel [of dict data j0] show ?thesis by auto
    next
      case (Inr j1)
      have le: "j0 \<le> j1" "j1 \<le> length data" using skip_key_progress [OF Inr] True by auto
      have f1: "skip_fuel f data j1 \<noteq> Inl OutOfFuel"
        using True Inr le 4(3) by (intro 4(1)) auto
      show ?thesis
      proof (cases "skip_fuel f data j1")
        case (Inl e)
        with True Inr f1 show ?thesis by auto
      next
        case (Inr j2)
        have lt: "j1 < j2" "j2 \<le> length data" using skip_progress(1) [OF Inr] by auto
        have "skip_items f dict data j2 \<noteq> Inl OutOfFuel"
          using True \<open>skip_key dict data j0 = Inr j1\<close> Inr le lt 4(3) by (intro 4(2)) auto
        with True \<open>skip_key dict data j0 = Inr j1\<close> Inr show ?thesis by simp
      qed
    qed
  qed auto
qed simp_all

lemma skip_more:
  "skip_fuel f data i = r \<Longrightarrow> r \<noteq> Inl OutOfFuel \<Longrightarrow> f \<le> g \<Longrightarrow> skip_fuel g data i = r"
  "skip_items f dict data i = r \<Longrightarrow> r \<noteq> Inl OutOfFuel \<Longrightarrow> f \<le> g \<Longrightarrow> skip_items g dict data i = r"
proof (induction f data i and f dict data i arbitrary: g r and g r rule: skip_fuel_skip_items.induct)
  case (2 f data i)
  from 2(4) obtain g' where g: "g = Suc g'" "f \<le> g'" by (cases g) auto
  show ?case
  proof (cases "i < length data \<and> data ! i \<noteq> CHR ''i'' \<and> (data ! i = CHR ''l'' \<or> data ! i = CHR ''d'')")
    case True
    have step: "skip_fuel (Suc h) data i = skip_items h (data ! i = CHR ''d'') data (Suc i)" for h
      using True by (simp only: skip_fuel.simps) simp
    have "skip_items f (data ! i = CHR ''d'') data (Suc i) = r" using 2(2) unfolding step .
    moreover have "\<not> length data \<le> i" "data ! i \<noteq> CHR ''i''" "data ! i = CHR ''l'' \<or> data ! i = CHR ''d''"
      using True by auto
    ultimately have "skip_items g' (data ! i = CHR ''d'') data (Suc i) = r"
      using 2(1) 2(3) g(2) by blast
    then show ?thesis unfolding g step .
  next
    case False
    then have "skip_fuel (Suc h) data i = skip_fuel (Suc f) data i" for h by auto
    with 2(2) show ?thesis unfolding g by blast
  qed
next
  case (4 f dict data j0)
  from 4(5) obtain g' where g: "g = Suc g'" "f \<le> g'" by (cases g) auto
  show ?case
  proof (cases "j0 < length data \<and> data ! j0 \<noteq> CHR ''e'' \<and> (\<exists>j1. skip_key dict data j0 = Inr j1)")
    case True
    then obtain j1 where j1: "skip_key dict data j0 = Inr j1" by blast
    have step: "skip_items (Suc h) dict data j0 = (case skip_fuel h data j1 of
        Inl e \<Rightarrow> Inl e | Inr j2 \<Rightarrow> skip_items h dict data j2)" for h using True j1 by simp
    have nf: "skip_fuel f data j1 \<noteq> Inl OutOfFuel"
      using 4(3,4) unfolding step by auto
    have same: "skip_fuel g' data j1 = skip_fuel f data j1"
    proof (rule 4(1))
      show "\<not> length data \<le> j0" "data ! j0 \<noteq> CHR ''e''" using True by auto
    qed (use j1 nf g(2) in simp_all)
    show ?thesis
    proof (cases "skip_fuel f data j1")
      case (Inl e)
      have "r = Inl e" using 4(3) unfolding step Inl by simp
      then show ?thesis unfolding g step same Inl by simp
    next
      case (Inr j2)
      then have "skip_items f dict data j2 = r" using 4(3) unfolding step by simp
      have "skip_items g' dict data j2 = r"
      proof (rule 4(2))
        show "\<not> length data \<le> j0" "data ! j0 \<noteq> CHR ''e''" using True by auto
      qed (use j1 Inr 4(4) g(2) \<open>skip_items f dict data j2 = r\<close> in simp_all)
      then show ?thesis unfolding g step same Inr by simp
    qed
  next
    case False
    then have "skip_items (Suc h) dict data j0 = skip_items (Suc f) dict data j0" for h
      by (cases "skip_key dict data j0") auto
    with 4(3) show ?thesis unfolding g by blast
  qed
qed auto

text \<open>Hence any two sufficient amounts agree, and the equations of the code hold without fuel.\<close>

lemma skip_fuel_value: "2 * (length data - i) + 1 \<le> f \<Longrightarrow> skip_fuel f data i = skip_value data i"
  using skip_more(1) [of f data i "skip_fuel f data i" "2 * length data + 3"]
    skip_more(1) [of "2 * length data + 3" data i "skip_value data i" f] skip_enough(1) [of data i]
  by (cases "f \<le> 2 * length data + 3") (auto simp: skip_value_def)

lemma skip_items_rest: "2 * (length data - i) + 2 \<le> f \<Longrightarrow> skip_items f dict data i = skip_rest dict data i"
  using skip_more(2) [of f dict data i "skip_items f dict data i" "2 * length data + 3"]
    skip_more(2) [of "2 * length data + 3" dict data i "skip_rest dict data i" f] skip_enough(2) [of data i _ dict]
  by (cases "f \<le> 2 * length data + 3") (auto simp: skip_rest_def)

lemma skip_value_unfold:
  "skip_value data i =
     (if i \<ge> length data then Inl UnexpectedEnd
      else if data ! i = CHR ''i'' then skip_integer data i
      else if data ! i = CHR ''l'' \<or> data ! i = CHR ''d'' then skip_rest (data ! i = CHR ''d'') data (Suc i)
      else (case read_string data i of Inl e \<Rightarrow> Inl e | Inr (_, stop) \<Rightarrow> Inr stop))"
proof -
  have f: "skip_value data i = skip_fuel (Suc (2 * length data + 2)) data i"
    by (simp add: skip_value_def numeral_3_eq_3)
  have "skip_items (2 * length data + 2) dict data (Suc i) = skip_rest dict data (Suc i)" for dict
    by (rule skip_items_rest) linarith
  then show ?thesis unfolding f skip_fuel.simps by simp
qed

lemma skip_rest_unfold:
  "skip_rest dict data j =
     (if j \<ge> length data then Inl UnterminatedContainer
      else if data ! j = CHR ''e'' then Inr (Suc j)
      else (case skip_key dict data j of
          Inl e \<Rightarrow> Inl e
        | Inr j1 \<Rightarrow> (case skip_value data j1 of
              Inl e \<Rightarrow> Inl e
            | Inr j2 \<Rightarrow> skip_rest dict data j2)))"
proof -
  let ?f = "2 * length data + 2"
  have f: "skip_rest dict data j = skip_items (Suc ?f) dict data j"
    by (simp add: skip_rest_def numeral_3_eq_3)
  have v: "skip_fuel ?f data j1 = skip_value data j1" for j1 by (rule skip_fuel_value) linarith
  have r: "skip_items ?f dict data j2 = skip_rest dict data j2" for j2 by (rule skip_items_rest) linarith
  show ?thesis unfolding f skip_items.simps v r ..
qed

lemma skip_value_progress: "skip_value data i = Inr j \<Longrightarrow> i < j \<and> j \<le> length data"
  unfolding skip_value_def by (rule skip_progress(1))

section \<open>Paths, files and the info dictionary\<close>

text \<open>The loop over a list of strings: the strings and the index where it stops.\<close>

function string_items :: "string \<Rightarrow> nat \<Rightarrow> torrent_error + string list \<times> nat" where
  "string_items data j =
     (if j \<ge> length data \<or> data ! j = CHR ''e'' then Inr ([], j)
      else (case read_string data j of
          Inl e \<Rightarrow> Inl e
        | Inr (v, next) \<Rightarrow>
            (case string_items data next of Inl e \<Rightarrow> Inl e | Inr (vs, k) \<Rightarrow> Inr (v # vs, k))))"
  by pat_completeness auto
termination
  by (relation "measure (\<lambda>(data, j). length data - j)") (auto dest!: read_string_progress)

declare string_items.simps [simp del]

definition read_string_list :: "string \<Rightarrow> nat \<Rightarrow> torrent_error + string list \<times> nat" where
  "read_string_list data i =
     (if \<not> at data i CHR ''l'' then Inl NoPathList
      else (case string_items data (Suc i) of
          Inl e \<Rightarrow> Inl e
        | Inr (out, j) \<Rightarrow> if at data j CHR ''e'' then Inr (out, Suc j) else Inl UnterminatedPath))"

lemma string_items_progress: "string_items data j = Inr (vs, k) \<Longrightarrow> j \<le> k"
proof (induction data j arbitrary: vs k rule: string_items.induct)
  case (1 data j)
  show ?case
  proof (cases "j \<ge> length data \<or> data ! j = CHR ''e''")
    case True
    with 1(2) show ?thesis by (simp add: string_items.simps [of data j])
  next
    case False
    with 1(2) obtain v next' vs' where s: "read_string data j = Inr (v, next')"
        "string_items data next' = Inr (vs', k)"
      by (auto simp: string_items.simps [of data j] split: sum.splits)
    have "next' \<le> k" using 1(1) [OF False s(1) refl s(2)] .
    with read_string_progress [OF s(1)] show ?thesis by linarith
  qed
qed

lemma read_string_list_progress: "read_string_list data i = Inr (vs, k) \<Longrightarrow> i < k"
  by (auto simp: read_string_list_def split: if_splits sum.splits dest: string_items_progress)

text \<open>
  The keys of one file: the plain path and the UTF-8 path, and the index where the loop stops.
\<close>

definition file_key ::
    "string \<Rightarrow> string \<Rightarrow> nat \<Rightarrow> string list \<times> string list \<Rightarrow> torrent_error + (string list \<times> string list) \<times> nat" where
  "file_key key data i paths =
     (if key = ''path'' \<or> key = ''path.utf-8'' then
        (case read_string_list data i of
           Inl e \<Rightarrow> Inl e
         | Inr (parts, stop) \<Rightarrow>
             Inr (if key = ''path.utf-8'' then (fst paths, parts) else (parts, snd paths), stop))
      else (case skip_value data i of Inl e \<Rightarrow> Inl e | Inr stop \<Rightarrow> Inr (paths, stop)))"

lemma file_key_progress: "file_key key data i paths = Inr (paths', j) \<Longrightarrow> i < j"
  by (auto simp: file_key_def dest: read_string_list_progress skip_value_progress split: if_splits sum.splits)

function file_keys ::
    "string \<Rightarrow> nat \<Rightarrow> string list \<times> string list \<Rightarrow> torrent_error + (string list \<times> string list) \<times> nat" where
  "file_keys data i paths =
     (if i \<ge> length data \<or> data ! i = CHR ''e'' then Inr (paths, i)
      else (case read_string data i of
          Inl e \<Rightarrow> Inl e
        | Inr (key, next) \<Rightarrow>
            (case file_key key data next paths of
               Inl e \<Rightarrow> Inl e
             | Inr (paths', j) \<Rightarrow> file_keys data j paths')))"
  by pat_completeness auto
termination
  by (relation "measure (\<lambda>(data, i, paths). length data - i)")
    (auto dest!: read_string_progress file_key_progress)

declare file_keys.simps [simp del]

lemma file_keys_progress: "file_keys data i paths = Inr (paths', k) \<Longrightarrow> i \<le> k"
proof (induction data i paths rule: file_keys.induct)
  case (1 data i paths)
  show ?case
  proof (cases "i \<ge> length data \<or> data ! i = CHR ''e''")
    case True
    with 1(2) show ?thesis by (simp add: file_keys.simps [of data i])
  next
    case False
    with 1(2) obtain key next' p j where s: "read_string data i = Inr (key, next')"
        "file_key key data next' paths = Inr (p, j)" "file_keys data j p = Inr (paths', k)"
      by (auto simp: file_keys.simps [of data i] split: sum.splits)
    have "j \<le> k" using 1(1) [OF False s(1) refl s(2) refl s(3)] .
    with read_string_progress [OF s(1)] file_key_progress [OF s(2)] show ?thesis by linarith
  qed
qed

definition file_names :: "string list \<times> string list \<Rightarrow> string list" where
  "file_names paths =
     (let parts = (if snd paths \<noteq> [] then snd paths else fst paths)
      in if parts \<noteq> [] then [join_with ''/'' parts] else [])"

function file_items :: "string \<Rightarrow> nat \<Rightarrow> torrent_error + string list \<times> nat" where
  "file_items data i =
     (if i \<ge> length data \<or> data ! i = CHR ''e'' then Inr ([], i)
      else if data ! i \<noteq> CHR ''d'' then Inl NoFileDictionary
      else (case file_keys data (Suc i) ([], []) of
          Inl e \<Rightarrow> Inl e
        | Inr (paths, j) \<Rightarrow>
            if \<not> at data j CHR ''e'' then Inl UnterminatedFile
            else (case file_items data (Suc j) of
                Inl e \<Rightarrow> Inl e
              | Inr (out, k) \<Rightarrow> Inr (file_names paths @ out, k))))"
  by pat_completeness auto
termination
  by (relation "measure (\<lambda>(data, i). length data - i)") (auto dest!: file_keys_progress)

declare file_items.simps [simp del]

definition read_file_list :: "string \<Rightarrow> nat \<Rightarrow> torrent_error + string list \<times> nat" where
  "read_file_list data i =
     (if \<not> at data i CHR ''l'' then Inl NoFilesList
      else (case file_items data (Suc i) of
          Inl e \<Rightarrow> Inl e
        | Inr (out, j) \<Rightarrow> if at data j CHR ''e'' then Inr (out, Suc j) else Inl UnterminatedFiles))"

lemma file_items_progress: "file_items data i = Inr (out, k) \<Longrightarrow> i \<le> k"
proof (induction data i arbitrary: out k rule: file_items.induct)
  case (1 data i)
  show ?case
  proof (cases "i \<ge> length data \<or> data ! i = CHR ''e''")
    case True
    with 1(2) show ?thesis by (simp add: file_items.simps [of data i])
  next
    case False
    with 1(2) obtain paths j out' where s: "\<not> data ! i \<noteq> CHR ''d''" "file_keys data (Suc i) ([], []) = Inr (paths, j)"
        "\<not> \<not> at data j CHR ''e''" "file_items data (Suc j) = Inr (out', k)"
      by (auto simp: file_items.simps [of data i] split: sum.splits if_splits)
    have "Suc j \<le> k" using 1(1) [OF False s(1) s(2) refl s(3) s(4)] .
    with file_keys_progress [OF s(2)] show ?thesis by linarith
  qed
qed

lemma read_file_list_progress: "read_file_list data i = Inr (out, k) \<Longrightarrow> i < k"
  by (auto simp: read_file_list_def split: if_splits sum.splits dest: file_items_progress)

record info_state =
  inPlain :: string
  inUTF8 :: string
  inFiles :: "string list"

definition info_key :: "string \<Rightarrow> string \<Rightarrow> nat \<Rightarrow> info_state \<Rightarrow> torrent_error + info_state \<times> nat" where
  "info_key key info i st =
     (if key = ''name'' \<or> key = ''name.utf-8'' then
        (case read_string info i of
           Inl e \<Rightarrow> Inl e
         | Inr (v, stop) \<Rightarrow>
             Inr (if key = ''name.utf-8'' then st\<lparr> inUTF8 := v \<rparr> else st\<lparr> inPlain := v \<rparr>, stop))
      else if key = ''files'' then
        (case read_file_list info i of
           Inl e \<Rightarrow> Inl e | Inr (vs, stop) \<Rightarrow> Inr (st\<lparr> inFiles := vs \<rparr>, stop))
      else (case skip_value info i of Inl e \<Rightarrow> Inl e | Inr stop \<Rightarrow> Inr (st, stop)))"

lemma info_key_progress: "info_key key info i st = Inr (st', j) \<Longrightarrow> i < j"
  by (auto simp: info_key_def split: if_splits sum.splits
      dest: read_string_progress read_file_list_progress skip_value_progress)

function info_keys :: "string \<Rightarrow> nat \<Rightarrow> info_state \<Rightarrow> torrent_error + info_state" where
  "info_keys info i st =
     (if i \<ge> length info \<or> info ! i = CHR ''e'' then Inr st
      else (case read_string info i of
          Inl e \<Rightarrow> Inl e
        | Inr (key, next) \<Rightarrow>
            (case info_key key info next st of
               Inl e \<Rightarrow> Inl e
             | Inr (st', j) \<Rightarrow> info_keys info j st')))"
  by pat_completeness auto
termination
  by (relation "measure (\<lambda>(info, i, st). length info - i)")
    (auto dest!: read_string_progress info_key_progress)

declare info_keys.simps [simp del]

definition no_info :: info_state where
  "no_info = \<lparr> inPlain = [], inUTF8 = [], inFiles = [] \<rparr>"

definition info_identity :: "string \<Rightarrow> torrent_error + string \<times> string list" where
  "info_identity info =
     (if \<not> at info 0 CHR ''d'' then Inl NoInfoDictionary
      else (case info_keys info 1 no_info of
          Inl e \<Rightarrow> Inl e
        | Inr st \<Rightarrow>
            let name = (if inUTF8 st \<noteq> [] then inUTF8 st else inPlain st)
            in if name = [] then Inl NoName else Inr (name, inFiles st)))"

function root_keys :: "string \<Rightarrow> nat \<Rightarrow> nat \<times> nat \<Rightarrow> torrent_error + nat \<times> nat" where
  "root_keys data i span =
     (if i \<ge> length data \<or> data ! i = CHR ''e'' then Inr span
      else (case read_string data i of
          Inl e \<Rightarrow> Inl e
        | Inr (key, start) \<Rightarrow>
            (case skip_value data start of
               Inl e \<Rightarrow> Inl e
             | Inr stop \<Rightarrow> root_keys data stop (if key = ''info'' then (start, stop) else span))))"
  by pat_completeness auto
termination
  by (relation "measure (\<lambda>(data, i, span). length data - i)")
    (auto dest!: read_string_progress skip_value_progress)

declare root_keys.simps [simp del]

definition parse_torrent :: "(string \<Rightarrow> nat list) \<Rightarrow> string \<Rightarrow> torrent_error + Metadata" where
  "parse_torrent sha1 data =
     (if \<not> at data 0 CHR ''d'' then Inl NoRootDictionary
      else (case root_keys data 1 (0, 0) of
          Inl e \<Rightarrow> Inl e
        | Inr (start, stop) \<Rightarrow>
            if start = 0 \<or> stop \<le> start then Inl NoInfo
            else (case info_identity (substr data start stop) of
                Inl e \<Rightarrow> Inl e
              | Inr (name, files) \<Rightarrow>
                  Inr \<lparr> mdName = name, mdFiles = files,
                        mdInfoHash = hex_encode (sha1 (substr data start stop)) \<rparr>)))"

section \<open>Bencoded trees\<close>

datatype bvalue = BInt string | BStr string | BList "bvalue list" | BDict "(string \<times> bvalue) list"

definition encode_string :: "string \<Rightarrow> string" where
  "encode_string s = show_nat (length s) @ CHR '':'' # s"

fun encode :: "bvalue \<Rightarrow> string" where
  "encode (BInt ds) = CHR ''i'' # ds @ ''e''"
| "encode (BStr s) = encode_string s"
| "encode (BList vs) = CHR ''l'' # concat (map encode vs) @ ''e''"
| "encode (BDict kvs) = CHR ''d'' # concat (map (\<lambda>kv. encode_string (fst kv) @ encode (snd kv)) kvs) @ ''e''"

fun wf_value :: "bvalue \<Rightarrow> bool" where
  "wf_value (BInt ds) \<longleftrightarrow> ds \<noteq> [] \<and> CHR ''e'' \<notin> set ds"
| "wf_value (BStr s) \<longleftrightarrow> True"
| "wf_value (BList vs) \<longleftrightarrow> (\<forall>v \<in> set vs. wf_value v)"
| "wf_value (BDict kvs) \<longleftrightarrow> (\<forall>kv \<in> set kvs. wf_value (snd kv))"

text \<open>\<open>here data i t\<close>: the text \<open>t\<close> stands in the data at index \<open>i\<close>.\<close>

definition here :: "string \<Rightarrow> nat \<Rightarrow> string \<Rightarrow> bool" where
  "here data i t \<longleftrightarrow> prefix t (drop i data)"

lemma here_Nil [simp]: "here data i []"
  by (simp add: here_def)

lemma here_Cons [simp]: "here data i (c # t) \<longleftrightarrow> at data i c \<and> here data (Suc i) t"
proof (cases "i < length data")
  case True
  then show ?thesis by (auto simp: here_def at_def Cons_nth_drop_Suc [symmetric])
qed (simp add: here_def at_def)

lemma here_append [simp]: "here data i (t @ u) \<longleftrightarrow> here data i t \<and> here data (i + length t) u"
  by (induction t arbitrary: i) auto

lemma here_bound: "here data i t \<Longrightarrow> t \<noteq> [] \<Longrightarrow> i + length t \<le> length data"
  by (induction t arbitrary: i rule: rev_induct) (auto simp: at_def)

lemma here_substr: "here data i t \<Longrightarrow> i \<le> length data \<Longrightarrow> substr data i (i + length t) = t"
  unfolding here_def substr_def by (auto simp: prefix_def)

lemma here_self: "here data 0 data"
  by (simp add: here_def)

lemma wrap64_id: "0 \<le> n \<Longrightarrow> n \<le> max_int \<Longrightarrow> wrap64 n = n"
  by (simp add: wrap64_def max_int_def)

lemma atoi_show_nat:
  assumes "int n \<le> max_int"
  shows "atoi_full (show_nat n) = (int n, True)"
proof -
  have d: "list_all is_digit (show_nat n)" using show_nat_digits by (simp add: list_all_iff)
  obtain c cs where c: "show_nat n = c # cs" using show_nat_nonempty by (cases "show_nat n") blast+
  have "is_digit c" using d c by simp
  then have "c \<noteq> CHR ''-''" "c \<noteq> CHR ''+''" by (auto simp: is_digit_def)
  with d c assms show ?thesis
    by (auto simp: atoi_full_def Let_def read_show_nat [of n, unfolded c])
qed

lemma digits_here:
  assumes "here data i (ds @ [c])" "\<forall>d \<in> set ds. is_digit d" "\<not> is_digit c"
  shows "takeWhile is_digit (drop i data) = ds"
proof -
  obtain r where "drop i data = ds @ c # r" using assms(1) unfolding here_def by (auto simp: prefix_def)
  then show ?thesis using assms(2,3) by (simp add: takeWhile_tail)
qed

lemma read_here:
  assumes "here data i (encode_string s)" "int (length data) \<le> max_int"
  shows "read_string data i = Inr (s, i + length (encode_string s))"
proof -
  let ?ds = "show_nat (length s)"
  have h: "here data i (?ds @ [CHR '':''])" "here data (i + length ?ds + 1) s" "at data (i + length ?ds) CHR '':''"
    using assms(1) by (simp_all add: encode_string_def)
  have tw: "takeWhile is_digit (drop i data) = ?ds"
    using h(1) show_nat_digits by (intro digits_here [where c = "CHR '':''"]) (auto simp: is_digit_def)
  have b: "i + length (encode_string s) \<le> length data"
    using here_bound [OF assms(1)] by (simp add: encode_string_def)
  then have len: "int (length s) \<le> max_int" "int (Suc (i + length ?ds)) + int (length s) \<le> max_int"
    using assms(2) by (simp_all add: encode_string_def)
  obtain c cs where c: "?ds = c # cs" using show_nat_nonempty by (cases ?ds) blast+
  then have "is_digit c" "at data i c" using show_nat_digits [of "length s"] h(1) by auto
  then have dig: "i < length data" "is_digit (data ! i)" by (auto simp: at_def)
  have sub: "substr data (Suc (i + length ?ds)) (Suc (i + length ?ds) + length s) = s"
    using here_substr [OF h(2)] b by (simp add: encode_string_def)
  have w: "wrap64 (int (Suc (i + length ?ds)) + int (length s)) = int (Suc (i + length ?ds)) + int (length s)"
    using len by (intro wrap64_id) simp_all
  have n: "nat (int (Suc (i + length ?ds)) + int (length s)) = Suc (i + length ?ds) + length s" by simp
  show ?thesis
    unfolding read_string_def Let_def tw atoi_show_nat [OF len(1)] prod.case w n
    using dig h(3) b sub by (simp add: encode_string_def)
qed

lemma digit_first: "\<exists>c. encode_string s = c # tl (encode_string s) \<and> is_digit c"
proof -
  obtain c cs where c: "show_nat (length s) = c # cs" using show_nat_nonempty by (cases "show_nat (length s)") blast+
  then have "is_digit c" using show_nat_digits [of "length s"] by simp
  with c show ?thesis by (simp add: encode_string_def)
qed

lemma encode_first: "\<exists>c r. encode v = c # r \<and> c \<noteq> CHR ''e''"
  using digit_first by (cases v) (fastforce simp: is_digit_def)+

section \<open>Skipping an encoded value\<close>

lemma skip_integer_here:
  assumes "here data (Suc i) (ds @ ''e'')" "ds \<noteq> []" "CHR ''e'' \<notin> set ds"
  shows "skip_integer data i = Inr (i + length ds + 2)"
proof -
  obtain r where "drop (Suc i) data = ds @ CHR ''e'' # r"
    using assms(1) unfolding here_def by (auto simp: prefix_def)
  then have "takeWhile (\<lambda>c. c \<noteq> CHR ''e'') (drop (Suc i) data) = ds"
    using assms(3) by (subst \<open>drop (Suc i) data = _\<close>, subst takeWhile_append2) auto
  moreover have "Suc i + length ds < length data" using assms(1) by (simp add: at_def)
  ultimately show ?thesis using assms(2) by (simp add: skip_integer_def Let_def)
qed

lemma skip_items_here:
  assumes "\<And>kv j. kv \<in> set kvs \<Longrightarrow> here data j (encode (snd kv)) \<Longrightarrow>
      skip_value data j = Inr (j + length (encode (snd kv)))"
    and "here data j (concat (map (\<lambda>kv. (if dict then encode_string (fst kv) else []) @ encode (snd kv)) kvs) @ ''e'')"
    and "int (length data) \<le> max_int"
  shows "skip_rest dict data j = Inr (j + length (concat (map (\<lambda>kv. (if dict then encode_string (fst kv) else []) @ encode (snd kv)) kvs)) + 1)"
  using assms(1,2)
proof (induction kvs arbitrary: j)
  case Nil
  then show ?case by (subst skip_rest_unfold) (simp add: at_def)
next
  case (Cons kv kvs)
  let ?k = "if dict then encode_string (fst kv) else []"
  have h: "here data j (?k @ encode (snd kv))" using Cons.prems(2) by simp
  obtain c r where c: "?k @ encode (snd kv) = c # r" "c \<noteq> CHR ''e''"
  proof (cases dict)
    case True
    from digit_first [of "fst kv"] obtain c r where c: "encode_string (fst kv) = c # r" "is_digit c" by blast
    then have "?k @ encode (snd kv) = c # r @ encode (snd kv)" using True by simp
    moreover have "c \<noteq> CHR ''e''" using c(2) by (auto simp: is_digit_def)
    ultimately show ?thesis using that by blast
  next
    case False
    with encode_first [of "snd kv"] that show ?thesis by auto
  qed
  have j: "j < length data" "data ! j \<noteq> CHR ''e''" using h c by (auto simp: at_def simp del: here_append)
  have k: "skip_key dict data j = Inr (j + length ?k)"
    using h read_here [of data j "fst kv"] assms(3) by (cases dict) (simp_all add: skip_key_def)
  have v: "skip_value data (j + length ?k) = Inr (j + length ?k + length (encode (snd kv)))"
    using h Cons.prems(1) [of kv] by simp
  have "skip_rest dict data (j + length ?k + length (encode (snd kv))) =
      Inr (j + length ?k + length (encode (snd kv)) +
        length (concat (map (\<lambda>kv. (if dict then encode_string (fst kv) else []) @ encode (snd kv)) kvs)) + 1)"
    using Cons.prems by (intro Cons.IH) (auto simp: add.assoc)
  then show ?case using j k v by (subst skip_rest_unfold) (simp add: add.assoc)
qed

lemma skip_here:
  "wf_value v \<Longrightarrow> here data i (encode v) \<Longrightarrow> int (length data) \<le> max_int \<Longrightarrow>
   skip_value data i = Inr (i + length (encode v))"
proof (induction v arbitrary: i)
  case (BInt ds)
  then show ?case using skip_integer_here [of data i ds] by (subst skip_value_unfold) (auto simp: at_def)
next
  case (BStr s)
  obtain c where c: "encode_string s = c # tl (encode_string s)" "is_digit c" using digit_first by blast
  then have "at data i c" using BStr(2) by (metis encode.simps(2) here_Cons)
  then have "i < length data" "data ! i \<noteq> CHR ''i''" "data ! i \<noteq> CHR ''l''" "data ! i \<noteq> CHR ''d''"
    using c(2) by (auto simp: at_def is_digit_def)
  then show ?case using read_here [of data i s] BStr by (subst skip_value_unfold) simp
next
  case (BList vs)
  let ?kvs = "map (\<lambda>v. ([], v)) vs :: (string \<times> bvalue) list"
  have c: "concat (map (\<lambda>kv. (if False then encode_string (fst kv) else []) @ encode (snd kv)) ?kvs) = concat (map encode vs)"
    by (simp add: comp_def)
  have "skip_rest False data (Suc i) =
      Inr (Suc i + length (concat (map (\<lambda>kv. (if False then encode_string (fst kv) else []) @ encode (snd kv)) ?kvs)) + 1)"
  proof (rule skip_items_here)
    fix kv j assume "kv \<in> set ?kvs" "here data j (encode (snd kv))"
    then show "skip_value data j = Inr (j + length (encode (snd kv)))" using BList.IH BList.prems by auto
  qed (use BList.prems c in simp_all)
  then have "skip_rest False data (Suc i) = Inr (Suc i + length (concat (map encode vs)) + 1)" unfolding c .
  then show ?case using BList(3) by (subst skip_value_unfold) (auto simp: at_def)
next
  case (BDict kvs)
  have "skip_rest True data (Suc i) =
      Inr (Suc i + length (concat (map (\<lambda>kv. encode_string (fst kv) @ encode (snd kv)) kvs)) + 1)"
  proof -
    have "skip_rest True data (Suc i) =
        Inr (Suc i + length (concat (map (\<lambda>kv. (if True then encode_string (fst kv) else []) @ encode (snd kv)) kvs)) + 1)"
    proof (rule skip_items_here)
      fix kv j assume kv: "kv \<in> set kvs" "here data j (encode (snd kv))"
      have "wf_value (snd kv)" using BDict.prems(1) kv(1) by simp
      with kv BDict.prems(3) show "skip_value data j = Inr (j + length (encode (snd kv)))"
        by (intro BDict.IH [of kv "snd kv"]) (simp_all add: snds.intros)
    qed (use BDict.prems in simp_all)
    then show ?thesis by simp
  qed
  then show ?case using BDict(3) by (subst skip_value_unfold) (auto simp: at_def)
qed

section \<open>What a torrent says, read off its tree\<close>

fun strings_of :: "bvalue \<Rightarrow> string list" where
  "strings_of (BList vs) = concat (map (\<lambda>v. case v of BStr s \<Rightarrow> [s] | _ \<Rightarrow> []) vs)"
| "strings_of _ = []"

fun is_string :: "bvalue \<Rightarrow> bool" where
  "is_string (BStr s) \<longleftrightarrow> True" | "is_string _ \<longleftrightarrow> False"

fun is_strings :: "bvalue \<Rightarrow> bool" where
  "is_strings (BList vs) \<longleftrightarrow> list_all is_string vs" | "is_strings _ \<longleftrightarrow> False"

definition tree_file_key :: "string \<times> bvalue \<Rightarrow> string list \<times> string list \<Rightarrow> string list \<times> string list" where
  "tree_file_key kv paths =
     (if fst kv = ''path.utf-8'' then (fst paths, strings_of (snd kv))
      else if fst kv = ''path'' then (strings_of (snd kv), snd paths) else paths)"

fun tree_file :: "bvalue \<Rightarrow> string list" where
  "tree_file (BDict kvs) = file_names (fold tree_file_key kvs ([], []))"
| "tree_file _ = []"

fun is_file :: "bvalue \<Rightarrow> bool" where
  "is_file (BDict kvs) \<longleftrightarrow>
     list_all (\<lambda>kv. wf_value (snd kv) \<and> (fst kv \<in> {''path'', ''path.utf-8''} \<longrightarrow> is_strings (snd kv))) kvs"
| "is_file _ \<longleftrightarrow> False"

fun tree_files :: "bvalue \<Rightarrow> string list" where
  "tree_files (BList vs) = concat (map tree_file vs)"
| "tree_files _ = []"

fun is_files :: "bvalue \<Rightarrow> bool" where
  "is_files (BList vs) \<longleftrightarrow> list_all is_file vs" | "is_files _ \<longleftrightarrow> False"

fun bytes_of :: "bvalue \<Rightarrow> string" where
  "bytes_of (BStr s) = s" | "bytes_of _ = []"

definition tree_info_key :: "string \<times> bvalue \<Rightarrow> info_state \<Rightarrow> info_state" where
  "tree_info_key kv st =
     (if fst kv = ''name.utf-8'' then st\<lparr> inUTF8 := bytes_of (snd kv) \<rparr>
      else if fst kv = ''name'' then st\<lparr> inPlain := bytes_of (snd kv) \<rparr>
      else if fst kv = ''files'' then st\<lparr> inFiles := tree_files (snd kv) \<rparr> else st)"

fun is_info :: "bvalue \<Rightarrow> bool" where
  "is_info (BDict kvs) \<longleftrightarrow>
     list_all (\<lambda>kv. wf_value (snd kv) \<and>
       (fst kv \<in> {''name'', ''name.utf-8''} \<longrightarrow> is_string (snd kv)) \<and>
       (fst kv = ''files'' \<longrightarrow> is_files (snd kv))) kvs"
| "is_info _ \<longleftrightarrow> False"

fun info_entries :: "bvalue \<Rightarrow> (string \<times> bvalue) list" where
  "info_entries (BDict kvs) = kvs" | "info_entries _ = []"

definition tree_info :: "bvalue \<Rightarrow> info_state" where
  "tree_info v = fold tree_info_key (info_entries v) no_info"

section \<open>The reader recovers the tree\<close>

definition item :: "string \<times> bvalue \<Rightarrow> string" where
  "item kv = encode_string (fst kv) @ encode (snd kv)"

lemma encode_dict: "encode (BDict kvs) = CHR ''d'' # concat (map item kvs) @ ''e''"
proof -
  have "(\<lambda>kv. encode_string (fst kv) @ encode (snd kv)) = item" by (simp add: item_def fun_eq_iff)
  then show ?thesis by simp
qed

lemma item_first: "here data i (item kv) \<Longrightarrow> i < length data \<and> data ! i \<noteq> CHR ''e''"
proof -
  assume h: "here data i (item kv)"
  obtain c where c: "encode_string (fst kv) = c # tl (encode_string (fst kv))" "is_digit c"
    using digit_first by blast
  have "here data i (encode_string (fst kv))" using h by (simp add: item_def)
  then have "at data i c" using c(1) by (metis here_Cons)
  then show ?thesis using c(2) by (auto simp: at_def is_digit_def)
qed

lemma string_items_here:
  assumes "here data j (concat (map encode vs) @ ''e'')" "list_all is_string vs"
    "int (length data) \<le> max_int"
  shows "string_items data j = Inr (strings_of (BList vs), j + length (concat (map encode vs)))"
  using assms(1,2)
proof (induction vs arbitrary: j)
  case Nil
  then show ?case by (simp add: string_items.simps [of data j] at_def)
next
  case (Cons v vs)
  then obtain s where v: "v = BStr s" by (cases v) auto
  have h: "here data j (encode_string s)" using Cons.prems v by simp
  note r = read_here [OF h assms(3)]
  obtain c where c: "encode_string s = c # tl (encode_string s)" "is_digit c" using digit_first by blast
  then have "at data j c" using h by (metis here_Cons)
  then have j: "j < length data" "data ! j \<noteq> CHR ''e''" using c(2) by (auto simp: at_def is_digit_def)
  have "string_items data (j + length (encode_string s)) =
      Inr (strings_of (BList vs), j + length (encode_string s) + length (concat (map encode vs)))"
    using Cons.prems v by (intro Cons.IH) (simp_all add: add.assoc)
  then show ?case using j r v by (simp add: string_items.simps [of data j] add.assoc)
qed

lemma read_string_list_here:
  assumes "here data i (encode v)" "is_strings v" "int (length data) \<le> max_int"
  shows "read_string_list data i = Inr (strings_of v, i + length (encode v))"
proof -
  obtain vs where v: "v = BList vs" "list_all is_string vs" using assms(2) by (cases v) auto
  have "here data (Suc i) (concat (map encode vs) @ ''e'')" using assms(1) v by simp
  from string_items_here [OF this v(2) assms(3)] show ?thesis
    using assms(1) v by (simp add: read_string_list_def)
qed

lemma file_keys_here:
  assumes "here data i (concat (map item kvs) @ ''e'')" "is_file (BDict kvs)" "int (length data) \<le> max_int"
  shows "file_keys data i paths = Inr (fold tree_file_key kvs paths, i + length (concat (map item kvs)))"
  using assms(1,2)
proof (induction kvs arbitrary: i paths)
  case Nil
  then show ?case by (simp add: file_keys.simps [of data i] at_def)
next
  case (Cons kv kvs)
  have it: "here data i (item kv)" using Cons.prems(1) by simp
  have h: "here data i (encode_string (fst kv))" "here data (i + length (encode_string (fst kv))) (encode (snd kv))"
    using it by (simp_all add: item_def)
  note r = read_here [OF h(1) assms(3)]
  have w: "wf_value (snd kv)" "fst kv \<in> {''path'', ''path.utf-8''} \<Longrightarrow> is_strings (snd kv)"
    using Cons.prems(2) by (simp, auto)
  have k: "file_key (fst kv) data (i + length (encode_string (fst kv))) paths =
      Inr (tree_file_key kv paths, i + length (item kv))"
    using read_string_list_here [OF h(2) _ assms(3)] skip_here [OF w(1) h(2) assms(3)] w(2)
    by (auto simp: file_key_def tree_file_key_def item_def add.assoc)
  have "file_keys data (i + length (item kv)) (tree_file_key kv paths) =
      Inr (fold tree_file_key kvs (tree_file_key kv paths), i + length (item kv) + length (concat (map item kvs)))"
    using Cons.prems by (intro Cons.IH) (simp_all add: add.assoc)
  then show ?case using item_first [OF it] r k by (simp add: file_keys.simps [of data i] add.assoc)
qed

lemma file_items_here:
  assumes "here data i (concat (map encode vs) @ ''e'')" "list_all is_file vs" "int (length data) \<le> max_int"
  shows "file_items data i = Inr (concat (map tree_file vs), i + length (concat (map encode vs)))"
  using assms(1,2)
proof (induction vs arbitrary: i)
  case Nil
  then show ?case by (simp add: file_items.simps [of data i] at_def)
next
  case (Cons v vs)
  then obtain kvs where v: "v = BDict kvs" by (cases v) auto
  have f: "is_file (BDict kvs)" using Cons.prems v by simp
  have "here data i (encode (BDict kvs))" using Cons.prems(1) v by simp
  then have h: "at data i CHR ''d''" "here data (Suc i) (concat (map item kvs) @ ''e'')"
    unfolding encode_dict by simp_all
  note k = file_keys_here [OF h(2) f assms(3), of "([], [])"]
  have len: "length (encode v) = length (concat (map item kvs)) + 2" unfolding v encode_dict by simp
  have e: "at data (Suc i + length (concat (map item kvs))) CHR ''e''" using h(2) by simp
  have "file_items data (i + length (encode v)) =
      Inr (concat (map tree_file vs), i + length (encode v) + length (concat (map encode vs)))"
    using Cons.prems by (intro Cons.IH) (simp_all add: add.assoc)
  then have n: "file_items data (Suc (Suc i + length (concat (map item kvs)))) =
      Inr (concat (map tree_file vs), i + length (encode v) + length (concat (map encode vs)))"
    unfolding len by simp
  have d: "i < length data" "data ! i = CHR ''d''" using h(1) by (auto simp: at_def)
  show ?case
    using d k e n by (simp add: file_items.simps [of data i] v add.assoc del: encode.simps)
qed

lemma read_file_list_here:
  assumes "here data i (encode v)" "is_files v" "int (length data) \<le> max_int"
  shows "read_file_list data i = Inr (tree_files v, i + length (encode v))"
proof -
  obtain vs where v: "v = BList vs" "list_all is_file vs" using assms(2) by (cases v) auto
  have "here data (Suc i) (concat (map encode vs) @ ''e'')" using assms(1) v by simp
  from file_items_here [OF this v(2) assms(3)] show ?thesis
    using assms(1) v by (simp add: read_file_list_def)
qed

lemma info_key_here:
  assumes "here data i (encode (snd kv))" "is_info (BDict [kv])" "int (length data) \<le> max_int"
  shows "info_key (fst kv) data i st = Inr (tree_info_key kv st, i + length (encode (snd kv)))"
proof -
  have w: "wf_value (snd kv)" using assms(2) by simp
  consider (name) "fst kv = ''name'' \<or> fst kv = ''name.utf-8''" | (files) "fst kv = ''files''"
    | (other) "fst kv \<noteq> ''name''" "fst kv \<noteq> ''name.utf-8''" "fst kv \<noteq> ''files''" by blast
  then show ?thesis
  proof cases
    case name
    then have "is_string (snd kv)" using assms(2) by auto
    then obtain s where s: "snd kv = BStr s" by (cases "snd kv") auto
    with name read_here [of data i s] assms show ?thesis by (auto simp: info_key_def tree_info_key_def)
  next
    case files
    then have "is_files (snd kv)" using assms(2) by simp
    with files read_file_list_here [OF assms(1) _ assms(3)] show ?thesis
      by (simp add: info_key_def tree_info_key_def)
  next
    case other
    with skip_here [OF w assms(1,3)] show ?thesis by (simp add: info_key_def tree_info_key_def)
  qed
qed

lemma info_keys_here:
  assumes "here data i (concat (map item kvs) @ ''e'')" "is_info (BDict kvs)" "int (length data) \<le> max_int"
  shows "info_keys data i st = Inr (fold tree_info_key kvs st)"
  using assms(1,2)
proof (induction kvs arbitrary: i st)
  case Nil
  then show ?case by (simp add: info_keys.simps [of data i] at_def)
next
  case (Cons kv kvs)
  have it: "here data i (item kv)" using Cons.prems(1) by simp
  have h: "here data i (encode_string (fst kv))" "here data (i + length (encode_string (fst kv))) (encode (snd kv))"
    using it by (simp_all add: item_def)
  note r = read_here [OF h(1) assms(3)]
  have "is_info (BDict [kv])" using Cons.prems(2) by simp
  note k = info_key_here [OF h(2) this assms(3), of st]
  have "info_keys data (i + length (item kv)) (tree_info_key kv st) = Inr (fold tree_info_key kvs (tree_info_key kv st))"
    using Cons.prems by (intro Cons.IH) (simp_all add: add.assoc)
  then show ?case using item_first [OF it] r k by (simp add: info_keys.simps [of data i] item_def add.assoc)
qed

definition tree_name :: "bvalue \<Rightarrow> string" where
  "tree_name v = (if inUTF8 (tree_info v) \<noteq> [] then inUTF8 (tree_info v) else inPlain (tree_info v))"

lemma info_identity_encode:
  assumes "is_info v" "int (length (encode v)) \<le> max_int"
  shows "info_identity (encode v) =
    (if tree_name v = [] then Inl NoName else Inr (tree_name v, inFiles (tree_info v)))"
proof -
  obtain kvs where v: "v = BDict kvs" using assms(1) by (cases v) auto
  have "here (encode v) 0 (CHR ''d'' # concat (map item kvs) @ ''e'')"
    using here_self [of "encode v"] unfolding v encode_dict .
  then have h: "at (encode v) 0 CHR ''d''" "here (encode v) 1 (concat (map item kvs) @ ''e'')" by simp_all
  have "info_keys (encode v) 1 no_info = Inr (tree_info v)"
    using info_keys_here [OF h(2) _ assms(2), of no_info] assms(1) by (simp add: tree_info_def v)
  with h(1) show ?thesis by (simp add: info_identity_def tree_name_def Let_def)
qed

definition last_info :: "(string \<times> bvalue) list \<Rightarrow> bvalue option" where
  "last_info kvs = map_of (rev kvs) ''info''"

definition info_span :: "string \<Rightarrow> nat \<times> nat \<Rightarrow> bvalue option \<Rightarrow> bool" where
  "info_span data span v \<longleftrightarrow>
     (case v of None \<Rightarrow> span = (0, 0)
      | Some v \<Rightarrow> 0 < fst span \<and> fst span < snd span \<and> substr data (fst span) (snd span) = encode v)"

lemma root_keys_here:
  assumes "here data i (concat (map item kvs) @ ''e'')" "list_all (\<lambda>kv. wf_value (snd kv)) kvs"
    "int (length data) \<le> max_int" "info_span data span v" "0 < i"
  shows "\<exists>span'. root_keys data i span = Inr span' \<and>
    info_span data span' (case last_info kvs of Some w \<Rightarrow> Some w | None \<Rightarrow> v)"
  using assms(1,2,4,5)
proof (induction kvs arbitrary: i span v)
  case Nil
  then show ?case by (auto simp: root_keys.simps [of data i] at_def last_info_def)
next
  case (Cons kv kvs)
  have it: "here data i (item kv)" using Cons.prems(1) by simp
  have h: "here data i (encode_string (fst kv))" "here data (i + length (encode_string (fst kv))) (encode (snd kv))"
    using it by (simp_all add: item_def)
  note r = read_here [OF h(1) assms(3)]
  have w: "wf_value (snd kv)" using Cons.prems(2) by simp
  note k = skip_here [OF w h(2) assms(3)]
  let ?start = "i + length (encode_string (fst kv))" and ?stop = "i + length (encode_string (fst kv)) + length (encode (snd kv))"
  let ?span = "if fst kv = ''info'' then (?start, ?stop) else span"
  let ?v = "if fst kv = ''info'' then Some (snd kv) else v"
  have lt: "?start < ?stop" "?start \<le> length data" using skip_value_progress [OF k] by simp_all
  have sub: "substr data ?start ?stop = encode (snd kv)" using here_substr [OF h(2) lt(2)] .
  have "info_span data (?start, ?stop) (Some (snd kv))" using Cons.prems(4) lt(1) sub by (simp add: info_span_def)
  then have sp: "info_span data ?span ?v" using Cons.prems(3) by (cases "fst kv = ''info''") (simp_all only: if_True if_False simp_thms)
  have "\<exists>span'. root_keys data ?stop ?span = Inr span' \<and>
      info_span data span' (case last_info kvs of Some w \<Rightarrow> Some w | None \<Rightarrow> ?v)"
    using Cons.prems sp by (intro Cons.IH) (simp_all add: item_def add.assoc)
  moreover have "(case last_info (kv # kvs) of Some w \<Rightarrow> Some w | None \<Rightarrow> v) =
      (case last_info kvs of Some w \<Rightarrow> Some w | None \<Rightarrow> ?v)"
    by (cases kv) (auto simp: last_info_def map_add_def split: option.splits)
  ultimately show ?case using item_first [OF it] r k by (simp add: root_keys.simps [of data i])
qed

section \<open>Properties\<close>

text \<open>C20. Of a file that bencodes a tree the reader returns what the tree says: the name, preferring
  the UTF-8 one, the paths of the files, and the hash of the bytes of the info dictionary; a tree
  without info or without a name is refused.\<close>

theorem parse_torrent_encode:
  assumes "list_all (\<lambda>kv. wf_value (snd kv)) kvs" "pred_option is_info (last_info kvs)"
    "int (length (encode (BDict kvs))) \<le> max_int"
  shows "parse_torrent sha1 (encode (BDict kvs)) =
    (case last_info kvs of
       None \<Rightarrow> Inl NoInfo
     | Some v \<Rightarrow>
         if tree_name v = [] then Inl NoName
         else Inr \<lparr> mdName = tree_name v, mdFiles = inFiles (tree_info v),
                    mdInfoHash = hex_encode (sha1 (encode v)) \<rparr>)"
proof -
  let ?data = "encode (BDict kvs)"
  have "here ?data 0 (CHR ''d'' # concat (map item kvs) @ ''e'')"
    using here_self [of ?data] unfolding encode_dict .
  then have h: "at ?data 0 CHR ''d''" "here ?data 1 (concat (map item kvs) @ ''e'')" by simp_all
  have s0: "info_span ?data (0, 0) None" by (simp add: info_span_def)
  from root_keys_here [OF h(2) assms(1,3) s0] obtain a b
    where r: "root_keys ?data 1 (0, 0) = Inr (a, b)" "info_span ?data (a, b) (last_info kvs)"
    by (auto split: option.splits)
  show ?thesis
  proof (cases "last_info kvs")
    case None
    with r h(1) show ?thesis by (simp add: parse_torrent_def info_span_def del: encode.simps)
  next
    case (Some v)
    have v: "is_info v" using assms(2) Some by simp
    have s: "0 < a" "a < b" "substr ?data a b = encode v" using r(2) Some by (simp_all add: info_span_def)
    have "length (encode v) \<le> length ?data" unfolding s(3) [symmetric] by (simp add: substr_def)
    then have "int (length (encode v)) \<le> max_int" using assms(3) by linarith
    from info_identity_encode [OF v this] show ?thesis
      using r(1) h(1) s Some by (simp add: parse_torrent_def del: encode.simps)
  qed
qed

text \<open>C21. Skipping a value ends on every input: the fuel is never exhausted, and a value that is
  skipped ends after it starts and within the data.\<close>

theorem skip_value_total:
  "skip_value data i \<noteq> Inl OutOfFuel \<and>
   pred_sum (\<lambda>_. True) (\<lambda>j. i < j \<and> j \<le> length data) (skip_value data i)"
proof -
  have "skip_value data i \<noteq> Inl OutOfFuel" unfolding skip_value_def by (rule skip_enough(1)) linarith
  then show ?thesis using skip_value_progress [of data i] by (cases "skip_value data i") auto
qed

definition sample_torrent :: "(string \<times> bvalue) list" where
  "sample_torrent = [(''info'', BDict [(''name'', BStr ''a''), (''length'', BInt ''5'')])]"

lemma parse_torrent_encode_witness:
  "parse_torrent (\<lambda>_. [171]) (encode (BDict sample_torrent)) =
     Inr \<lparr> mdName = ''a'', mdFiles = [], mdInfoHash = ''ab'' \<rparr>"
proof -
  have i: "last_info sample_torrent = Some (BDict [(''name'', BStr ''a''), (''length'', BInt ''5'')])"
    by (simp add: last_info_def sample_torrent_def)
  have "parse_torrent (\<lambda>_. [171]) (encode (BDict sample_torrent)) =
    (case last_info sample_torrent of
       None \<Rightarrow> Inl NoInfo
     | Some v \<Rightarrow>
         if tree_name v = [] then Inl NoName
         else Inr \<lparr> mdName = tree_name v, mdFiles = inFiles (tree_info v),
                    mdInfoHash = hex_encode ((\<lambda>_. [171]) (encode v)) \<rparr>)"
  proof (rule parse_torrent_encode)
    show "list_all (\<lambda>kv. wf_value (snd kv)) sample_torrent" by (simp add: sample_torrent_def)
    show "pred_option is_info (last_info sample_torrent)" unfolding i by simp
    show "int (length (encode (BDict sample_torrent))) \<le> max_int"
      by (simp add: sample_torrent_def encode_string_def show_nat.simps max_int_def)
  qed
  moreover have "hex_encode [171] = ''ab''" by code_simp
  ultimately show ?thesis unfolding i
    by (simp add: tree_name_def tree_info_def tree_info_key_def no_info_def)
qed

end
