(* ===== verification/Store.thy ===== *)
theory Store
  imports Torrent MediaBatch Episode
begin

text \<open>
  The bounded, disposable stores of the program: the cache of parsed names (medianame/cache.go),
  the cache of feeds and the cache of torrent metadata (rss/feed_cache.go, metadata_cache.go) and
  the cooldown of rate-limited hosts (rss/cooldown.go). A locale states what they promise, a
  bound on their size and that a stored value is one that was put, and derives what a sequence
  of operations leaves; each store interprets it. Instants are nanoseconds as integers, the
  current one a parameter of every operation, the mutexes are left out because each operation
  holds its own throughout.
\<close>

section \<open>What a bounded store promises\<close>

locale bounded_store =
  fixes empty :: 's and put_in :: "'k \<Rightarrow> 'v \<Rightarrow> 's \<Rightarrow> 's" and find_in :: "'s \<Rightarrow> 'k \<Rightarrow> 'v option"
    and entries :: "'s \<Rightarrow> nat" and limit :: nat and good :: "'s \<Rightarrow> bool"
  assumes good_empty: "good empty"
    and empty_none: "find_in empty k = None"
    and good_put: "good s \<Longrightarrow> good (put_in k v s)"
    and bounded: "good s \<Longrightarrow> entries s \<le> limit"
    and put_origin: "good s \<Longrightarrow> find_in (put_in k v s) k' = Some w \<Longrightarrow>
      k' = k \<and> w = v \<or> find_in s k' = Some w"
begin

definition run :: "('k \<times> 'v) list \<Rightarrow> 's" where
  "run kvs = fold (\<lambda>(k, v). put_in k v) kvs empty"

lemma run_good: "good (run kvs)"
proof -
  have "good (fold (\<lambda>(k, v). put_in k v) kvs s)" if "good s" for s
    using that by (induction kvs arbitrary: s) (auto simp: good_put)
  with good_empty show ?thesis by (simp add: run_def)
qed

lemma run_bounded: "entries (run kvs) \<le> limit"
  by (rule bounded [OF run_good])

lemma run_found:
  assumes "find_in (run kvs) k = Some v"
  shows "(k, v) \<in> set kvs"
proof -
  have "(k, v) \<in> set kvs \<or> find_in s k = Some v"
    if "find_in (fold (\<lambda>(k, v). put_in k v) kvs s) k = Some v" "good s" for s
    using that by (induction kvs arbitrary: s) (auto dest: put_origin good_put)
  with assms good_empty show ?thesis by (simp add: run_def) (metis empty_none option.distinct(1))
qed

end

section \<open>The cache of parsed names\<close>

definition parse_store :: "parser_cache \<Rightarrow> bool" where
  "parse_store c \<longleftrightarrow> wf_map c \<and> length c \<le> parse_cache_limit"

interpretation parse_names: bounded_store "[]" cache_put cache_get length parse_cache_limit parse_store
proof
  fix s :: parser_cache and k :: string and v :: Parsed
  assume "parse_store s"
  then show "parse_store (cache_put k v s)"
    by (auto simp: parse_store_def cache_put_def length_put parse_cache_limit_def)
qed (auto simp: parse_store_def cache_put_def cache_get_def split: if_splits)

section \<open>The cache of feeds\<close>

record CachedFeed =
  cfETag :: string
  cfLastModified :: string
  cfEntries :: "Episode.Entry list"

type_synonym feed_cache = "(string, CachedFeed) gomap"

definition feed_cache_entries :: nat where
  "feed_cache_entries = 128"

definition no_feed :: CachedFeed where
  "no_feed = \<lparr> cfETag = [], cfLastModified = [], cfEntries = [] \<rparr>"

definition feed_validators :: "feed_cache \<Rightarrow> string \<Rightarrow> string \<times> string" where
  "feed_validators c url = (let e = get_or no_feed c url in (cfETag e, cfLastModified e))"

definition feed_not_modified :: "feed_cache \<Rightarrow> string \<Rightarrow> Episode.Entry list option" where
  "feed_not_modified c url = map_option cfEntries (get c url)"

definition feed_put :: "string \<Rightarrow> CachedFeed \<Rightarrow> feed_cache \<Rightarrow> feed_cache" where
  "feed_put url feed c =
     (if cfETag feed = [] \<and> cfLastModified feed = [] then c
      else put url feed (if length c \<ge> feed_cache_entries then [] else c))"

definition feed_store :: "feed_cache \<Rightarrow> bool" where
  "feed_store c \<longleftrightarrow> wf_map c \<and> length c \<le> feed_cache_entries"

interpretation feeds: bounded_store "[]" feed_put get length feed_cache_entries feed_store
proof
  fix s :: feed_cache and k :: string and v :: CachedFeed
  assume "feed_store s"
  then show "feed_store (feed_put k v s)"
    by (auto simp: feed_store_def feed_put_def length_put feed_cache_entries_def)
qed (auto simp: feed_store_def feed_put_def simp del: map_of_eq_Some_iff split: if_splits)

section \<open>The cooldown of hosts\<close>

definition cooldown_hosts :: nat where
  "cooldown_hosts = 128"

text \<open>The zero time of a missing host is the instant 0.\<close>

definition cooling_until :: "(string, int) gomap \<Rightarrow> string \<Rightarrow> int \<Rightarrow> int option" where
  "cooling_until hosts host now =
     (let retry_at = get_or 0 hosts host in if now < retry_at then Some retry_at else None)"

text \<open>The key with the least value, and among those the least key, in the order of the map.\<close>

definition oldest_step :: "('v \<Rightarrow> int) \<Rightarrow> string \<times> 'v \<Rightarrow> (string \<times> int) \<Rightarrow> string \<times> int" where
  "oldest_step age kv best =
     (if fst best = [] \<or> age (snd kv) < snd best \<or> age (snd kv) = snd best \<and> fst kv < fst best
      then (fst kv, age (snd kv)) else best)"

definition oldest_key :: "('v \<Rightarrow> int) \<Rightarrow> (string, 'v) gomap \<Rightarrow> string" where
  "oldest_key age m = fst (fold (oldest_step age) m ([], 0))"

definition note_limit :: "int \<Rightarrow> string \<Rightarrow> int \<Rightarrow> (string, int) gomap \<Rightarrow> (string, int) gomap" where
  "note_limit now host retry_at hosts0 =
     (let hosts1 = filter (\<lambda>(_, until). now < until) hosts0;
          hosts = (if get hosts1 host = None \<and> length hosts1 \<ge> cooldown_hosts
                   then del (oldest_key (\<lambda>u. u) hosts1) hosts1 else hosts1)
      in if retry_at > get_or 0 hosts host then put host retry_at hosts else hosts)"

text \<open>\<open>parse_time\<close> is the reader of HTTP dates.\<close>

definition rate_limit_deadline :: "(string \<Rightarrow> int option) \<Rightarrow> string \<Rightarrow> int \<Rightarrow> int" where
  "rate_limit_deadline parse_time value now =
     (let (seconds, ok) = atoi_full (trim_space value)
      in if ok \<and> seconds \<ge> 0 \<and> seconds \<le> 9223372036 then now + seconds * 1000000000
         else case parse_time value of
             Some date \<Rightarrow> if date > now then date else now + 60000000000
           | None \<Rightarrow> now + 60000000000)"

lemma rate_limit_later: "now \<le> rate_limit_deadline parse_time value now"
  by (auto simp: rate_limit_deadline_def Let_def split: prod.splits option.splits)

lemma oldest_in: "m \<noteq> [] \<Longrightarrow> oldest_key age m \<in> fst ` set m"
proof -
  have step: "fst (fold (oldest_step age) xs best) \<in> insert (fst best) (fst ` set xs)" for xs best
  proof (induction xs arbitrary: best)
    case (Cons x xs)
    have "fst (oldest_step age x best) \<in> {fst best, fst x}" by (simp add: oldest_step_def)
    with Cons.IH [of "oldest_step age x best"] show ?case by auto
  qed simp
  assume "m \<noteq> []"
  then obtain x xs where m: "m = x # xs" by (cases m) auto
  have "fold (oldest_step age) m ([], 0) = fold (oldest_step age) xs (fst x, age (snd x))"
    by (simp add: m oldest_step_def)
  with step [of xs "(fst x, age (snd x))"] show ?thesis by (simp add: oldest_key_def m)
qed

definition host_store :: "(string, int) gomap \<Rightarrow> bool" where
  "host_store c \<longleftrightarrow> wf_map c \<and> length c \<le> cooldown_hosts"

lemma note_limit_good: "host_store c \<Longrightarrow> host_store (note_limit now host retry_at c)"
proof -
  assume c: "host_store c"
  let ?h1 = "filter (\<lambda>(_, until). now < until) c"
  let ?h = "if get ?h1 host = None \<and> length ?h1 \<ge> cooldown_hosts then del (oldest_key (\<lambda>u. u) ?h1) ?h1 else ?h1"
  have h1: "wf_map ?h1" "length ?h1 \<le> cooldown_hosts"
    using c le_trans [OF length_filter_le] by (auto simp: host_store_def)
  have "wf_map ?h \<and> length ?h \<le> cooldown_hosts \<and> (get ?h host = None \<longrightarrow> length ?h < cooldown_hosts)"
  proof (cases "get ?h1 host = None \<and> length ?h1 \<ge> cooldown_hosts")
    case True
    then have "?h1 \<noteq> []" by (auto simp: cooldown_hosts_def)
    then have "get ?h1 (oldest_key (\<lambda>u. u) ?h1) \<noteq> None"
      using oldest_in [of ?h1 "\<lambda>u. u"] by (simp add: map_of_eq_None_iff)
    then have "length (del (oldest_key (\<lambda>u. u) ?h1) ?h1) < length ?h1"
      using h1(1) length_del_present by fastforce
    with True h1 show ?thesis by simp
  next
    case False
    with h1 show ?thesis by auto
  qed
  then show ?thesis
    by (auto simp: note_limit_def Let_def host_store_def length_put)
qed

lemma note_limit_origin:
  assumes "host_store c" "get (note_limit now host retry_at c) k = Some w"
  shows "k = host \<and> w = retry_at \<or> get c k = Some w"
proof -
  let ?h1 = "filter (\<lambda>(_, until). now < until) c"
  let ?h = "if get ?h1 host = None \<and> length ?h1 \<ge> cooldown_hosts then del (oldest_key (\<lambda>u. u) ?h1) ?h1 else ?h1"
  have wf: "wf_map c" using assms(1) by (simp add: host_store_def)
  have "get ?h1 k' = Some u \<Longrightarrow> get c k' = Some u" for k' u
    using filter_map_get [OF wf, of "\<lambda>_ u. now < u" k'] by (auto simp: case_prod_unfold split: option.splits if_splits)
  then have "get ?h k' = Some u \<Longrightarrow> get c k' = Some u" for k' u by (auto split: if_splits)
  with assms(2) show ?thesis
    by (auto simp: note_limit_def Let_def split: if_splits)
qed

interpretation hosts: bounded_store "[]" "note_limit now" get length cooldown_hosts host_store for now
proof
  fix s :: "(string, int) gomap" and k k' :: string and v w :: int
  show "host_store []" by (simp add: host_store_def)
  show "host_store s \<Longrightarrow> host_store (note_limit now k v s)" by (rule note_limit_good)
  show "host_store s \<Longrightarrow> length s \<le> cooldown_hosts" by (simp add: host_store_def)
  show "host_store s \<Longrightarrow> get (note_limit now k v s) k' = Some w \<Longrightarrow> k' = k \<and> w = v \<or> get s k' = Some w"
    by (rule note_limit_origin)
qed simp

section \<open>The cache of torrent metadata\<close>

definition metadata_ttl :: int where "metadata_ttl = 6 * 3600 * 1000000000"
definition metadata_cache_entries :: nat where "metadata_cache_entries = 2048"
definition metadata_cache_bytes :: int where "metadata_cache_bytes = 16 * 2 ^ 20"

record CachedMetadata =
  cmValue :: Metadata
  cmExpires :: int
  cmSize :: int

record metadata_cache =
  mcEntries :: "(string, CachedMetadata) gomap"
  mcByHash :: "(string, string) gomap"
  mcBytes :: int

definition empty_metadata :: metadata_cache where
  "empty_metadata = \<lparr> mcEntries = [], mcByHash = [], mcBytes = 0 \<rparr>"

definition meta_remove :: "string \<Rightarrow> metadata_cache \<Rightarrow> metadata_cache" where
  "meta_remove key c =
     (case get (mcEntries c) key of
        None \<Rightarrow> c
      | Some entry \<Rightarrow>
          let h = mdInfoHash (cmValue entry)
          in c\<lparr> mcBytes := mcBytes c - cmSize entry, mcEntries := del key (mcEntries c),
                mcByHash := (if h \<noteq> [] \<and> get_or [] (mcByHash c) h = key then del h (mcByHash c)
                             else mcByHash c) \<rparr>)"

definition meta_lookup :: "int \<Rightarrow> string \<Rightarrow> metadata_cache \<Rightarrow> Metadata option \<times> metadata_cache" where
  "meta_lookup now url c =
     (case get (mcEntries c) url of
        None \<Rightarrow> (None, c)
      | Some entry \<Rightarrow>
          if \<not> now < cmExpires entry then (None, meta_remove url c) else (Some (cmValue entry), c))"

definition meta_by_hash :: "int \<Rightarrow> string \<Rightarrow> metadata_cache \<Rightarrow> Metadata option \<times> metadata_cache" where
  "meta_by_hash now h c =
     (if h = [] then (None, c)
      else case get (mcByHash c) h of
          None \<Rightarrow> (None, c)
        | Some key \<Rightarrow>
            (case meta_lookup now key c of
               (None, c') \<Rightarrow> (None, c'\<lparr> mcByHash := del h (mcByHash c') \<rparr>)
             | (Some v, c') \<Rightarrow> (Some v, c')))"

definition meta_size :: "string \<Rightarrow> Metadata \<Rightarrow> int" where
  "meta_size key v =
     int (length key + length (mdName v) + length (mdInfoHash v) + 128) +
     (\<Sum>path\<leftarrow>mdFiles v. int (length path) + 16)"

lemma meta_remove_shrinks:
  "key \<in> fst ` set (mcEntries c) \<Longrightarrow> length (mcEntries (meta_remove key c)) < length (mcEntries c)"
proof -
  assume "key \<in> fst ` set (mcEntries c)"
  then obtain e where e: "get (mcEntries c) key = Some e" and mem: "\<exists>x \<in> set (mcEntries c). \<not> key \<noteq> fst x"
    by (cases "get (mcEntries c) key") (auto simp: map_of_eq_None_iff)
  from mem have "length (del key (mcEntries c)) < length (mcEntries c)"
    unfolding del_filter by (auto intro: length_filter_less)
  with e show ?thesis by (simp add: meta_remove_def Let_def)
qed

text \<open>The eviction loop; \<open>None\<close> stands for running for ever on an empty map.\<close>

function meta_evict :: "int \<Rightarrow> metadata_cache \<Rightarrow> metadata_cache option" where
  "meta_evict room c =
     (if length (mcEntries c) \<ge> metadata_cache_entries \<or> mcBytes c + room > metadata_cache_bytes
      then if mcEntries c = [] then None
           else meta_evict room (meta_remove (oldest_key cmExpires (mcEntries c)) c)
      else Some c)"
  by pat_completeness auto
termination
  by (relation "measure (\<lambda>(room, c). length (mcEntries c))") (auto intro!: meta_remove_shrinks oldest_in)

declare meta_evict.simps [simp del]

definition meta_put :: "int \<Rightarrow> string \<Rightarrow> Metadata \<Rightarrow> metadata_cache \<Rightarrow> metadata_cache option" where
  "meta_put now key v c =
     (let room = meta_size key v
      in if room > metadata_cache_bytes then Some c
         else (case meta_evict room (meta_remove key c) of
             None \<Rightarrow> None
           | Some c' \<Rightarrow>
               Some (c'\<lparr> mcEntries := put key \<lparr> cmValue = v, cmExpires = now + metadata_ttl, cmSize = room \<rparr> (mcEntries c'),
                         mcByHash := (if mdInfoHash v \<noteq> [] then put (mdInfoHash v) key (mcByHash c') else mcByHash c'),
                         mcBytes := mcBytes c' + room \<rparr>)))"

text \<open>
  What holds of the cache between operations: the byte count is the sum of the sizes, both
  bounds are kept, and a hash leads to an entry that carries it.
\<close>

definition meta_total :: "(string, CachedMetadata) gomap \<Rightarrow> int" where
  "meta_total es = (\<Sum>p\<leftarrow>es. cmSize (snd p))"

definition meta_consistent :: "metadata_cache \<Rightarrow> bool" where
  "meta_consistent c \<longleftrightarrow>
     wf_map (mcEntries c) \<and> wf_map (mcByHash c) \<and> mcBytes c = meta_total (mcEntries c) \<and>
     (\<forall>k e. get (mcEntries c) k = Some e \<longrightarrow> cmSize e \<ge> 0) \<and>
     (\<forall>h k. get (mcByHash c) h = Some k \<longrightarrow>
        h \<noteq> [] \<and> (\<exists>e. get (mcEntries c) k = Some e \<and> mdInfoHash (cmValue e) = h))"

definition meta_ok :: "metadata_cache \<Rightarrow> bool" where
  "meta_ok c \<longleftrightarrow> meta_consistent c \<and> length (mcEntries c) \<le> metadata_cache_entries \<and>
     mcBytes c \<le> metadata_cache_bytes"

lemma meta_total_put:
  assumes "get es k = None"
  shows "meta_total (put k e es) = meta_total es + cmSize e"
  using assms by (simp add: meta_total_def put_absent)

lemma meta_total_del:
  assumes "wf_map es" "get es k = Some e"
  shows "meta_total (del k es) = meta_total es - cmSize e"
  using sum_del_present [OF assms, of cmSize] by (simp add: meta_total_def)

lemma meta_total_nonneg:
  assumes "wf_map es" "\<forall>k e. get es k = Some e \<longrightarrow> cmSize e \<ge> 0"
  shows "meta_total es \<ge> 0"
proof -
  have "cmSize (snd p) \<ge> 0" if "p \<in> set es" for p
    using assms that in_set_get [OF assms(1), of "fst p" "snd p"] by (cases p) auto
  then show ?thesis unfolding meta_total_def by (intro sum_list_nonneg) auto
qed

lemma meta_remove_consistent:
  assumes "meta_consistent c"
  shows "meta_consistent (meta_remove key c)" and "get (mcEntries (meta_remove key c)) key = None"
    and "get (mcEntries (meta_remove key c)) k = (if k = key then None else get (mcEntries c) k)"
proof -
  note c = assms [unfolded meta_consistent_def]
  show "get (mcEntries (meta_remove key c)) k = (if k = key then None else get (mcEntries c) k)" for k
    by (cases "get (mcEntries c) key") (auto simp: meta_remove_def Let_def simp del: map_of_eq_Some_iff)
  then show "get (mcEntries (meta_remove key c)) key = None" by simp
  show "meta_consistent (meta_remove key c)"
  proof (cases "get (mcEntries c) key")
    case None
    then show ?thesis using assms by (simp add: meta_remove_def)
  next
    case (Some e)
    let ?h = "mdInfoHash (cmValue e)"
    let ?c = "meta_remove key c"
    have r: "mcEntries ?c = del key (mcEntries c)" "mcBytes ?c = mcBytes c - cmSize e"
      "mcByHash ?c = (if ?h \<noteq> [] \<and> get_or [] (mcByHash c) ?h = key then del ?h (mcByHash c) else mcByHash c)"
      using Some by (simp_all add: meta_remove_def Let_def)
    have leads: "h \<noteq> [] \<and> (\<exists>e'. get (mcEntries ?c) k = Some e' \<and> mdInfoHash (cmValue e') = h)"
      if "get (mcByHash ?c) h = Some k" for h k
    proof -
      have old: "get (mcByHash c) h = Some k" using that unfolding r(3) by (auto split: if_splits simp del: map_of_eq_Some_iff)
      then obtain e' where e': "h \<noteq> []" "get (mcEntries c) k = Some e'" "mdInfoHash (cmValue e') = h"
        using c by blast
      have "k \<noteq> key"
      proof
        assume "k = key"
        then have "e' = e" using e'(2) Some by simp
        then have "get_or [] (mcByHash c) ?h = key" "?h = h" using old e'(3) \<open>k = key\<close> by (simp_all add: get_or_def)
        then have "mcByHash ?c = del h (mcByHash c)" unfolding r(3) using e'(1) by simp
        then show False using that by simp
      qed
      with e' show ?thesis unfolding r(1) by simp
    qed
    have "wf_map (mcByHash ?c)" "wf_map (mcEntries ?c)" using c unfolding r by auto
    moreover have "mcBytes ?c = meta_total (mcEntries ?c)"
      using c Some unfolding r by (simp add: meta_total_del)
    moreover have "\<forall>k e. get (mcEntries ?c) k = Some e \<longrightarrow> cmSize e \<ge> 0"
      using c unfolding r by (auto simp del: map_of_eq_Some_iff split: if_splits)
    ultimately show ?thesis using leads unfolding meta_consistent_def by blast
  qed
qed

lemma meta_remove_ok: "meta_ok c \<Longrightarrow> meta_ok (meta_remove key c)"
proof -
  assume c: "meta_ok c"
  then have k: "meta_consistent c" by (simp add: meta_ok_def)
  have "length (mcEntries (meta_remove key c)) \<le> length (mcEntries c)"
    using length_del_le by (auto simp: meta_remove_def Let_def split: option.splits)
  moreover have "mcBytes (meta_remove key c) \<le> mcBytes c"
    using k by (auto simp: meta_remove_def Let_def meta_consistent_def split: option.splits)
  ultimately show ?thesis
    using c meta_remove_consistent(1) [OF k] by (simp add: meta_ok_def)
qed

lemma meta_evict_some:
  assumes "meta_consistent c" "room \<le> metadata_cache_bytes"
  shows "\<exists>c'. meta_evict room c = Some c' \<and> meta_consistent c' \<and>
    length (mcEntries c') < metadata_cache_entries \<and> mcBytes c' + room \<le> metadata_cache_bytes \<and>
    (\<forall>k. get (mcEntries c') k = None \<or> get (mcEntries c') k = get (mcEntries c) k)"
  using assms
proof (induction room c rule: meta_evict.induct)
  case (1 room c)
  show ?case
  proof (cases "length (mcEntries c) \<ge> metadata_cache_entries \<or> mcBytes c + room > metadata_cache_bytes")
    case False
    then show ?thesis using 1(2) by (simp add: meta_evict.simps [of room c])
  next
    case True
    have ne: "mcEntries c \<noteq> []"
    proof
      assume "mcEntries c = []"
      then have "mcBytes c = 0" using 1(2) by (simp add: meta_consistent_def meta_total_def)
      with True 1(3) \<open>mcEntries c = []\<close> show False by (simp add: metadata_cache_entries_def)
    qed
    let ?k = "oldest_key cmExpires (mcEntries c)"
    note r = meta_remove_consistent [OF 1(2), of ?k]
    from 1(1) [OF True ne r(1) 1(3)] obtain c' where c': "meta_evict room (meta_remove ?k c) = Some c'"
        "meta_consistent c'" "length (mcEntries c') < metadata_cache_entries"
        "mcBytes c' + room \<le> metadata_cache_bytes"
        "\<forall>k. get (mcEntries c') k = None \<or> get (mcEntries c') k = get (mcEntries (meta_remove ?k c)) k"
      by blast
    have "get (mcEntries c') k = None \<or> get (mcEntries c') k = get (mcEntries c) k" for k
      using c'(5) r(3) [of k] by metis
    then show ?thesis using c'(1-4) True ne by (simp add: meta_evict.simps [of room c])
  qed
qed

lemma meta_size_nonneg: "meta_size key v \<ge> 0"
proof -
  have "(\<Sum>path\<leftarrow>mdFiles v. int (length path) + 16) \<ge> 0" by (intro sum_list_nonneg) auto
  then show ?thesis by (simp add: meta_size_def)
qed

text \<open>Storing ends, keeps the invariant, and changes only the entry of its own key or forgets.\<close>

lemma meta_put_some:
  assumes "meta_ok c"
  shows "\<exists>c'. meta_put now key v c = Some c' \<and> meta_ok c' \<and>
    (\<forall>k e. get (mcEntries c') k = Some e \<longrightarrow> k = key \<and> cmValue e = v \<or> get (mcEntries c) k = Some e)"
proof (cases "meta_size key v > metadata_cache_bytes")
  case True
  then show ?thesis using assms by (simp add: meta_put_def)
next
  case False
  let ?room = "meta_size key v"
  have k: "meta_consistent c" using assms by (simp add: meta_ok_def)
  note r = meta_remove_consistent [OF k, of key]
  obtain c1 where c1: "meta_evict ?room (meta_remove key c) = Some c1" "meta_consistent c1"
      "length (mcEntries c1) < metadata_cache_entries" "mcBytes c1 + ?room \<le> metadata_cache_bytes"
      "\<forall>k. get (mcEntries c1) k = None \<or> get (mcEntries c1) k = get (mcEntries (meta_remove key c)) k"
    using meta_evict_some [OF r(1), of ?room] False by auto
  let ?e = "\<lparr> cmValue = v, cmExpires = now + metadata_ttl, cmSize = ?room \<rparr>"
  let ?c = "c1\<lparr> mcEntries := put key ?e (mcEntries c1),
    mcByHash := (if mdInfoHash v \<noteq> [] then put (mdInfoHash v) key (mcByHash c1) else mcByHash c1),
    mcBytes := mcBytes c1 + ?room \<rparr>"
  have res: "meta_put now key v c = Some ?c" using False c1(1) by (simp add: meta_put_def Let_def)
  have fresh: "get (mcEntries c1) key = None" using c1(5) r(2) by metis
  note c = c1(2) [unfolded meta_consistent_def]
  have "h \<noteq> [] \<and> (\<exists>e. get (mcEntries ?c) k = Some e \<and> mdInfoHash (cmValue e) = h)"
    if g: "get (mcByHash ?c) h = Some k" for h k
  proof (cases "mdInfoHash v \<noteq> [] \<and> h = mdInfoHash v")
    case True
    then have "k = key" using g by simp
    with True show ?thesis by simp
  next
    case False
    then have "get (mcByHash c1) h = Some k" using g by (auto split: if_splits simp del: map_of_eq_Some_iff)
    then obtain e where e: "h \<noteq> []" "get (mcEntries c1) k = Some e" "mdInfoHash (cmValue e) = h" using c by blast
    then have "k \<noteq> key" using fresh by auto
    with e show ?thesis by simp
  qed
  moreover have "wf_map (mcEntries ?c)" "wf_map (mcByHash ?c)" using c by simp_all
  moreover have "mcBytes ?c = meta_total (mcEntries ?c)" using c fresh by (simp add: meta_total_put)
  moreover have "\<forall>k e. get (mcEntries ?c) k = Some e \<longrightarrow> cmSize e \<ge> 0"
    using c meta_size_nonneg by (auto simp del: map_of_eq_Some_iff)
  ultimately have "meta_consistent ?c" unfolding meta_consistent_def by blast
  moreover have "length (mcEntries ?c) \<le> metadata_cache_entries" using c1(3) fresh by (simp add: length_put)
  moreover have "mcBytes ?c \<le> metadata_cache_bytes" using c1(4) by simp
  moreover have "k = key \<and> cmValue e = v \<or> get (mcEntries c) k = Some e"
    if "get (mcEntries ?c) k = Some e" for k e
  proof (cases "k = key")
    case True
    then show ?thesis using that by auto
  next
    case False
    then have "get (mcEntries c1) k = Some e" using that by (simp del: map_of_eq_Some_iff)
    then have "get (mcEntries c) k = Some e" using c1(5) r(3) [of k] False by (metis option.distinct(1))
    then show ?thesis ..
  qed
  ultimately show ?thesis using res unfolding meta_ok_def by blast
qed

text \<open>The cache as a bounded store: storing at one instant, and what it holds of a URL.\<close>

definition meta_store :: "int \<Rightarrow> string \<Rightarrow> Metadata \<Rightarrow> metadata_cache \<Rightarrow> metadata_cache" where
  "meta_store now key v c = (case meta_put now key v c of Some c' \<Rightarrow> c' | None \<Rightarrow> c)"

definition meta_held :: "metadata_cache \<Rightarrow> string \<Rightarrow> Metadata option" where
  "meta_held c url = map_option cmValue (get (mcEntries c) url)"

definition meta_entries :: "metadata_cache \<Rightarrow> nat" where
  "meta_entries c = length (mcEntries c)"

lemma empty_metadata_ok: "meta_ok empty_metadata"
  by (simp add: meta_ok_def meta_consistent_def empty_metadata_def meta_total_def metadata_cache_bytes_def)

interpretation torrents: bounded_store empty_metadata "meta_store now" meta_held meta_entries
    metadata_cache_entries meta_ok for now
proof
  fix s k k' v w
  assume s: "meta_ok s"
  obtain c' where c': "meta_put now k v s = Some c'" "meta_ok c'"
      "\<forall>k' e. get (mcEntries c') k' = Some e \<longrightarrow> k' = k \<and> cmValue e = v \<or> get (mcEntries s) k' = Some e"
    using meta_put_some [OF s] by blast
  show "meta_ok (meta_store now k v s)" using c' by (simp add: meta_store_def)
  show "meta_entries s \<le> metadata_cache_entries" using s by (simp add: meta_ok_def meta_entries_def)
  assume "meta_held (meta_store now k v s) k' = Some w"
  then obtain e where "get (mcEntries c') k' = Some e" "w = cmValue e"
    using c'(1) by (auto simp: meta_store_def meta_held_def simp del: map_of_eq_Some_iff)
  then show "k' = k \<and> w = v \<or> meta_held s k' = Some w"
    using c'(3) by (fastforce simp: meta_held_def simp del: map_of_eq_Some_iff)
next
  show "meta_ok empty_metadata" by (rule empty_metadata_ok)
  show "meta_held empty_metadata k = None" for k by (simp add: meta_held_def empty_metadata_def)
qed

section \<open>Properties\<close>

text \<open>C22. Storing metadata always ends, whatever the cache holds, and leaves a cache within both of
  its bounds whose byte count is the sum of the sizes and whose hashes lead to their entries.\<close>

theorem metadata_put_ok:
  assumes "meta_ok c"
  shows "pred_option meta_ok (meta_put now key v c) \<and> meta_put now key v c \<noteq> None"
  using meta_put_some [OF assms, of now key v] by auto


text \<open>Whatever metadata is stored in whatever order, the cache holds at most its limit, and what
  it holds of a URL is something that was stored for that URL.\<close>

theorem metadata_run_bounded:
  "meta_entries (fold (\<lambda>(k, v). meta_store now k v) kvs empty_metadata) \<le> metadata_cache_entries \<and>
   pred_option (\<lambda>v. (url, v) \<in> set kvs) (meta_held (fold (\<lambda>(k, v). meta_store now k v) kvs empty_metadata) url)"
  using torrents.run_bounded [of now kvs] torrents.run_found [of now kvs url]
  unfolding torrents.run_def by (cases "meta_held (fold (\<lambda>(k, v). meta_store now k v) kvs empty_metadata) url") auto


lemma metadata_put_ok_witness:
  "pred_option meta_ok (meta_put 0 ''u'' \<lparr> mdName = ''a'', mdFiles = [], mdInfoHash = ''h'' \<rparr> empty_metadata) \<and>
   meta_put 0 ''u'' \<lparr> mdName = ''a'', mdFiles = [], mdInfoHash = ''h'' \<rparr> empty_metadata \<noteq> None"
  by (rule metadata_put_ok [OF empty_metadata_ok])

definition sample_metadata :: Metadata where
  "sample_metadata = \<lparr> mdName = ''a'', mdFiles = [], mdInfoHash = ''h'' \<rparr>"

definition sample_cache :: metadata_cache where
  "sample_cache = \<lparr> mcEntries = [(''u'', \<lparr> cmValue = sample_metadata, cmExpires = 1, cmSize = 131 \<rparr>)],
     mcByHash = [(''h'', ''u'')], mcBytes = 131 \<rparr>"


end
