(* ===== verification/Sessions.thy ===== *)
theory Sessions
  imports Store
begin

text \<open>
  Signing in (server/auth.go): the password record, the sessions of the web interface, the
  throttles of failed attempts and the first-run setup code. The digest of cookies, the password
  hash and the network address functions of the standard library are parameters; random tokens
  and salts, the answers of the disk and the clock come with the step that uses them. A request
  takes and releases the lock several times; each section under the lock is one function, and
  the step relation interleaves the sections of all pending requests.
\<close>

section \<open>State\<close>

record LoginRecord =
  lrSalt :: string
  lrHash :: string

record Throttle =
  thFailures :: nat
  thBlockedUntil :: int
  thLastSeen :: int

record WebAuth =
  waRecord :: "LoginRecord option"
  waSessions :: "(string, int) gomap"
  waThrottles :: "(string, Throttle) gomap"
  waSlots :: nat

record Lib =
  crDigest :: "string \<Rightarrow> string"
  crPassword :: "string \<Rightarrow> string \<Rightarrow> string option"
  crSplitHost :: "string \<Rightarrow> string option"
  crParseIP :: "string \<Rightarrow> bool option"

definition session_lifetime :: int where "session_lifetime = 7 * 24 * 3600 * 1000000000"
definition login_block_duration :: int where "login_block_duration = 30 * 1000000000"
definition login_failure_limit :: nat where "login_failure_limit = 5"
definition throttle_memory :: int where "throttle_memory = 10 * 60 * 1000000000"
definition session_limit :: nat where "session_limit = 32"
definition hash_slots :: nat where "hash_slots = 2"

text \<open>\<open>OpenWebAuth\<close> starts with the record on disk, no session and no throttle.\<close>

definition open_web_auth :: "LoginRecord option \<Rightarrow> WebAuth" where
  "open_web_auth r = \<lparr> waRecord = r, waSessions = [], waThrottles = [], waSlots = 0 \<rparr>"

section \<open>Passwords\<close>

definition password_record :: "Lib \<Rightarrow> string option \<Rightarrow> string \<Rightarrow> LoginRecord option" where
  "password_record cr random password =
     (if length (runes password) < 8 \<or> length password > 1024 then None
      else case random of
          None \<Rightarrow> None
        | Some salt \<Rightarrow>
            (case crPassword cr password salt of
               None \<Rightarrow> None
             | Some hash \<Rightarrow> Some \<lparr> lrSalt = salt, lrHash = hash \<rparr>))"

definition matches_record :: "Lib \<Rightarrow> string \<Rightarrow> LoginRecord option \<Rightarrow> bool" where
  "matches_record cr password r =
     (case r of None \<Rightarrow> False
      | Some r \<Rightarrow> length password \<le> 1024 \<and> crPassword cr password (lrSalt r) = Some (lrHash r))"

definition same_record :: "LoginRecord option \<Rightarrow> LoginRecord \<Rightarrow> bool" where
  "same_record a b = (case a of None \<Rightarrow> False | Some a \<Rightarrow> lrSalt a = lrSalt b \<and> lrHash a = lrHash b)"

section \<open>Sessions\<close>

definition session_valid :: "Lib \<Rightarrow> int \<Rightarrow> string option \<Rightarrow> WebAuth \<Rightarrow> bool \<times> WebAuth" where
  "session_valid cr now cookie a =
     (case cookie of
        None \<Rightarrow> (False, a)
      | Some v \<Rightarrow>
          if length v \<noteq> 43 then (False, a)
          else (case get (waSessions a) (crDigest cr v) of
              None \<Rightarrow> (False, a)
            | Some expires \<Rightarrow>
                if \<not> now < expires then (False, a\<lparr> waSessions := del (crDigest cr v) (waSessions a) \<rparr>)
                else (True, a)))"

definition revoke_session :: "Lib \<Rightarrow> string option \<Rightarrow> WebAuth \<Rightarrow> WebAuth" where
  "revoke_session cr cookie a =
     (case cookie of None \<Rightarrow> a | Some v \<Rightarrow> a\<lparr> waSessions := del (crDigest cr v) (waSessions a) \<rparr>)"

text \<open>The first session, in the order of the map, with the least expiry; 0 is the zero time.\<close>

definition oldest_session_step :: "string \<times> int \<Rightarrow> string \<times> int \<Rightarrow> string \<times> int" where
  "oldest_session_step kv best = (if snd best = 0 \<or> snd kv < snd best then kv else best)"

definition oldest_session :: "(string, int) gomap \<Rightarrow> string" where
  "oldest_session m = fst (fold oldest_session_step m ([], 0))"

definition insert_session :: "int \<Rightarrow> string \<Rightarrow> int \<Rightarrow> (string, int) gomap \<Rightarrow> (string, int) gomap" where
  "insert_session now key expires sessions0 =
     (let sessions = filter (\<lambda>(_, expiry). now < expiry) sessions0
      in put key expires
           (if length sessions \<ge> session_limit then del (oldest_session sessions) sessions else sessions))"

definition new_session :: "Lib \<Rightarrow> int \<Rightarrow> string option \<Rightarrow> string option \<Rightarrow> WebAuth \<Rightarrow> bool \<times> WebAuth" where
  "new_session cr now cookie random a =
     (case random of
        None \<Rightarrow> (False, a)
      | Some token \<Rightarrow>
          let r = revoke_session cr cookie a
          in (True, r\<lparr> waSessions := insert_session now (crDigest cr token) (now + session_lifetime) (waSessions r) \<rparr>))"

section \<open>Throttles\<close>

definition no_throttle :: Throttle where
  "no_throttle = \<lparr> thFailures = 0, thBlockedUntil = 0, thLastSeen = 0 \<rparr>"

definition blocked :: "int \<Rightarrow> string \<Rightarrow> WebAuth \<Rightarrow> int option \<times> WebAuth" where
  "blocked now source a =
     (let throttles = filter (\<lambda>(_, item). \<not> now - thLastSeen item > throttle_memory) (waThrottles a);
          item = get_or no_throttle throttles source
      in (if now < thBlockedUntil item then Some (thBlockedUntil item - now) else None,
          a\<lparr> waThrottles := throttles \<rparr>))"

definition failed :: "int \<Rightarrow> string \<Rightarrow> WebAuth \<Rightarrow> WebAuth" where
  "failed now source a =
     (let item0 = get_or no_throttle (waThrottles a) source;
          item = item0\<lparr> thFailures := Suc (thFailures item0), thLastSeen := now \<rparr>
      in a\<lparr> waThrottles := put source
            (if thFailures item \<ge> login_failure_limit
             then item\<lparr> thFailures := 0, thBlockedUntil := now + login_block_duration \<rparr> else item)
            (waThrottles a) \<rparr>)"

definition succeeded :: "string \<Rightarrow> WebAuth \<Rightarrow> WebAuth" where
  "succeeded source a = a\<lparr> waThrottles := del source (waThrottles a) \<rparr>"

text \<open>\<open>crSplitHost\<close> is \<open>net.SplitHostPort\<close>; \<open>crParseIP\<close> tells whether a text is an address
  and, if so, whether it is a loopback address.\<close>

definition peer_host :: "Lib \<Rightarrow> string \<Rightarrow> string" where
  "peer_host cr remote =
     (case crSplitHost cr remote of Some h \<Rightarrow> if h = [] then remote else h | None \<Rightarrow> remote)"

definition login_source :: "Lib \<Rightarrow> string \<Rightarrow> string \<Rightarrow> string" where
  "login_source cr remote forwarded_for =
     (let host = peer_host cr remote;
          forwarded = trim_space (hd (split_on CHR '','' forwarded_for))
      in if crParseIP cr host = Some True \<and> crParseIP cr forwarded \<noteq> None then forwarded
         else if host \<noteq> [] then host else ''unknown'')"

section \<open>The sections of a request\<close>

datatype answer = Granted | LoggedOut | ApiError nat string

datatype saved = Saved | AlreadyExists | SaveFailed

datatype path = Logout | Setup | Login | Password | Other

record AuthRequest =
  arPath :: path
  arReadable :: bool
  arCookie :: "string option"
  arRemote :: string
  arForwarded :: string
  arPassword :: string
  arCurrentPassword :: string
  arSetupCode :: string

record SetupRecord =
  suCode :: string
  suExpiresAt :: int

text \<open>What the world supplies to a section: the clock, the setup code on disk (\<open>None\<close> when it
  cannot be read), what the random source returns, and how a write of the record ends.\<close>

record Env =
  enNow :: int
  enSetup :: "SetupRecord option"
  enRandom :: "string option"
  enDisk :: saved

text \<open>
  Where a request is between two sections. The handler of \<open>/auth/login\<close> and \<open>/auth/password\<close>
  looks at the throttle, copies the record, takes a slot, hashes, releases the slot, compares
  the record again and, in a section of its own, opens the session.
\<close>

datatype phase =
    Arrived
  | SetupChecks
  | SetupSave LoginRecord
  | Snapshot
  | Slot LoginRecord
  | Verify LoginRecord
  | Wrong
  | Recheck LoginRecord
  | NewPassword LoginRecord
  | Change LoginRecord LoginRecord
  | OpenSession LoginRecord
  | Succeed
  | Finished answer

definition granted_or :: "phase \<Rightarrow> bool \<times> WebAuth \<Rightarrow> phase \<times> WebAuth" where
  "granted_or next r = (if fst r then next else Finished (ApiError 500 ''session_failed''), snd r)"

definition source_of :: "Lib \<Rightarrow> AuthRequest \<Rightarrow> string" where
  "source_of cr rq = login_source cr (arRemote rq) (arForwarded rq)"

definition start_request :: "Lib \<Rightarrow> Env \<Rightarrow> AuthRequest \<Rightarrow> WebAuth \<Rightarrow> phase \<times> WebAuth" where
  "start_request cr env rq a =
     (if arPath rq \<noteq> Logout \<and> \<not> arReadable rq then (Finished (ApiError 400 ''invalid_request''), a)
      else case arPath rq of
        Logout \<Rightarrow> (Finished LoggedOut, revoke_session cr (arCookie rq) a)
      | Setup \<Rightarrow>
          (if waRecord a \<noteq> None then (Finished (ApiError 409 ''already_configured''), a) else (SetupChecks, a))
      | Other \<Rightarrow> (Finished (ApiError 404 ''not_found''), a)
      | _ \<Rightarrow>
          let (wait, a') = blocked (enNow env) (source_of cr rq) a
          in (if wait \<noteq> None then Finished (ApiError 429 ''rate_limited'') else Snapshot, a'))"

definition setup_checks :: "Lib \<Rightarrow> Env \<Rightarrow> AuthRequest \<Rightarrow> answer + LoginRecord" where
  "setup_checks cr env rq =
     (case enSetup env of
        None \<Rightarrow> Inl (ApiError 503 ''setup_code_unavailable'')
      | Some su \<Rightarrow>
          if \<not> enNow env < suExpiresAt su then Inl (ApiError 401 ''setup_code_expired'')
          else if crDigest cr (arSetupCode rq) \<noteq> crDigest cr (suCode su)
            then Inl (ApiError 401 ''invalid_setup_code'')
          else (case password_record cr (enRandom env) (arPassword rq) of
              None \<Rightarrow> Inl (ApiError 400 ''invalid_password'') | Some r \<Rightarrow> Inr r))"

definition setup_commit :: "Lib \<Rightarrow> Env \<Rightarrow> AuthRequest \<Rightarrow> LoginRecord \<Rightarrow> WebAuth \<Rightarrow> phase \<times> WebAuth" where
  "setup_commit cr env rq r a =
     (if waRecord a \<noteq> None then (Finished (ApiError 409 ''already_configured''), a)
      else case enDisk env of
          AlreadyExists \<Rightarrow> (Finished (ApiError 409 ''already_configured''), a)
        | SaveFailed \<Rightarrow> (Finished (ApiError 500 ''save_failed''), a)
        | Saved \<Rightarrow> granted_or (Finished Granted)
            (new_session cr (enNow env) (arCookie rq) (enRandom env) (a\<lparr> waRecord := Some r \<rparr>)))"

definition sign_in_snapshot :: "Lib \<Rightarrow> Env \<Rightarrow> AuthRequest \<Rightarrow> WebAuth \<Rightarrow> phase \<times> WebAuth" where
  "sign_in_snapshot cr env rq a =
     (case waRecord a of
        None \<Rightarrow> (Finished (ApiError 409 ''setup_required''), a)
      | Some r \<Rightarrow>
          if arPath rq = Password
          then (let (ok, a') = session_valid cr (enNow env) (arCookie rq) a
                in (if ok then Slot r else Finished (ApiError 401 ''unauthorized''), a'))
          else (Slot r, a))"

definition acquire_slot :: "WebAuth \<Rightarrow> bool \<times> WebAuth" where
  "acquire_slot a = (if waSlots a < hash_slots then (True, a\<lparr> waSlots := Suc (waSlots a) \<rparr>) else (False, a))"

definition release_slot :: "WebAuth \<Rightarrow> WebAuth" where
  "release_slot a = a\<lparr> waSlots := waSlots a - 1 \<rparr>"

definition given_password :: "AuthRequest \<Rightarrow> string" where
  "given_password rq = (if arPath rq = Password then arCurrentPassword rq else arPassword rq)"

definition change_commit ::
    "Lib \<Rightarrow> Env \<Rightarrow> AuthRequest \<Rightarrow> LoginRecord \<Rightarrow> LoginRecord \<Rightarrow> WebAuth \<Rightarrow> phase \<times> WebAuth" where
  "change_commit cr env rq old new a =
     (if \<not> same_record (waRecord a) old then (Finished (ApiError 409 ''credentials_changed''), a)
      else if enDisk env \<noteq> Saved then (Finished (ApiError 500 ''save_failed''), a)
      else granted_or Succeed
        (new_session cr (enNow env) (arCookie rq) (enRandom env) (a\<lparr> waRecord := Some new, waSessions := [] \<rparr>)))"

text \<open>One section of \<open>authWrite\<close>; a finished request stays as it is.\<close>

fun advance :: "Lib \<Rightarrow> Env \<Rightarrow> AuthRequest \<Rightarrow> phase \<Rightarrow> WebAuth \<Rightarrow> phase \<times> WebAuth" where
  "advance cr env rq Arrived a = start_request cr env rq a"
| "advance cr env rq SetupChecks a =
     (case setup_checks cr env rq of Inl e \<Rightarrow> (Finished e, a) | Inr r \<Rightarrow> (SetupSave r, a))"
| "advance cr env rq (SetupSave r) a = setup_commit cr env rq r a"
| "advance cr env rq Snapshot a = sign_in_snapshot cr env rq a"
| "advance cr env rq (Slot r) a =
     (let (ok, a') = acquire_slot a in (if ok then Verify r else Finished (ApiError 429 ''busy''), a'))"
| "advance cr env rq (Verify r) a =
     (if matches_record cr (given_password rq) (Some r) then Recheck r else Wrong, release_slot a)"
| "advance cr env rq Wrong a =
     (Finished (ApiError 401 ''invalid_password''), failed (enNow env) (source_of cr rq) a)"
| "advance cr env rq (Recheck r) a =
     (if \<not> same_record (waRecord a) r then Finished (ApiError 409 ''credentials_changed'')
      else if arPath rq = Password then NewPassword r else OpenSession r, a)"
| "advance cr env rq (NewPassword r) a =
     (case password_record cr (enRandom env) (arPassword rq) of
        None \<Rightarrow> (Finished (ApiError 400 ''invalid_password''), a)
      | Some new \<Rightarrow> (Change r new, a))"
| "advance cr env rq (Change r new) a = change_commit cr env rq r new a"
| "advance cr env rq (OpenSession r) a =
     granted_or Succeed (new_session cr (enNow env) (arCookie rq) (enRandom env) a)"
| "advance cr env rq Succeed a = (Finished Granted, succeeded (source_of cr rq) a)"
| "advance cr env rq (Finished r) a = (Finished r, a)"

section \<open>The service under many requests\<close>

text \<open>\<open>seen\<close> is a history variable: every password record the service has had.\<close>

record World =
  wClock :: int
  wAuth :: WebAuth
  wRequests :: "(AuthRequest \<times> phase) list"
  wSeen :: "LoginRecord list"

definition open_world :: "int \<Rightarrow> LoginRecord option \<Rightarrow> World" where
  "open_world now r =
     \<lparr> wClock = now, wAuth = open_web_auth r, wRequests = [],
       wSeen = (case r of None \<Rightarrow> [] | Some r \<Rightarrow> [r]) \<rparr>"

definition run_section :: "Lib \<Rightarrow> Env \<Rightarrow> nat \<Rightarrow> World \<Rightarrow> World" where
  "run_section cr env i w =
     (let (rq, ph) = wRequests w ! i;
          (ph', a) = advance cr env rq ph (wAuth w)
      in w\<lparr> wAuth := a, wRequests := (wRequests w)[i := (rq, ph')],
            wSeen := (case waRecord a of None \<Rightarrow> wSeen w | Some r \<Rightarrow> List.insert r (wSeen w)) \<rparr>)"

inductive auth_step :: "Lib \<Rightarrow> World \<Rightarrow> World \<Rightarrow> bool" for cr :: Lib where
  tick: "0 \<le> d \<Longrightarrow> auth_step cr w (w\<lparr> wClock := wClock w + d \<rparr>)"
| arrive: "auth_step cr w (w\<lparr> wRequests := wRequests w @ [(rq, Arrived)] \<rparr>)"
| proceed: "i < length (wRequests w) \<Longrightarrow> enNow env = wClock w \<Longrightarrow>
    auth_step cr w (run_section cr env i w)"

inductive auth_reach :: "Lib \<Rightarrow> World \<Rightarrow> bool" for cr :: Lib where
  start: "auth_reach cr (open_world now r)"
| step: "auth_reach cr w \<Longrightarrow> auth_step cr w w' \<Longrightarrow> auth_reach cr w'"

inductive_cases auth_stepE [elim]: "auth_step cr w w'"

section \<open>The table of sessions is bounded\<close>

lemma oldest_session_elem:
  assumes "m \<noteq> []"
  shows "oldest_session m \<in> fst ` set m"
proof -
  have keep: "fold oldest_session_step xs b \<in> insert b (set xs)" for xs b
  proof (induction xs arbitrary: b)
    case (Cons x xs)
    from Cons.IH [of "oldest_session_step x b"] show ?case by (auto simp: oldest_session_step_def split: if_splits)
  qed simp
  obtain x xs where "m = x # xs" using assms by (cases m) auto
  then have "fold oldest_session_step m ([], 0) = fold oldest_session_step xs x"
    by (simp add: oldest_session_step_def)
  with keep [of xs x] \<open>m = x # xs\<close> show ?thesis by (auto simp: oldest_session_def intro: rev_image_eqI)
qed

definition session_store :: "(string, int) gomap \<Rightarrow> bool" where
  "session_store m \<longleftrightarrow> wf_map m \<and> length m \<le> session_limit"

lemma length_del_oldest:
  assumes "wf_map m" "m \<noteq> []"
  shows "Suc (length (del (oldest_session m) m)) = length m"
proof -
  from oldest_session_elem [OF assms(2)] obtain v where "get m (oldest_session m) = Some v"
    by (metis map_of_eq_None_iff option.exhaust)
  then show ?thesis using assms(1) by (simp add: length_del_present)
qed

lemma insert_session_store:
  assumes "session_store m"
  shows "session_store (insert_session now k v m)"
proof -
  define f where "f = filter (\<lambda>(_, expiry). now < expiry) m"
  have f: "wf_map f" "length f \<le> session_limit"
    using assms order_trans [OF length_filter_le] by (auto simp: f_def session_store_def)
  show ?thesis
  proof (cases "length f \<ge> session_limit")
    case True
    then have "f \<noteq> []" by (auto simp: session_limit_def)
    with True f show ?thesis
      using length_del_oldest [of f]
      by (auto simp: insert_session_def f_def [symmetric] session_store_def length_put Let_def)
  next
    case False
    with f show ?thesis
      by (auto simp: insert_session_def f_def [symmetric] session_store_def length_put Let_def)
  qed
qed

lemma get_insert_session:
  assumes "wf_map m" "get (insert_session now k v m) k' = Some w"
  shows "k' = k \<and> w = v \<or> get m k' = Some w"
  using assms
  by (auto simp: insert_session_def Let_def filter_map_get set_del split: if_splits option.splits)

interpretation logins: bounded_store "[]" "insert_session now" get length session_limit session_store for now
proof
  fix s :: "(string, int) gomap" and k k' :: string and v w :: int
  assume "session_store s" "get (insert_session now k v s) k' = Some w"
  then show "k' = k \<and> w = v \<or> get s k' = Some w"
    using get_insert_session by (auto simp: session_store_def simp del: map_of_eq_Some_iff)
qed (auto simp: insert_session_store, auto simp: session_store_def)

section \<open>What a section leaves alone\<close>

lemma session_valid_frame [simp]:
  "waRecord (snd (session_valid cr now c a)) = waRecord a"
  "waThrottles (snd (session_valid cr now c a)) = waThrottles a"
  "waSlots (snd (session_valid cr now c a)) = waSlots a"
  by (auto simp: session_valid_def split: option.splits)

lemma revoke_session_frame [simp]:
  "waRecord (revoke_session cr c a) = waRecord a"
  "waThrottles (revoke_session cr c a) = waThrottles a"
  "waSlots (revoke_session cr c a) = waSlots a"
  by (auto simp: revoke_session_def split: option.splits)

lemma new_session_frame [simp]:
  "waRecord (snd (new_session cr now c rnd a)) = waRecord a"
  "waThrottles (snd (new_session cr now c rnd a)) = waThrottles a"
  "waSlots (snd (new_session cr now c rnd a)) = waSlots a"
  by (auto simp: new_session_def Let_def split: option.splits)

lemma blocked_frame [simp]:
  "waRecord (snd (blocked now s a)) = waRecord a"
  "waSessions (snd (blocked now s a)) = waSessions a"
  "waSlots (snd (blocked now s a)) = waSlots a"
  by (auto simp: blocked_def Let_def)

lemma throttle_frame [simp]:
  "waRecord (failed now s a) = waRecord a" "waRecord (succeeded s a) = waRecord a"
  "waSessions (failed now s a) = waSessions a" "waSessions (succeeded s a) = waSessions a"
  "waSlots (failed now s a) = waSlots a" "waSlots (succeeded s a) = waSlots a"
  by (auto simp: failed_def succeeded_def Let_def)

lemma slot_frame [simp]:
  "waRecord (release_slot a) = waRecord a" "waSessions (release_slot a) = waSessions a"
  "waThrottles (release_slot a) = waThrottles a"
  "waRecord (snd (acquire_slot a)) = waRecord a" "waSessions (snd (acquire_slot a)) = waSessions a"
  "waThrottles (snd (acquire_slot a)) = waThrottles a"
  by (auto simp: release_slot_def acquire_slot_def)

lemma snd_granted_or [simp]: "snd (granted_or next r) = snd r"
  by (simp add: granted_or_def)

lemmas section_defs = start_request_def setup_commit_def sign_in_snapshot_def change_commit_def

text \<open>The record is set once and never unset.\<close>

lemma advance_record:
  "waRecord (snd (advance cr env rq ph a)) =
     (case ph of
        SetupSave r \<Rightarrow> if waRecord a = None \<and> enDisk env = Saved then Some r else waRecord a
      | Change old new \<Rightarrow>
          if same_record (waRecord a) old \<and> enDisk env = Saved then Some new else waRecord a
      | _ \<Rightarrow> waRecord a)"
  by (cases ph) (auto simp: section_defs Let_def case_prod_unfold
      split: path.split option.split sum.split saved.split)

lemma advance_slots:
  "waSlots (snd (advance cr env rq ph a)) =
     (case ph of
        Slot r \<Rightarrow> if waSlots a < hash_slots then Suc (waSlots a) else waSlots a
      | Verify r \<Rightarrow> waSlots a - 1
      | _ \<Rightarrow> waSlots a)"
  by (cases ph) (auto simp: section_defs Let_def case_prod_unfold acquire_slot_def release_slot_def
      split: path.split option.split sum.split saved.split)

text \<open>A session is only ever opened by \<open>new_session\<close>.\<close>

definition sessions_ok :: "int \<Rightarrow> WebAuth \<Rightarrow> bool" where
  "sessions_ok now a \<longleftrightarrow> session_store (waSessions a) \<and>
     list_all (\<lambda>(_, e). e \<le> now + session_lifetime) (waSessions a)"

lemma sessions_ok_del:
  "sessions_ok now a \<Longrightarrow> sessions_ok now (a\<lparr> waSessions := del k (waSessions a) \<rparr>)"
  using length_del_le [of k "waSessions a"]
  by (auto simp: sessions_ok_def session_store_def list_all_iff set_del)

lemma sessions_ok_revoke: "sessions_ok now a \<Longrightarrow> sessions_ok now (revoke_session cr c a)"
  by (auto simp: revoke_session_def sessions_ok_del split: option.splits)

lemma sessions_ok_valid: "sessions_ok now a \<Longrightarrow> sessions_ok now (snd (session_valid cr now c a))"
  by (auto simp: session_valid_def sessions_ok_del split: option.splits)

lemma set_insert_session: "set (insert_session now k v m) \<subseteq> insert (k, v) (set m)"
  by (auto simp: insert_session_def Let_def set_del dest!: subsetD [OF set_put] split: if_splits)

lemma sessions_ok_new:
  assumes "sessions_ok now a"
  shows "sessions_ok now (snd (new_session cr now c rnd a))"
proof (cases rnd)
  case (Some t)
  from sessions_ok_revoke [OF assms, of cr c] show ?thesis
    using set_insert_session [of now "crDigest cr t" "now + session_lifetime" "waSessions (revoke_session cr c a)"]
    by (auto simp: Some new_session_def sessions_ok_def Let_def list_all_iff insert_session_store)
qed (simp add: new_session_def assms)

lemma sessions_ok_cong: "waSessions a = waSessions b \<Longrightarrow> sessions_ok now a = sessions_ok now b"
  by (simp add: sessions_ok_def)

lemma sessions_ok_frame [simp]:
  "sessions_ok now (a\<lparr> waRecord := r \<rparr>) = sessions_ok now a"
  "sessions_ok now (snd (blocked t s a)) = sessions_ok now a"
  "sessions_ok now (failed t s a) = sessions_ok now a"
  "sessions_ok now (succeeded s a) = sessions_ok now a"
  "sessions_ok now (release_slot a) = sessions_ok now a"
  "sessions_ok now (snd (acquire_slot a)) = sessions_ok now a"
  "sessions_ok now (a\<lparr> waRecord := r, waSessions := [] \<rparr>)"
  by (auto intro!: sessions_ok_cong) (simp add: sessions_ok_def session_store_def)

lemma advance_sessions:
  assumes "sessions_ok (enNow env) a"
  shows "sessions_ok (enNow env) (snd (advance cr env rq ph a))"
  using assms
  by (cases ph) (auto simp: section_defs Let_def case_prod_unfold sessions_ok_new sessions_ok_revoke
      sessions_ok_valid split: path.split option.split sum.split saved.split)

section \<open>Throttles\<close>

text \<open>A block never outlasts the memory of its source, so the sweep forgets no active block.\<close>

definition throttle_ok :: "int \<Rightarrow> Throttle \<Rightarrow> bool" where
  "throttle_ok now t \<longleftrightarrow> thFailures t < login_failure_limit \<and> thLastSeen t \<le> now \<and>
     (thBlockedUntil t = 0 \<or> thBlockedUntil t \<le> thLastSeen t + login_block_duration)"

definition throttles_ok :: "int \<Rightarrow> WebAuth \<Rightarrow> bool" where
  "throttles_ok now a \<longleftrightarrow> wf_map (waThrottles a) \<and>
     list_all (\<lambda>(_, t). throttle_ok now t) (waThrottles a)"

lemma throttles_ok_cong: "waThrottles a = waThrottles b \<Longrightarrow> throttles_ok now a = throttles_ok now b"
  by (simp add: throttles_ok_def)

lemma throttles_ok_frame [simp]:
  "throttles_ok now (a\<lparr> waRecord := r \<rparr>) = throttles_ok now a"
  "throttles_ok now (a\<lparr> waRecord := r, waSessions := m \<rparr>) = throttles_ok now a"
  "throttles_ok now (revoke_session cr c a) = throttles_ok now a"
  "throttles_ok now (snd (session_valid cr t c a)) = throttles_ok now a"
  "throttles_ok now (snd (new_session cr t c rnd a)) = throttles_ok now a"
  "throttles_ok now (release_slot a) = throttles_ok now a"
  "throttles_ok now (snd (acquire_slot a)) = throttles_ok now a"
  by (auto intro!: throttles_ok_cong)

lemma throttles_ok_blocked: "throttles_ok now a \<Longrightarrow> throttles_ok now (snd (blocked t s a))"
  by (auto simp: throttles_ok_def blocked_def Let_def list_all_iff)

lemma throttles_ok_succeeded: "throttles_ok now a \<Longrightarrow> throttles_ok now (succeeded s a)"
  by (auto simp: throttles_ok_def succeeded_def list_all_iff set_del)

lemma throttle_ok_get:
  assumes "throttles_ok now a" "get (waThrottles a) s = Some t"
  shows "throttle_ok now t"
  using assms by (auto simp: throttles_ok_def list_all_iff dest!: map_of_SomeD)

lemma throttle_ok_step:
  assumes "throttle_ok now t \<or> t = no_throttle"
  shows "throttle_ok now
    (if Suc (thFailures t) \<ge> login_failure_limit
     then t\<lparr> thLastSeen := now, thFailures := 0, thBlockedUntil := now + login_block_duration \<rparr>
     else t\<lparr> thFailures := Suc (thFailures t), thLastSeen := now \<rparr>)"
  using assms by (auto simp: throttle_ok_def no_throttle_def login_failure_limit_def)

lemma throttles_ok_failed:
  assumes "throttles_ok now a"
  shows "throttles_ok now (failed now s a)"
proof -
  define t where "t = get_or no_throttle (waThrottles a) s"
  have "throttle_ok now t \<or> t = no_throttle"
    using throttle_ok_get [OF assms, of s]
    by (auto simp: t_def get_or_def simp del: map_of_eq_Some_iff split: option.splits)
  from throttle_ok_step [OF this] have new: "throttle_ok now
    (if login_failure_limit \<le> Suc (thFailures t)
     then t\<lparr> thLastSeen := now, thFailures := 0, thBlockedUntil := now + login_block_duration \<rparr>
     else t\<lparr> thFailures := Suc (thFailures t), thLastSeen := now \<rparr>)" .
  have old: "wf_map (waThrottles a)" "\<forall>p\<in>set (waThrottles a). throttle_ok now (snd p)"
    using assms by (auto simp: throttles_ok_def list_all_iff)
  show ?thesis
    using new old set_put [of s _ "waThrottles a"]
    by (auto simp: throttles_ok_def failed_def Let_def t_def [symmetric] list_all_iff
        dest!: subsetD [OF set_put] split: if_splits)
qed

lemma advance_throttles:
  assumes "throttles_ok (enNow env) a"
  shows "throttles_ok (enNow env) (snd (advance cr env rq ph a))"
  using assms
  by (cases ph) (auto simp: section_defs Let_def case_prod_unfold throttles_ok_blocked throttles_ok_failed
      throttles_ok_succeeded split: path.split option.split sum.split saved.split)

text \<open>What a failed and a later attempt see.\<close>

lemma blocked_iff:
  assumes "wf_map (waThrottles a)"
  shows "fst (blocked now s a) =
    (case get (waThrottles a) s of
       None \<Rightarrow> if now < 0 then Some (- now) else None
     | Some t \<Rightarrow>
         let until = (if now - thLastSeen t > throttle_memory then 0 else thBlockedUntil t)
         in if now < until then Some (until - now) else None)"
  using filter_map_get [where P = "\<lambda>_ t. \<not> now - thLastSeen t > throttle_memory", OF assms, of s]
  by (auto simp: blocked_def Let_def get_or_def no_throttle_def case_prod_unfold
      simp del: map_of_eq_Some_iff split: option.splits)

lemma sweep_keeps_blocks:
  assumes "throttles_ok clock a" "clock \<le> now" "0 \<le> now"
  shows "fst (blocked now s a) =
    (case get (waThrottles a) s of
       None \<Rightarrow> None
     | Some t \<Rightarrow> if now < thBlockedUntil t then Some (thBlockedUntil t - now) else None)"
proof (cases "get (waThrottles a) s")
  case (Some t)
  from throttle_ok_get [OF assms(1) Some] have "thBlockedUntil t = 0 \<or> thBlockedUntil t \<le> thLastSeen t + login_block_duration"
    by (simp add: throttle_ok_def)
  with assms Some show ?thesis
    by (auto simp: blocked_iff throttles_ok_def Let_def throttle_memory_def login_block_duration_def)
qed (use assms in \<open>auto simp: blocked_iff throttles_ok_def\<close>)

definition fail_all :: "int list \<Rightarrow> string \<Rightarrow> WebAuth \<Rightarrow> WebAuth" where
  "fail_all ts s a = fold (\<lambda>t. failed t s) ts a"

lemma fail_all_get:
  assumes "0 < n" "n < login_failure_limit" "length ts = n" "get (waThrottles a) s = None"
  shows "\<exists>t. get (waThrottles (fail_all ts s a)) s = Some t \<and> thFailures t = n"
  using assms
proof (induction ts arbitrary: n rule: rev_induct)
  case (snoc x ts)
  show ?case
  proof (cases "ts = []")
    case True
    with snoc.prems show ?thesis
      by (auto simp: fail_all_def failed_def get_or_def no_throttle_def Let_def login_failure_limit_def)
  next
    case False
    with snoc.prems snoc.IH [of "n - 1"] obtain t
      where "get (waThrottles (fail_all ts s a)) s = Some t" "thFailures t = n - 1"
      by (auto simp: Suc_le_eq)
    with snoc.prems show ?thesis
      by (auto simp: fail_all_def failed_def get_or_def Let_def login_failure_limit_def)
  qed
qed simp

lemma wf_fail_all: "wf_map (waThrottles a) \<Longrightarrow> wf_map (waThrottles (fail_all ts s a))"
  by (induction ts arbitrary: a) (auto simp: fail_all_def failed_def Let_def)



text \<open>A client that does not connect from the loopback interface cannot choose the source its
  failures are counted under: the forwarded header has no influence.\<close>

theorem source_not_forged:
  "crParseIP cr (peer_host cr remote) \<noteq> Some True \<Longrightarrow>
   login_source cr remote forwarded = login_source cr remote other"
  by (simp add: login_source_def Let_def)

section \<open>What every reachable state satisfies\<close>

fun verifying :: "phase \<Rightarrow> bool" where
  "verifying (Verify _) = True" | "verifying _ = False"

text \<open>A phase past the comparison of the password holds a record that the given password matches.\<close>

fun vouched :: "Lib \<Rightarrow> LoginRecord list \<Rightarrow> AuthRequest \<times> phase \<Rightarrow> bool" where
  "vouched cr seen (rq, Slot r) = (r \<in> set seen)"
| "vouched cr seen (rq, Verify r) = (r \<in> set seen)"
| "vouched cr seen (rq, Recheck r) =
     (r \<in> set seen \<and> matches_record cr (given_password rq) (Some r))"
| "vouched cr seen (rq, NewPassword r) =
     (r \<in> set seen \<and> matches_record cr (given_password rq) (Some r))"
| "vouched cr seen (rq, Change r new) =
     (r \<in> set seen \<and> matches_record cr (given_password rq) (Some r))"
| "vouched cr seen (rq, OpenSession r) =
     (r \<in> set seen \<and> matches_record cr (given_password rq) (Some r))"
| "vouched cr seen (rq, _) = True"

definition slots_used :: "(AuthRequest \<times> phase) list \<Rightarrow> nat" where
  "slots_used rs = length (filter (\<lambda>p. verifying (snd p)) rs)"

definition world_ok :: "Lib \<Rightarrow> World \<Rightarrow> bool" where
  "world_ok cr w \<longleftrightarrow>
     sessions_ok (wClock w) (wAuth w) \<and> throttles_ok (wClock w) (wAuth w) \<and>
     waSlots (wAuth w) = slots_used (wRequests w) \<and> waSlots (wAuth w) \<le> hash_slots \<and>
     pred_option (\<lambda>r. r \<in> set (wSeen w)) (waRecord (wAuth w)) \<and>
     list_all (vouched cr (wSeen w)) (wRequests w)"

lemma world_ok_open: "world_ok cr (open_world now r)"
  by (cases r) (auto simp: world_ok_def open_world_def open_web_auth_def sessions_ok_def
      session_store_def throttles_ok_def slots_used_def)

lemma world_ok_tick:
  "0 \<le> d \<Longrightarrow> world_ok cr w \<Longrightarrow> world_ok cr (w\<lparr> wClock := wClock w + d \<rparr>)"
  by (fastforce simp: world_ok_def sessions_ok_def throttles_ok_def throttle_ok_def list_all_iff)

lemma slots_used_update:
  assumes "i < length rs"
  shows "slots_used (rs[i := y]) + of_bool (verifying (snd (rs ! i))) =
    slots_used rs + of_bool (verifying (snd y))"
proof -
  have "rs = take i rs @ rs ! i # drop (Suc i) rs" using assms by (rule id_take_nth_drop)
  then have "slots_used rs = slots_used (take i rs @ rs ! i # drop (Suc i) rs)" by (rule arg_cong)
  then show ?thesis using assms by (simp add: slots_used_def upd_conv_take_nth_drop)
qed

lemma vouched_mono: "vouched cr seen p \<Longrightarrow> set seen \<subseteq> set seen' \<Longrightarrow> vouched cr seen' p"
  by (cases p; cases "snd p") auto

lemma advance_vouched:
  assumes "vouched cr seen (rq, ph)" "pred_option (\<lambda>r. r \<in> set seen) (waRecord a)"
  shows "vouched cr seen (rq, fst (advance cr env rq ph a))"
  using assms
  by (cases ph) (auto simp: section_defs granted_or_def Let_def case_prod_unfold
      split: path.split option.split sum.split saved.split)

lemma advance_verifying:
  "verifying (fst (advance cr env rq ph a)) \<longleftrightarrow>
     (case ph of Slot r \<Rightarrow> waSlots a < hash_slots | _ \<Rightarrow> False)"
  by (cases ph) (auto simp: section_defs granted_or_def Let_def case_prod_unfold acquire_slot_def
      split: path.split option.split sum.split saved.split)

lemma world_ok_section:
  assumes ok: "world_ok cr w" and i: "i < length (wRequests w)" and now: "enNow env = wClock w"
  shows "world_ok cr (run_section cr env i w)"
proof -
  obtain rq ph where rs: "wRequests w ! i = (rq, ph)" by fastforce
  obtain ph' a where adv: "advance cr env rq ph (wAuth w) = (ph', a)" by fastforce
  define seen where "seen = (case waRecord a of None \<Rightarrow> wSeen w | Some r \<Rightarrow> List.insert r (wSeen w))"
  have run: "run_section cr env i w =
      w\<lparr> wAuth := a, wRequests := (wRequests w)[i := (rq, ph')], wSeen := seen \<rparr>"
    by (simp add: run_section_def rs adv seen_def)
  have sub: "set (wSeen w) \<subseteq> set seen" by (auto simp: seen_def split: option.splits)
  have old: "vouched cr (wSeen w) p" if "p \<in> set (wRequests w)" for p
    using ok that by (auto simp: world_ok_def list_all_iff)
  have here: "vouched cr (wSeen w) (rq, ph)" using old i rs by (metis nth_mem)
  have new: "vouched cr seen (rq, ph')"
    using advance_vouched [OF here, of "wAuth w" env] ok adv sub
    by (auto simp: world_ok_def intro: vouched_mono)
  have "list_all (vouched cr seen) ((wRequests w)[i := (rq, ph')])"
    using new old sub by (auto simp: list_all_iff dest!: subsetD [OF set_update_subset_insert] intro: vouched_mono)
  moreover have "sessions_ok (wClock w) a" "throttles_ok (wClock w) a"
    using advance_sessions [of env "wAuth w" cr rq ph] advance_throttles [of env "wAuth w" cr rq ph] ok now adv
    by (auto simp: world_ok_def)
  moreover have "waSlots a = slots_used ((wRequests w)[i := (rq, ph')]) \<and> waSlots a \<le> hash_slots"
    using slots_used_update [OF i, of "(rq, ph')"] advance_slots [of cr env rq ph "wAuth w"]
      advance_verifying [of cr env rq ph "wAuth w"] ok rs
    unfolding adv by (cases ph) (auto simp: world_ok_def split: if_splits)
  moreover have "pred_option (\<lambda>r. r \<in> set seen) (waRecord a)"
    by (auto simp: seen_def pred_option_def split: option.splits)
  ultimately show ?thesis by (simp add: run world_ok_def)
qed

lemma world_ok_reach: "auth_reach cr w \<Longrightarrow> world_ok cr w"
proof (induction rule: auth_reach.induct)
  case (step w w')
  from step.hyps(2) step.IH show ?case
  proof (cases rule: auth_step.cases)
    case (arrive rq)
    with step.IH show ?thesis by (auto simp: world_ok_def slots_used_def)
  qed (auto intro: world_ok_tick world_ok_section)
qed (rule world_ok_open)



text \<open>Which request a new session comes from.\<close>

definition opens :: "Lib \<Rightarrow> Env \<Rightarrow> string \<Rightarrow> int \<Rightarrow> bool" where
  "opens cr env k e \<longleftrightarrow> enRandom env \<noteq> None \<and> k = crDigest cr (the (enRandom env)) \<and>
     e = enNow env + session_lifetime"

lemma get_revoke:
  "get (waSessions (revoke_session cr c a)) k = Some e \<Longrightarrow> get (waSessions a) k = Some e"
  by (auto simp: revoke_session_def split: option.splits if_splits)

lemma get_new_session:
  assumes "wf_map (waSessions a)" "get (waSessions (snd (new_session cr (enNow env) c (enRandom env) a))) k = Some e"
  shows "opens cr env k e \<or> get (waSessions a) k = Some e"
proof (cases "enRandom env")
  case (Some t)
  have "wf_map (waSessions (revoke_session cr c a))"
    using assms(1) by (auto simp: revoke_session_def split: option.splits)
  from get_insert_session [OF this, of "enNow env" "crDigest cr t" "enNow env + session_lifetime" k e] assms(2)
  show ?thesis
    by (auto simp: Some opens_def new_session_def Let_def dest: get_revoke simp del: map_of_eq_Some_iff)
qed (use assms in \<open>simp add: new_session_def\<close>)

lemma get_session_valid:
  "get (waSessions (snd (session_valid cr now c a))) k = Some e \<Longrightarrow> get (waSessions a) k = Some e"
  by (auto simp: session_valid_def simp del: map_of_eq_Some_iff split: option.splits if_splits)

definition may_open :: "Lib \<Rightarrow> Env \<Rightarrow> phase \<Rightarrow> WebAuth \<Rightarrow> bool" where
  "may_open cr env ph a =
     (case ph of
        SetupSave r \<Rightarrow> waRecord a = None \<and> enDisk env = Saved
      | Change old new \<Rightarrow> same_record (waRecord a) old \<and> enDisk env = Saved
      | OpenSession r \<Rightarrow> True
      | _ \<Rightarrow> False)"

lemma advance_opens:
  assumes "wf_map (waSessions a)" "get (waSessions a) k = None"
    and "get (waSessions (snd (advance cr env rq ph a))) k = Some e"
  shows "opens cr env k e \<and> may_open cr env ph a"
proof -
  have new: "opens cr env k e"
    if "get (waSessions (snd (new_session cr (enNow env) c (enRandom env) b))) k = Some e"
      "waSessions b = waSessions a \<or> waSessions b = []" for b c
    using get_new_session [OF _ that(1)] assms(1,2) that(2) by (auto simp del: map_of_eq_Some_iff)
  show ?thesis
    using assms(2,3)
    by (cases ph)
      (auto simp: may_open_def section_defs Let_def case_prod_unfold simp del: map_of_eq_Some_iff
        dest: get_revoke get_session_valid dest!: new
        split: path.splits option.splits sum.splits saved.splits if_splits)
qed

lemma same_record_iff: "same_record r old \<longleftrightarrow> r = Some old"
  by (cases r) (auto simp: same_record_def)

text \<open>C15. A session appears only by a section that has the right to open one: the setup of a
  service without a password, a change of password by a request whose current password matches
  the record in force, or a login whose password matches a record the service has had. It is the
  digest of a fresh token and ends seven days from now.\<close>

theorem session_needs_password:
  assumes reach: "auth_reach cr w" and i: "i < length (wRequests w)" and now: "enNow env = wClock w"
    and old: "get (waSessions (wAuth w)) k = None"
    and new: "get (waSessions (wAuth (run_section cr env i w))) k = Some e"
    and req: "wRequests w ! i = (rq, ph)"
  shows "enRandom env \<noteq> None \<and> k = crDigest cr (the (enRandom env)) \<and> e = wClock w + session_lifetime \<and>
    (case ph of
       SetupSave r \<Rightarrow> waRecord (wAuth w) = None
     | Change r _ \<Rightarrow> waRecord (wAuth w) = Some r \<and> matches_record cr (given_password rq) (Some r)
     | OpenSession r \<Rightarrow> r \<in> set (wSeen w) \<and> matches_record cr (given_password rq) (Some r)
     | _ \<Rightarrow> False)"
proof -
  have ok: "world_ok cr w" by (rule world_ok_reach [OF reach])
  then have wf: "wf_map (waSessions (wAuth w))"
    by (simp add: world_ok_def sessions_ok_def session_store_def)
  have v: "vouched cr (wSeen w) (rq, ph)"
    using ok i req nth_mem [OF i] by (auto simp: world_ok_def list_all_iff)
  have "get (waSessions (snd (advance cr env rq ph (wAuth w)))) k = Some e"
    using new by (simp add: run_section_def req case_prod_unfold Let_def del: map_of_eq_Some_iff)
  from advance_opens [OF wf old this] v now show ?thesis
    by (cases ph) (auto simp: may_open_def opens_def same_record_iff)
qed

section \<open>A login that runs alone\<close>

fun run_alone :: "Lib \<Rightarrow> Env list \<Rightarrow> AuthRequest \<Rightarrow> phase \<times> WebAuth \<Rightarrow> phase \<times> WebAuth" where
  "run_alone cr [] rq s = s"
| "run_alone cr (env # envs) rq (ph, a) = run_alone cr envs rq (advance cr env rq ph a)"

text \<open>C17. A login with the right password, from a source that is not blocked and while a slot is
  free, is granted after seven sections, and its cookie then opens the service until the session
  ends, seven days later.\<close>

theorem login_granted:
  assumes "waRecord a = Some r" "matches_record cr (arPassword rq) (Some r)"
    and "arPath rq = Login" "arReadable rq"
    and "fst (blocked (enNow e1) (source_of cr rq) a) = None" "waSlots a < 2"
    and "enRandom e6 = Some token" "length token = 43" "t < enNow e6 + session_lifetime"
  shows "fst (run_alone cr [e1, e2, e3, e4, e5, e6, e7] rq (Arrived, a)) = Finished Granted \<and>
    fst (session_valid cr t (Some token) (snd (run_alone cr [e1, e2, e3, e4, e5, e6, e7] rq (Arrived, a))))"
proof -
  define b where "b = snd (blocked (enNow e1) (source_of cr rq) a)"
  have 1: "advance cr e1 rq Arrived a = (Snapshot, b)"
    using assms by (simp add: start_request_def b_def case_prod_unfold)
  have 2: "advance cr e2 rq Snapshot b = (Slot r, b)"
    using assms by (simp add: sign_in_snapshot_def b_def)
  have 3: "advance cr e3 rq (Slot r) b = (Verify r, b\<lparr> waSlots := Suc (waSlots b) \<rparr>)"
    using assms by (simp add: acquire_slot_def b_def hash_slots_def)
  have 4: "advance cr e4 rq (Verify r) (b\<lparr> waSlots := Suc (waSlots b) \<rparr>) = (Recheck r, b)"
    using assms by (simp add: release_slot_def given_password_def)
  have 5: "advance cr e5 rq (Recheck r) b = (OpenSession r, b)"
    using assms by (simp add: same_record_iff b_def)
  define c where "c = snd (new_session cr (enNow e6) (arCookie rq) (enRandom e6) b)"
  have 6: "advance cr e6 rq (OpenSession r) b = (Succeed, c)"
    using assms by (simp add: granted_or_def new_session_def c_def Let_def)
  have "get (waSessions (succeeded s c)) (crDigest cr token) = Some (enNow e6 + session_lifetime)" for s
    using assms by (simp add: c_def new_session_def Let_def insert_session_def)
  then show ?thesis
    using assms(8,9) by (simp only: run_alone.simps 1 2 3 4 5 6)
      (simp add: session_valid_def)
qed

section \<open>A schedule, and a login that outlives its password\<close>

definition run_schedule :: "Lib \<Rightarrow> (nat \<times> Env) list \<Rightarrow> World \<Rightarrow> World" where
  "run_schedule cr sched w = fold (\<lambda>(i, env). run_section cr env i) sched w"

lemma run_section_frame [simp]:
  "wClock (run_section cr env i w) = wClock w"
  "length (wRequests (run_section cr env i w)) = length (wRequests w)"
  by (simp_all add: run_section_def case_prod_unfold Let_def)

lemma reach_schedule:
  assumes "auth_reach cr w" "list_all (\<lambda>(i, env). i < length (wRequests w) \<and> enNow env = wClock w) sched"
  shows "auth_reach cr (run_schedule cr sched w)"
  using assms
proof (induction sched arbitrary: w)
  case (Cons p sched)
  obtain i env where p: "p = (i, env)" by fastforce
  have "auth_reach cr (run_section cr env i w)"
    using Cons.prems p by (auto intro: auth_reach.step auth_step.proceed)
  with Cons.IH [of "run_section cr env i w"] Cons.prems p show ?case by (simp add: run_schedule_def)
qed (simp add: run_schedule_def)

definition demo_lib :: Lib where
  "demo_lib = \<lparr> crDigest = (\<lambda>s. s), crPassword = (\<lambda>password salt. Some (salt @ password)),
     crSplitHost = (\<lambda>s. Some s), crParseIP = (\<lambda>_. None) \<rparr>"

definition demo_env :: "char \<Rightarrow> Env" where
  "demo_env c = \<lparr> enNow = 0, enSetup = None, enRandom = Some (replicate 43 c), enDisk = Saved \<rparr>"

definition demo_request :: "path \<Rightarrow> string option \<Rightarrow> string \<Rightarrow> string \<Rightarrow> AuthRequest" where
  "demo_request p cookie password current =
     \<lparr> arPath = p, arReadable = True, arCookie = cookie, arRemote = ''10.0.0.7'', arForwarded = [],
       arPassword = password, arCurrentPassword = current, arSetupCode = [] \<rparr>"

definition demo_old :: LoginRecord where
  "demo_old = \<lparr> lrSalt = ''s'', lrHash = ''spassword1'' \<rparr>"

text \<open>Three requests: a login (0), the login of the owner (1) and the owner's change of
  password (2). The first is held back just before it opens its session.\<close>

definition demo_start :: World where
  "demo_start = (open_world 0 (Some demo_old))\<lparr> wRequests :=
     [(demo_request Login None ''password1'' [], Arrived),
      (demo_request Login None ''password1'' [], Arrived),
      (demo_request Password (Some (replicate 43 CHR ''B'')) ''password2'' ''password1'', Arrived)] \<rparr>"

definition demo_schedule :: "(nat \<times> Env) list" where
  "demo_schedule = replicate 5 (0, demo_env CHR ''A'') @ replicate 7 (1, demo_env CHR ''B'') @
     replicate 8 (2, demo_env CHR ''C'')"

definition demo_world :: World where
  "demo_world = run_schedule demo_lib demo_schedule demo_start"

lemma reach_demo_start: "auth_reach demo_lib demo_start"
proof -
  have "auth_reach demo_lib (w\<lparr> wRequests := wRequests w @ map (\<lambda>rq. (rq, Arrived)) rqs \<rparr>)"
    if "auth_reach demo_lib w" for w rqs
    using that
  proof (induction rqs arbitrary: w)
    case (Cons rq rqs)
    from Cons.IH [OF auth_reach.step [OF Cons.prems auth_step.arrive [of _ _ rq]]] show ?case by simp
  qed simp
  from this [OF auth_reach.start [of demo_lib 0 "Some demo_old"],
      of "map fst (wRequests demo_start)"]
  show ?thesis by (simp add: demo_start_def open_world_def)
qed

lemma reach_demo_world: "auth_reach demo_lib demo_world"
  unfolding demo_world_def
  by (rule reach_schedule [OF reach_demo_start])
    (simp add: demo_schedule_def demo_start_def open_world_def demo_env_def list_all_iff)

lemma demo_world_auth:
  "waRecord (wAuth demo_world) = Some \<lparr> lrSalt = replicate 43 CHR ''C'', lrHash = replicate 43 CHR ''C'' @ ''password2'' \<rparr>"
  "map snd (wRequests demo_world) = [OpenSession demo_old, Finished Granted, Finished Granted]"
  "waSessions (wAuth demo_world) = [(replicate 43 CHR ''C'', session_lifetime)]"
  by code_simp+


theorem session_needs_password_witness:
  "wRequests demo_world ! 0 = (demo_request Login None ''password1'' [], OpenSession demo_old) \<and>
   (enRandom (demo_env CHR ''A'') \<noteq> None \<and>
    replicate 43 CHR ''A'' = crDigest demo_lib (the (enRandom (demo_env CHR ''A''))) \<and>
    session_lifetime = wClock demo_world + session_lifetime \<and>
    (demo_old \<in> set (wSeen demo_world) \<and>
     matches_record demo_lib (given_password (demo_request Login None ''password1'' [])) (Some demo_old)))"
proof -
  have rq: "wRequests demo_world ! 0 = (demo_request Login None ''password1'' [], OpenSession demo_old)"
    by code_simp
  have "0 < length (wRequests demo_world)" "enNow (demo_env CHR ''A'') = wClock demo_world"
    "get (waSessions (wAuth demo_world)) (replicate 43 CHR ''A'') = None"
    "get (waSessions (wAuth (run_section demo_lib (demo_env CHR ''A'') 0 demo_world))) (replicate 43 CHR ''A'') =
      Some session_lifetime"
    by code_simp+
  from session_needs_password [OF reach_demo_world this rq] rq show ?thesis by simp
qed

theorem login_granted_witness:
  "fst (run_alone demo_lib (replicate 7 (demo_env CHR ''A'')) (demo_request Login None ''password1'' [])
      (Arrived, open_web_auth (Some demo_old))) = Finished Granted \<and>
   fst (session_valid demo_lib 5 (Some (replicate 43 CHR ''A''))
      (snd (run_alone demo_lib (replicate 7 (demo_env CHR ''A'')) (demo_request Login None ''password1'' [])
        (Arrived, open_web_auth (Some demo_old)))))"
proof -
  let ?e = "demo_env CHR ''A''" and ?rq = "demo_request Login None ''password1'' []"
  have "waRecord (open_web_auth (Some demo_old)) = Some demo_old"
    "matches_record demo_lib (arPassword ?rq) (Some demo_old)" "arPath ?rq = Login" "arReadable ?rq"
    "fst (blocked (enNow ?e) (source_of demo_lib ?rq) (open_web_auth (Some demo_old))) = None"
    "waSlots (open_web_auth (Some demo_old)) < 2" "enRandom ?e = Some (replicate 43 CHR ''A'')"
    "length (replicate 43 CHR ''A'') = 43" "5 < enNow ?e + session_lifetime"
    by code_simp+
  from login_granted [OF this] show ?thesis by (simp add: numeral_eq_Suc)
qed

theorem source_not_forged_witness:
  "login_source demo_lib ''10.0.0.7'' ''1.2.3.4'' = login_source demo_lib ''10.0.0.7'' ''5.6.7.8''"
  by (rule source_not_forged) (simp add: demo_lib_def)

end
