(* ===== verification/Bundle.thy ===== *)
theory Bundle
  imports Catalog
begin

text \<open>
  Package \<open>moviebundle\<close>: the files of a movie source as one unit of publication. Disc trees and
  images are opaque; ordinary files are excluded, extras, versions, or sidecars of exactly one
  version, and whatever is none of these is a conflict. \<open>letter\<close> tells whether a code point is a
  Unicode letter or number (the class \<open>[\pL\pN]\<close>), \<open>glob\<close> is \<open>filepath.Match\<close>; both are
  parameters. \<open>EqualFold\<close> and \<open>ToLower\<close> act on ASCII letters, and details and reasons are
  constructors instead of texts.
\<close>

section \<open>Data\<close>

datatype bundle_kind = KFiles | KBluRay | KDVD | KISO | KConflict

datatype asset_kind = AVideo | AAudio | ASubtitle | AExtra | AOpaque | AExcluded | AUnknown | ANone

datatype extra_kind =
  Trailer | Interview | Featurette | BehindScenes | DeletedScene | Scene | Short | OtherExtra

datatype asset_detail =
  NoDetail | MatchedPattern string | ClassifiedOut | Ancillary | Unassociated | NoMarker string

datatype bundle_conflict =
  NoConflict | MixedDiscs | DiscAndFiles | EmptyDisc | IsoAndFiles | NoMainVersion |
  UnknownSecondary | UnknownAssets

record Asset =
  aPath :: string
  aRelative :: string
  aKind :: asset_kind
  aDetail :: asset_detail

record Version =
  vVideo :: Asset
  vAudios :: "Asset list"
  vSubtitles :: "Asset list"
  vLabel :: string

record MovieBundle =
  bRecognized :: bool
  bKind :: bundle_kind
  bTitle :: string
  bYear :: int
  bVersions :: "Version list"
  bExtras :: "(extra_kind \<times> Asset) list"
  bOpaque :: "(string \<times> Asset list) option"
  bExcluded :: "Asset list"
  bUnknown :: "Asset list"
  bWarnings :: "string list"
  bConflict :: bundle_conflict

record Options =
  oTitle :: string
  oYear :: int
  oBlacklist :: "string list"
  oOverrides :: "(string, string) gomap"

definition conflict :: "MovieBundle \<Rightarrow> bundle_conflict \<Rightarrow> MovieBundle" where
  "conflict b reason = b\<lparr> bKind := KConflict, bConflict := reason \<rparr>"

definition bundle_error :: "MovieBundle \<Rightarrow> bundle_conflict option" where
  "bundle_error b =
     (if bKind b = KConflict \<or> bConflict b \<noteq> NoConflict then Some (bConflict b) else None)"

section \<open>Names\<close>

definition equal_fold :: "string \<Rightarrow> string \<Rightarrow> bool" where
  "equal_fold s t \<longleftrightarrow> to_lower s = to_lower t"

text \<open>The maximal runs of letters and numbers.\<close>

function token_loop :: "(nat \<Rightarrow> bool) \<Rightarrow> string \<Rightarrow> string \<Rightarrow> string list" where
  "token_loop letter acc [] = (if acc = [] then [] else [acc])"
| "token_loop letter acc (c # s) =
     (let (r, w) = decode_rune (c # s); t = drop w (c # s)
      in if letter r then token_loop letter (acc @ take w (c # s)) t
         else (if acc = [] then [] else [acc]) @ token_loop letter [] t)"
  by pat_completeness auto
termination
proof (relation "measure (\<lambda>(_, _, s). length s)", goal_cases)
  case (2 letter acc c s p r w t)
  then show ?case using decode_rune_width [of "c # s"] by (cases "decode_rune (c # s)") auto
next
  case (3 letter acc c s p r w t)
  then show ?case using decode_rune_width [of "c # s"] by (cases "decode_rune (c # s)") auto
qed simp

declare token_loop.simps(2) [simp del]

definition tokens :: "(nat \<Rightarrow> bool) \<Rightarrow> string \<Rightarrow> string list" where
  "tokens letter value = token_loop letter [] (to_lower value)"

definition strip_identity_prefix :: "string list \<Rightarrow> string list \<Rightarrow> int \<Rightarrow> string list" where
  "strip_identity_prefix values0 title year =
     (let values = (if title \<noteq> [] \<and> prefix title values0 then drop (length title) values0 else values0)
      in if values \<noteq> [] \<and> year > 0 \<and> hd values = show_int year then tl values else values)"

fun contains_token_sequence :: "string list \<Rightarrow> string list \<Rightarrow> bool" where
  "contains_token_sequence [] marker \<longleftrightarrow> marker = []"
| "contains_token_sequence (v # vs) marker \<longleftrightarrow>
     prefix marker (v # vs) \<or> contains_token_sequence vs marker"

definition stem :: "string \<Rightarrow> string" where
  "stem path = trim_suffix (base path) (ext path)"

definition is_video :: "string \<Rightarrow> bool" where
  "is_video e \<longleftrightarrow> e \<in> set [''.mkv'', ''.mp4'', ''.avi'', ''.mov'', ''.m4v'', ''.ts'', ''.webm'']"

definition is_subtitle :: "string \<Rightarrow> bool" where
  "is_subtitle e \<longleftrightarrow> e \<in> set [''.srt'', ''.ass'', ''.ssa'', ''.vtt'', ''.sub'', ''.sup'']"

definition is_audio :: "string \<Rightarrow> bool" where
  "is_audio e \<longleftrightarrow> e = ''.mka''"

definition blacklisted :: "globber \<Rightarrow> string list \<Rightarrow> string \<Rightarrow> string option" where
  "blacklisted glob patterns relative =
     find (\<lambda>p. list_ex (\<lambda>v. glob (to_lower p) (to_lower v) = Some True) [base relative, relative]) patterns"

definition extra_overrides :: "(string, extra_kind) gomap" where
  "extra_overrides =
     [(''extra'', OtherExtra), (''trailer'', Trailer), (''interview'', Interview),
      (''featurette'', Featurette), (''deleted_scene'', DeletedScene),
      (''behind_the_scenes'', BehindScenes)]"

definition extra_folders :: "(string, extra_kind) gomap" where
  "extra_folders =
     [(''trailer'', Trailer), (''trailers'', Trailer), (''interview'', Interview),
      (''interviews'', Interview), (''featurette'', Featurette), (''featurettes'', Featurette),
      (''behind the scenes'', BehindScenes), (''deleted scene'', DeletedScene),
      (''deleted scenes'', DeletedScene), (''scene'', Scene), (''scenes'', Scene), (''short'', Short),
      (''shorts'', Short), (''extra'', OtherExtra), (''extras'', OtherExtra), (''sp'', OtherExtra),
      (''sps'', OtherExtra), (''special'', OtherExtra), (''specials'', OtherExtra)]"

definition extra_markers :: "(string list \<times> extra_kind) list" where
  "extra_markers =
     [([''trailer''], Trailer), ([''interview''], Interview), ([''deleted'', ''scene''], DeletedScene),
      ([''behind'', ''the'', ''scenes''], BehindScenes), ([''featurette''], Featurette),
      ([''making'', ''of''], Featurette)]"

fun first_some :: "('a \<Rightarrow> 'b option) \<Rightarrow> 'a list \<Rightarrow> 'b option" where
  "first_some f [] = None"
| "first_some f (x # xs) = (case f x of Some y \<Rightarrow> Some y | None \<Rightarrow> first_some f xs)"

definition detect_extra :: "(nat \<Rightarrow> bool) \<Rightarrow> string \<Rightarrow> string \<Rightarrow> int \<Rightarrow> extra_kind option" where
  "detect_extra letter path title year =
     (case first_some (\<lambda>part. get extra_folders (join_with '' '' (tokens letter part)))
             (butlast (split_on CHR ''/'' path)) of
        Some k \<Rightarrow> Some k
      | None \<Rightarrow>
          let remaining = strip_identity_prefix (tokens letter (stem path)) (tokens letter title) year
          in map_option snd (find (\<lambda>(words, _). contains_token_sequence remaining words) extra_markers))"

text \<open>The labels of a version; \<open>i++\<close> inside the loop skips a word.\<close>

definition skip_word :: "string \<Rightarrow> string list \<Rightarrow> string list" where
  "skip_word w ws = (if ws \<noteq> [] \<and> hd ws = w then tl ws else ws)"

lemma length_skip_word [simp]: "length (skip_word w ws) \<le> length ws"
  by (simp add: skip_word_def)

definition single_labels :: "(string, string) gomap" where
  "single_labels =
     [(''480p'', ''480p''), (''720p'', ''720p''), (''1080p'', ''1080p''), (''2160p'', ''2160p''),
      (''4k'', ''4K''), (''theatrical'', ''Theatrical''), (''extended'', ''Extended''),
      (''unrated'', ''Unrated''), (''ultimate'', ''Ultimate''), (''remastered'', ''Remastered''),
      (''imax'', ''IMAX''), (''3d'', ''3D''), (''hsbs'', ''HSBS''), (''hou'', ''HOU''), (''mvc'', ''MVC'')]"

function label_loop :: "string list \<Rightarrow> string list \<Rightarrow> string list" where
  "label_loop labels [] = labels"
| "label_loop labels (w # ws) =
     (case get single_labels w of
        Some l \<Rightarrow> label_loop (append_unique labels l) ws
      | None \<Rightarrow>
          if w = ''director'' \<or> w = ''directors'' then
            (let rest = skip_word ''s'' ws
             in if rest \<noteq> [] \<and> hd rest = ''cut'' then label_loop (append_unique labels ''Directors Cut'') (tl rest)
                else label_loop labels rest)
          else if w = ''special'' \<and> ws \<noteq> [] \<and> hd ws = ''edition''
            then label_loop (append_unique labels ''Special Edition'') (tl ws)
          else label_loop labels ws)"
  by pat_completeness auto
termination
  by (relation "measure (\<lambda>(_, ws). length ws)") (auto simp: skip_word_def)

definition version_label :: "(nat \<Rightarrow> bool) \<Rightarrow> string \<Rightarrow> string" where
  "version_label letter path = join_with '' '' (label_loop [] (tokens letter (stem path)))"

text \<open>\<open>(?i)(\.(?:[a-z]{2,3}(?:-[a-z]{2})?|forced|default|sdh|cc))+$\<close>\<close>

definition lower_re :: re where
  "lower_re = Cls (\<lambda>c. CHR ''a'' \<le> lower_char c \<and> lower_char c \<le> CHR ''z'')"

definition suffix_re :: re where
  "suffix_re =
     Seq (plus_re (Seq (chr CHR ''.'')
       (alts [seqs [lower_re, lower_re, opt lower_re, opt (seqs [chr CHR ''-'', lower_re, lower_re])],
              word_ci ''forced'', word_ci ''default'', word_ci ''sdh'', word_ci ''cc''])))
       Eos"

definition strip_language :: "string \<Rightarrow> string" where
  "strip_language s = (case find_match suffix_re s of None \<Rightarrow> s | Some (i, _, _) \<Rightarrow> take i s)"

definition comparable_stem :: "string \<Rightarrow> string" where
  "comparable_stem path =
     trim_set '' ''
       (from_runes (map (\<lambda>r. if r \<in> {46, 95, 45, 32} then 32 else r)
         (runes (strip_language (to_lower (stem path))))))"

definition indexes_where :: "('a \<Rightarrow> bool) \<Rightarrow> 'a list \<Rightarrow> nat list" where
  "indexes_where P xs = filter (\<lambda>i. P (xs ! i)) [0 ..< length xs]"

definition associated :: "Asset \<Rightarrow> Version list \<Rightarrow> nat list" where
  "associated a versions =
     (let s = comparable_stem (aRelative a);
          video = \<lambda>v. comparable_stem (aRelative (vVideo v));
          exact = indexes_where (\<lambda>v. s = video v) versions
      in if exact \<noteq> [] then exact
         else indexes_where (\<lambda>v. prefix (video v @ '' '') s \<or> prefix (s @ '' '') (video v)) versions)"

definition sidecar_suffix :: "Version \<Rightarrow> Asset \<Rightarrow> string" where
  "sidecar_suffix v a =
     (let side = trim_suffix (base (aRelative a)) (ext (aRelative a));
          video = trim_suffix (base (aRelative (vVideo v))) (ext (aRelative (vVideo v)));
          suffix = drop (length video) side
      in if length side \<ge> length video \<and> equal_fold (take (length video) side) video \<and>
            (suffix = [] \<or> hd suffix \<in> set ''._- '') then suffix else [])"

section \<open>Classification of files\<close>

record sorted_files =
  sfBundle :: MovieBundle
  sfVideos :: "Asset list"
  sfSidecars :: "Asset list"

definition override_of :: "(string, string) gomap \<Rightarrow> (string, string) gomap" where
  "override_of overrides = fold (\<lambda>(path, kind). put (clean path) kind) overrides []"

definition exclude_asset :: "asset_detail \<Rightarrow> Asset \<Rightarrow> sorted_files \<Rightarrow> sorted_files" where
  "exclude_asset d a s =
     s\<lparr> sfBundle := (sfBundle s)\<lparr> bExcluded := bExcluded (sfBundle s) @ [a\<lparr> aKind := AExcluded, aDetail := d \<rparr>] \<rparr> \<rparr>"

definition add_extra :: "extra_kind \<Rightarrow> Asset \<Rightarrow> sorted_files \<Rightarrow> sorted_files" where
  "add_extra k a s =
     s\<lparr> sfBundle := (sfBundle s)\<lparr> bExtras := bExtras (sfBundle s) @ [(k, a\<lparr> aKind := AExtra \<rparr>)] \<rparr> \<rparr>"

definition recognized :: "sorted_files \<Rightarrow> sorted_files" where
  "recognized s = s\<lparr> sfBundle := (sfBundle s)\<lparr> bRecognized := True \<rparr> \<rparr>"

definition classify_asset ::
    "(nat \<Rightarrow> bool) \<Rightarrow> globber \<Rightarrow> Options \<Rightarrow> (string, string) gomap \<Rightarrow> Asset \<Rightarrow> sorted_files \<Rightarrow> sorted_files" where
  "classify_asset letter glob opts overrides a s =
     (case blacklisted glob (oBlacklist opts) (aRelative a) of
        Some p \<Rightarrow> exclude_asset (MatchedPattern p) a s
      | None \<Rightarrow>
          let o' = to_lower (trim_space (get_or [] overrides (aRelative a)));
              e = to_lower (ext (aRelative a))
          in if o' = ''exclude'' then exclude_asset ClassifiedOut a s
             else case get extra_overrides o' of
               Some k \<Rightarrow> add_extra k a s
             | None \<Rightarrow>
                 if is_video e then
                   (case (if o' = ''version'' then None
                          else detect_extra letter (aRelative a) (oTitle opts) (oYear opts)) of
                      Some k \<Rightarrow> add_extra k a (recognized s)
                    | None \<Rightarrow> (recognized s)\<lparr> sfVideos := sfVideos s @ [a\<lparr> aKind := AVideo \<rparr>] \<rparr>)
                 else if is_subtitle e then s\<lparr> sfSidecars := sfSidecars s @ [a\<lparr> aKind := ASubtitle \<rparr>] \<rparr>
                 else if is_audio e then s\<lparr> sfSidecars := sfSidecars s @ [a\<lparr> aKind := AAudio \<rparr>] \<rparr>
                 else exclude_asset Ancillary a s)"

definition missing_warning :: "string \<Rightarrow> string" where
  "missing_warning path = ''classification override references missing asset '' @ path"

definition new_version :: "(nat \<Rightarrow> bool) \<Rightarrow> Asset \<Rightarrow> Version" where
  "new_version letter v =
     \<lparr> vVideo = v, vAudios = [], vSubtitles = [], vLabel = version_label letter (aRelative v) \<rparr>"

definition attach_sidecar :: "Asset \<Rightarrow> MovieBundle \<Rightarrow> MovieBundle" where
  "attach_sidecar s b =
     (let indexes = associated s (bVersions b)
      in if length indexes \<noteq> 1
         then b\<lparr> bUnknown := bUnknown b @ [s\<lparr> aKind := AUnknown, aDetail := Unassociated \<rparr>] \<rparr>
         else (let i = hd indexes; v = bVersions b ! i
               in b\<lparr> bVersions := (bVersions b)[i :=
                     (if aKind s = AAudio then v\<lparr> vAudios := vAudios v @ [s] \<rparr>
                      else v\<lparr> vSubtitles := vSubtitles v @ [s] \<rparr>)] \<rparr>))"

definition unmarked :: "Version list \<Rightarrow> Version list" where
  "unmarked vs = filter (\<lambda>v. vLabel v = []) vs"

definition mark_unknown :: "Version \<Rightarrow> Version" where
  "mark_unknown v =
     (if vLabel v = [] then v\<lparr> vVideo := (vVideo v)\<lparr> aKind := AUnknown, aDetail := NoMarker (aRelative (vVideo v)) \<rparr> \<rparr>
      else v)"

definition check_versions :: "MovieBundle \<Rightarrow> MovieBundle" where
  "check_versions b =
     (if length (bVersions b) > 1 then
        (let b' = (if length (unmarked (bVersions b)) > 1
                   then b\<lparr> bVersions := map mark_unknown (bVersions b),
                           bUnknown := bUnknown b @ map vVideo (unmarked (map mark_unknown (bVersions b))) \<rparr>
                   else b)
         in if bUnknown b' \<noteq> [] then b'\<lparr> bConflict := UnknownSecondary \<rparr> else b')
      else b)"

definition finish_files :: "MovieBundle \<Rightarrow> MovieBundle" where
  "finish_files b =
     (if bVersions b = [] then conflict b NoMainVersion
      else let b' = check_versions b
           in if bUnknown b' \<noteq> [] \<and> bConflict b' = NoConflict then b'\<lparr> bConflict := UnknownAssets \<rparr> else b')"

definition classify_files ::
    "(nat \<Rightarrow> bool) \<Rightarrow> globber \<Rightarrow> MovieBundle \<Rightarrow> Asset list \<Rightarrow> Options \<Rightarrow> MovieBundle" where
  "classify_files letter glob b assets opts =
     (let overrides = override_of (oOverrides opts);
          s = fold (classify_asset letter glob opts overrides) assets
                \<lparr> sfBundle = b, sfVideos = [], sfSidecars = [] \<rparr>;
          missing = filter (\<lambda>path. path \<notin> set (map aRelative assets)) (keys overrides);
          b1 = (sfBundle s)\<lparr> bWarnings := bWarnings (sfBundle s) @ map missing_warning missing,
                 bVersions := bVersions (sfBundle s) @ map (new_version letter) (sfVideos s) \<rparr>
      in finish_files (fold attach_sidecar (sfSidecars s) b1))"

section \<open>Analysis of a source\<close>

record movie_scan =
  msRoots :: "(bundle_kind \<times> string) list"
  msIso :: "Asset list"
  msOrdinary :: "Asset list"

fun disc_root :: "string list \<Rightarrow> string list \<Rightarrow> (bundle_kind \<times> string) option" where
  "disc_root outer [] = None"
| "disc_root outer (p # ps) =
     (if equal_fold p ''BDMV'' then Some (KBluRay, join_with ''/'' (outer @ [p]))
      else if equal_fold p ''VIDEO_TS'' then Some (KDVD, join_with ''/'' (outer @ [p]))
      else disc_root (outer @ [p]) ps)"

definition scan_asset :: "string \<Rightarrow> string \<Rightarrow> movie_scan \<Rightarrow> string + movie_scan" where
  "scan_asset root path s =
     (case rel root path of
        None \<Rightarrow> Inl path
      | Some r \<Rightarrow>
          if escapes_up r then Inl path
          else
            let roots = (case disc_root [] (butlast (split_on CHR ''/'' r)) of
                   None \<Rightarrow> msRoots s | Some d \<Rightarrow> append_unique (msRoots s) d);
                a = \<lparr> aPath = path, aRelative = r, aKind = ANone, aDetail = NoDetail \<rparr>
            in if equal_fold (ext path) ''.iso''
               then Inr (s\<lparr> msRoots := roots, msIso := msIso s @ [a\<lparr> aKind := AOpaque \<rparr>] \<rparr>)
               else Inr (s\<lparr> msRoots := roots, msOrdinary := msOrdinary s @ [a] \<rparr>))"

fun scan_assets :: "string \<Rightarrow> string list \<Rightarrow> movie_scan \<Rightarrow> string + movie_scan" where
  "scan_assets root [] s = Inr s"
| "scan_assets root (p # ps) s =
     (case scan_asset root p s of Inl e \<Rightarrow> Inl e | Inr s' \<Rightarrow> scan_assets root ps s')"

definition declaration_file :: string where
  "declaration_file = ''.aninode.json''"

definition filter_declaration :: "Asset list \<Rightarrow> Asset list" where
  "filter_declaration as = filter (\<lambda>a. base (aRelative a) \<noteq> declaration_file) as"

definition empty_bundle :: "Options \<Rightarrow> MovieBundle" where
  "empty_bundle opts =
     \<lparr> bRecognized = False, bKind = KFiles, bTitle = trim_space (oTitle opts), bYear = oYear opts,
       bVersions = [], bExtras = [], bOpaque = None, bExcluded = [], bUnknown = [], bWarnings = [],
       bConflict = NoConflict \<rparr>"

definition disc_bundle :: "MovieBundle \<Rightarrow> bundle_kind \<times> string \<Rightarrow> Asset list \<Rightarrow> MovieBundle" where
  "disc_bundle b d ordinary =
     (let inside = \<lambda>a. prefix (snd d @ ''/'') (aRelative a);
          assets = map (\<lambda>a. a\<lparr> aKind := AOpaque \<rparr>) (filter inside ordinary)
      in if list_ex (\<lambda>a. \<not> inside a \<and> base (aRelative a) \<noteq> declaration_file) ordinary
         then conflict b DiscAndFiles
         else let b' = b\<lparr> bKind := fst d, bOpaque := Some (snd d, assets) \<rparr>
              in if assets = [] then conflict b' EmptyDisc else b')"

definition analyze_paths ::
    "(nat \<Rightarrow> bool) \<Rightarrow> globber \<Rightarrow> string \<Rightarrow> string list \<Rightarrow> Options \<Rightarrow> string + MovieBundle" where
  "analyze_paths letter glob root paths opts =
     (case scan_assets root (sort paths) \<lparr> msRoots = [], msIso = [], msOrdinary = [] \<rparr> of
        Inl e \<Rightarrow> Inl e
      | Inr s \<Rightarrow>
          let b = empty_bundle opts; found = b\<lparr> bRecognized := True \<rparr>;
              ordinary = filter_declaration (msOrdinary s)
          in if msRoots s \<noteq> [] then
               (if length (msRoots s) \<noteq> 1 \<or> msIso s \<noteq> [] then Inr (conflict found MixedDiscs)
                else Inr (disc_bundle found (hd (msRoots s)) (msOrdinary s)))
             else if msIso s \<noteq> [] then
               (if length (msIso s) \<noteq> 1 \<or> ordinary \<noteq> [] then Inr (conflict found IsoAndFiles)
                else Inr (found\<lparr> bKind := KISO, bOpaque := Some ([], msIso s) \<rparr>))
             else Inr (classify_files letter glob b ordinary opts))"

section \<open>Names of published files\<close>

definition extra_directory :: "extra_kind \<Rightarrow> string" where
  "extra_directory k =
     (case k of Trailer \<Rightarrow> ''trailers'' | Interview \<Rightarrow> ''interviews'' | Featurette \<Rightarrow> ''featurettes''
      | BehindScenes \<Rightarrow> ''behind the scenes'' | DeletedScene \<Rightarrow> ''deleted scenes'' | Scene \<Rightarrow> ''scenes''
      | Short \<Rightarrow> ''shorts'' | OtherExtra \<Rightarrow> ''extras'')"

definition movie_base :: "string \<Rightarrow> int \<Rightarrow> string" where
  "movie_base title year = trim_space title @ (if year > 0 then '' ('' @ pad0 4 year @ '')'' else [])"

definition iso_target_name :: "string \<Rightarrow> int \<Rightarrow> Asset \<Rightarrow> string" where
  "iso_target_name title year a =
     (let lower = to_lower (base (aRelative a))
      in movie_base title year @
         (if suffix ''.bluray.iso'' lower then ''.bluray.iso''
          else if suffix ''.dvd.iso'' lower then ''.dvd.iso'' else ''.iso''))"

definition extra_target_name :: "extra_kind \<times> Asset \<Rightarrow> string" where
  "extra_target_name x = join_path [extra_directory (fst x), base (aRelative (snd x))]"

definition target_name :: "string \<Rightarrow> int \<Rightarrow> Version \<Rightarrow> Asset \<Rightarrow> string" where
  "target_name title year v a =
     movie_base title year @ (if vLabel v \<noteq> [] then '' - '' @ vLabel v else []) @
     (if aKind a = ASubtitle \<or> aKind a = AAudio then sidecar_suffix v a else []) @ ext (aRelative a)"

section \<open>Every file is accounted for\<close>

definition version_files :: "Version \<Rightarrow> Asset list" where
  "version_files v = vVideo v # vAudios v @ vSubtitles v"

definition bundle_files :: "MovieBundle \<Rightarrow> string multiset" where
  "bundle_files b =
     mset (map aRelative (bExcluded b)) + mset (map (aRelative \<circ> snd) (bExtras b)) +
     mset (map aRelative (concat (map version_files (bVersions b)))) +
     mset (map aRelative (filter (\<lambda>a. aDetail a = Unassociated) (bUnknown b)))"

definition held_files :: "sorted_files \<Rightarrow> string multiset" where
  "held_files s = bundle_files (sfBundle s) + mset (map aRelative (sfVideos s)) +
     mset (map aRelative (sfSidecars s))"

lemma held_files_ops [simp]:
  "held_files (exclude_asset d a s) = add_mset (aRelative a) (held_files s)"
  "held_files (add_extra k a s) = add_mset (aRelative a) (held_files s)"
  "held_files (recognized s) = held_files s"
  by (simp_all add: held_files_def bundle_files_def exclude_asset_def add_extra_def recognized_def)

lemma held_files_classify:
  "held_files (classify_asset letter glob opts overrides a s) = add_mset (aRelative a) (held_files s)"
proof -
  have "held_files (s\<lparr> sfVideos := sfVideos s @ [a'] \<rparr>) = add_mset (aRelative a') (held_files s)"
    "held_files (s\<lparr> sfSidecars := sfSidecars s @ [a'] \<rparr>) = add_mset (aRelative a') (held_files s)"
    "held_files ((recognized s)\<lparr> sfVideos := sfVideos s @ [a'] \<rparr>) = add_mset (aRelative a') (held_files s)" for a' s
    by (simp_all add: held_files_def recognized_def bundle_files_def)
  then show ?thesis
    by (simp add: classify_asset_def Let_def del: get_or_def split: option.split)
qed

lemma held_files_fold:
  "held_files (fold (classify_asset letter glob opts overrides) assets s) =
     mset (map aRelative assets) + held_files s"
  by (induction assets arbitrary: s) (simp_all add: held_files_classify)

lemma files_of_update:
  assumes "i < length vs" "mset (map aRelative (version_files v)) = add_mset r (mset (map aRelative (version_files (vs ! i))))"
  shows "mset (map aRelative (concat (map version_files (vs[i := v])))) =
    add_mset r (mset (map aRelative (concat (map version_files vs))))"
proof -
  have "vs = take i vs @ vs ! i # drop (Suc i) vs" using assms(1) by (rule id_take_nth_drop)
  then have "mset (map aRelative (concat (map version_files vs))) =
      mset (map aRelative (concat (map version_files (take i vs @ vs ! i # drop (Suc i) vs))))" by (rule arg_cong)
  then show ?thesis using assms by (simp add: upd_conv_take_nth_drop ac_simps)
qed

lemma associated_bounds: "i \<in> set (associated a vs) \<Longrightarrow> i < length vs"
  by (auto simp: associated_def indexes_where_def Let_def split: if_splits)

lemma bundle_files_attach:
  "bundle_files (attach_sidecar s b) = add_mset (aRelative s) (bundle_files b)"
proof (cases "length (associated s (bVersions b)) = 1")
  case True
  then obtain i where i: "associated s (bVersions b) = [i]" by (auto simp: length_Suc_conv)
  let ?v = "bVersions b ! i"
  let ?v' = "if aKind s = AAudio then ?v\<lparr> vAudios := vAudios ?v @ [s] \<rparr> else ?v\<lparr> vSubtitles := vSubtitles ?v @ [s] \<rparr>"
  have "i < length (bVersions b)" using i associated_bounds [of i s "bVersions b"] by simp
  moreover have "mset (map aRelative (version_files ?v')) = add_mset (aRelative s) (mset (map aRelative (version_files ?v)))"
    by (simp add: version_files_def)
  ultimately have "mset (map aRelative (concat (map version_files ((bVersions b)[i := ?v'])))) =
      add_mset (aRelative s) (mset (map aRelative (concat (map version_files (bVersions b)))))"
    by (rule files_of_update)
  then show ?thesis
    by (cases "aKind s = AAudio") (simp_all add: attach_sidecar_def Let_def i bundle_files_def)
qed (simp add: attach_sidecar_def Let_def bundle_files_def)

lemma bundle_files_attach_fold:
  "bundle_files (fold attach_sidecar ss b) = mset (map aRelative ss) + bundle_files b"
  by (induction ss arbitrary: b) (simp_all add: bundle_files_attach)

lemma mark_unknown_files [simp]:
  "map aRelative (version_files (mark_unknown v)) = map aRelative (version_files v)"
  by (simp add: mark_unknown_def version_files_def)

lemma bundle_files_finish: "bundle_files (finish_files b) = bundle_files b"
proof -
  have same: "image_mset aRelative (mset (concat (map (version_files \<circ> mark_unknown) vs))) =
      image_mset aRelative (mset (concat (map version_files vs)))" for vs
    by (induction vs) (simp_all flip: mset_map del: mset_map)
  have none: "{#x \<in># image_mset vVideo (mset (unmarked (map mark_unknown vs))). aDetail x = Unassociated#} = {#}" for vs
    by (auto simp: unmarked_def mark_unknown_def split: if_splits)
  have "bundle_files (check_versions b) = bundle_files b"
    using same [of "bVersions b"] none [of "bVersions b"]
    by (simp add: check_versions_def Let_def bundle_files_def)
  then show ?thesis by (simp add: finish_files_def conflict_def Let_def) (simp add: bundle_files_def)
qed

text \<open>C13. Classifying the files of a movie loses none and counts none twice: every file is excluded,
  an extra, the video or a sidecar of one version, or reported as a sidecar of no single version.\<close>

theorem classify_accounts:
  "bundle_files (classify_files letter glob (empty_bundle opts) assets opts) = mset (map aRelative assets)"
proof -
  define s where "s = fold (classify_asset letter glob opts (override_of (oOverrides opts))) assets
      \<lparr> sfBundle = empty_bundle opts, sfVideos = [], sfSidecars = [] \<rparr>"
  have held: "held_files s = mset (map aRelative assets)"
    unfolding s_def held_files_fold by (simp add: held_files_def bundle_files_def empty_bundle_def)
  have "map aRelative (concat (map (version_files \<circ> new_version letter) vs)) = map aRelative vs" for vs
    by (induction vs) (simp_all add: version_files_def new_version_def)
  then have "bundle_files (classify_files letter glob (empty_bundle opts) assets opts) = held_files s"
    by (simp add: classify_files_def Let_def s_def [symmetric] bundle_files_finish bundle_files_attach_fold)
      (simp add: held_files_def bundle_files_def ac_simps)
  with held show ?thesis by simp
qed

section \<open>Sidecars and versions\<close>

lemma associated_cong:
  assumes "map (aRelative \<circ> vVideo) vs = map (aRelative \<circ> vVideo) ws"
  shows "associated a vs = associated a ws"
proof -
  have len: "length vs = length ws" using assms by (metis length_map)
  have rel: "aRelative (vVideo (vs ! i)) = aRelative (vVideo (ws ! i))" if "i < length ws" for i
    using arg_cong [OF assms, of "\<lambda>xs. xs ! i"] that len by simp
  have "indexes_where (\<lambda>v. P (aRelative (vVideo v))) vs = indexes_where (\<lambda>v. P (aRelative (vVideo v))) ws" for P
    by (auto simp: indexes_where_def len rel intro!: filter_cong)
  from this [of "\<lambda>r. comparable_stem (aRelative a) = comparable_stem r"]
    this [of "\<lambda>r. prefix (comparable_stem r @ '' '') (comparable_stem (aRelative a)) \<or>
        prefix (comparable_stem (aRelative a) @ '' '') (comparable_stem r)"]
  show ?thesis by (simp add: associated_def Let_def)
qed

definition sidecars_of :: "Version \<Rightarrow> Asset list" where
  "sidecars_of v = vAudios v @ vSubtitles v"

definition own_sidecars :: "Version list \<Rightarrow> bool" where
  "own_sidecars vs \<longleftrightarrow> list_all (\<lambda>i. list_all (\<lambda>a. associated a vs = [i]) (sidecars_of (vs ! i))) [0 ..< length vs]"

lemma own_sidecars_attach:
  assumes "own_sidecars (bVersions b)"
  shows "own_sidecars (bVersions (attach_sidecar s b))"
proof (cases "length (associated s (bVersions b)) = 1")
  case True
  then obtain i where i: "associated s (bVersions b) = [i]" by (auto simp: length_Suc_conv)
  let ?v = "bVersions b ! i"
  let ?v' = "if aKind s = AAudio then ?v\<lparr> vAudios := vAudios ?v @ [s] \<rparr> else ?v\<lparr> vSubtitles := vSubtitles ?v @ [s] \<rparr>"
  let ?ws = "(bVersions b)[i := ?v']"
  have ilt: "i < length (bVersions b)" using i associated_bounds [of i s "bVersions b"] by simp
  have "map (aRelative \<circ> vVideo) ?ws = map (aRelative \<circ> vVideo) (bVersions b)"
    using ilt by (auto simp: map_update intro!: nth_equalityI simp: nth_list_update)
  then have same: "associated a ?ws = associated a (bVersions b)" for a by (rule associated_cong)
  have "set (sidecars_of (?ws ! j)) \<subseteq> set (sidecars_of (bVersions b ! j)) \<union> (if j = i then {s} else {})"
    if "j < length (bVersions b)" for j
    using that by (auto simp: nth_list_update sidecars_of_def)
  note sub = this
  have "associated a ?ws = [j]" if "j < length (bVersions b)" "a \<in> set (sidecars_of (?ws ! j))" for a j
  proof (cases "a \<in> set (sidecars_of (bVersions b ! j))")
    case True
    then have "associated a (bVersions b) = [j]"
      using assms that(1) by (simp add: own_sidecars_def list_all_iff)
    then show ?thesis unfolding same .
  next
    case False
    then have "j = i" "a = s" using that(2) sub [OF that(1)]
      by (auto split: if_splits)
    then show ?thesis unfolding same using i by simp
  qed
  then have "own_sidecars ?ws" by (simp add: own_sidecars_def list_all_iff)
  then show ?thesis by (cases "aKind s = AAudio") (simp_all add: attach_sidecar_def Let_def i)
qed (use assms in \<open>simp add: attach_sidecar_def Let_def\<close>)

lemma own_sidecars_finish:
  assumes "own_sidecars (bVersions b)"
  shows "own_sidecars (bVersions (finish_files b))"
proof -
  have "map (aRelative \<circ> vVideo) (map mark_unknown vs) = map (aRelative \<circ> vVideo) vs" for vs
    by (simp add: mark_unknown_def)
  from associated_cong [OF this] have "associated a (map mark_unknown vs) = associated a vs" for a vs .
  moreover have "sidecars_of (mark_unknown v) = sidecars_of v" for v
    by (simp add: sidecars_of_def mark_unknown_def)
  ultimately have "own_sidecars (map mark_unknown vs) = own_sidecars vs" for vs
    by (simp add: own_sidecars_def list_all_iff)
  moreover have "own_sidecars []" by (simp add: own_sidecars_def)
  ultimately show ?thesis using assms by (simp add: finish_files_def check_versions_def conflict_def Let_def)
qed

lemma own_sidecars_classify:
  "own_sidecars (bVersions (classify_files letter glob (empty_bundle opts) assets opts))"
proof -
  have ex: "bVersions (sfBundle (classify_asset letter glob opts ov a s)) = bVersions (sfBundle s)" for ov a s
    by (simp add: classify_asset_def exclude_asset_def add_extra_def recognized_def Let_def split: option.split)
  have none: "bVersions (sfBundle (fold (classify_asset letter glob opts ov) as s)) = bVersions (sfBundle s)" for ov as s
    by (induction as arbitrary: s) (simp_all add: ex)
  have at: "own_sidecars (bVersions (fold attach_sidecar ss b))" if "own_sidecars (bVersions b)" for ss b
    using that by (induction ss arbitrary: b) (simp_all add: own_sidecars_attach)
  have new: "own_sidecars (map (new_version letter) vs)" for vs
    by (simp add: own_sidecars_def list_all_iff sidecars_of_def new_version_def)
  show ?thesis
    unfolding classify_files_def Let_def
    by (rule own_sidecars_finish, rule at) (simp add: none empty_bundle_def new)
qed

text \<open>A bundle of files without a conflict has a version, and at most one without a label unless it
  is the only one.\<close>

lemma finish_files_clean:
  assumes "bundle_error (finish_files b) = None" "bKind b = KFiles" "bConflict b = NoConflict"
  shows "bVersions (finish_files b) \<noteq> [] \<and> bUnknown (finish_files b) = [] \<and>
    (length (bVersions (finish_files b)) = 1 \<or> length (unmarked (bVersions (finish_files b))) \<le> 1)"
proof -
  have 1: "bVersions b \<noteq> []" using assms by (auto simp: finish_files_def bundle_error_def conflict_def)
  have "unmarked (map mark_unknown vs) = map mark_unknown (unmarked vs)" for vs
    by (induction vs) (simp_all add: unmarked_def mark_unknown_def)
  then have um: "unmarked (map mark_unknown vs) \<noteq> []" if "unmarked vs \<noteq> []" for vs
    using that by simp
  have "length (bVersions b) = 1" if "\<not> 1 < length (bVersions b)"
    using 1 that by (cases "bVersions b") simp_all
  then show ?thesis
    using assms um [of "bVersions b"]
    by (cases "length (unmarked (bVersions b)) > 1"; cases "length (bVersions b) > 1")
      (auto simp: finish_files_def check_versions_def bundle_error_def Let_def Suc_lessI split: if_splits)
qed

text \<open>Text of a published name without a slash.\<close>

abbreviation no_slash :: "string \<Rightarrow> bool" where
  "no_slash s \<equiv> CHR ''/'' \<notin> set s"

lemma no_slash_join: "no_slash sep \<Longrightarrow> list_all no_slash ws \<Longrightarrow> no_slash (join_with sep ws)"
  by (induction sep ws rule: join_with.induct) auto

lemma label_loop_no_slash: "list_all no_slash labels \<Longrightarrow> list_all no_slash (label_loop labels ws)"
proof (induction labels ws rule: label_loop.induct)
  case (2 labels w ws)
  have au: "list_all no_slash (append_unique labels l)" if "no_slash l" for l
    using that "2.prems" by (auto simp: list_all_iff)
  show ?case
  proof (cases "get single_labels w")
    case (Some l)
    then have "no_slash l" by (auto simp: single_labels_def split: if_splits)
    then have "list_all no_slash (label_loop (append_unique labels l) ws)"
      by (intro "2.IH"(5) [OF Some] au)
    with Some show ?thesis by simp
  next
    case None
    have cut: "no_slash ''Directors Cut''" "no_slash ''Special Edition''" by simp_all
    show ?thesis
      using None "2.IH"(1-4) [OF None] "2.prems" au [OF cut(1)] au [OF cut(2)]
      by (subst label_loop.simps) (simp add: Let_def)
  qed
qed simp

lemma base_name_no_slash: "base p = ''/'' \<or> no_slash (base p)"
  by (auto simp: base_def Let_def dest: set_takeWhileD)

lemma ext_no_slash: "no_slash (ext p)"
  by (auto simp: ext_def Let_def dest!: set_takeWhileD)

lemma version_label_no_slash: "no_slash (version_label letter path)"
  using label_loop_no_slash [of "[]"] by (simp add: version_label_def no_slash_join)

lemma trim_suffix_set: "set (trim_suffix s p) \<subseteq> set s"
  by (auto simp: trim_suffix_def dest: in_set_takeD)

lemma sidecar_suffix_no_slash: "base (aRelative a) \<noteq> ''/'' \<Longrightarrow> no_slash (sidecar_suffix v a)"
  using base_name_no_slash [of "aRelative a"] trim_suffix_set [of "base (aRelative a)" "ext (aRelative a)"]
  by (auto simp: sidecar_suffix_def Let_def dest: in_set_dropD)

lemma movie_base_name_no_slash: "no_slash title \<Longrightarrow> no_slash (movie_base title year)"
  using pad0_no_slash [of 4 year] trim_space_set [of title] by (auto simp: movie_base_def)



section \<open>Disc trees\<close>

text \<open>The tree of a disc is published as it is: a bundle of a disc without a conflict holds every
  file of the source but the declaration, under its own relative path.\<close>

lemma disc_bundle_files:
  assumes "bundle_error (disc_bundle b d ordinary) = None"
  shows "\<exists>assets. bOpaque (disc_bundle b d ordinary) = Some (snd d, assets) \<and> assets \<noteq> [] \<and>
    map aRelative (filter_declaration assets) = map aRelative (filter_declaration ordinary)"
proof -
  let ?in = "\<lambda>a. prefix (snd d @ ''/'') (aRelative a)"
  let ?as = "map (\<lambda>a. a\<lparr> aKind := AOpaque \<rparr>) (filter ?in ordinary)"
  have clean: "\<not> list_ex (\<lambda>a. \<not> ?in a \<and> base (aRelative a) \<noteq> declaration_file) ordinary" "?as \<noteq> []"
    using assms by (auto simp: disc_bundle_def Let_def bundle_error_def conflict_def split: if_splits)
  have "filter (\<lambda>a. base (aRelative a) \<noteq> declaration_file) (filter ?in ordinary) =
      filter (\<lambda>a. base (aRelative a) \<noteq> declaration_file) ordinary"
    using clean(1) by (auto simp: list_ex_iff intro!: filter_cong)
  moreover have "map aRelative (filter_declaration (map (\<lambda>a. a\<lparr> aKind := AOpaque \<rparr>) xs)) =
      map aRelative (filter_declaration xs)" for xs
    by (induction xs) (simp_all add: filter_declaration_def)
  ultimately have "map aRelative (filter_declaration ?as) = map aRelative (filter_declaration ordinary)"
    by (simp add: filter_declaration_def)
  then show ?thesis using clean by (auto simp: disc_bundle_def Let_def)
qed

end
