(* ===== verification/Organizer.thy ===== *)
theory Organizer
  imports Bundle MediaBatch Placement
begin

text \<open>
  Package \<open>organizer\<close> (organizer.go, emby.go and the planning half of plan.go): where each observed
  file of an Entry is published. \<open>Host\<close> collects what the plan asks of the outside: the working
  directory, \<open>Lstat\<close>, glob matching, the Unicode letters, the iteration order of the cohort map
  and whether the context is cancelled before the n-th file. Details of items and errors are
  constructors.
\<close>

section \<open>Configuration\<close>

record SpecialMapping =
  smSource :: string
  smSeason :: int
  smEpisode :: int

record TargetProjection =
  tpSeason :: int
  tpOffset :: int

record EmbyLayout =
  elLibraryRoot :: string
  elTitle :: string
  elYear :: int
  elSeason :: int
  elSpecials :: "SpecialMapping list"
  elProjection :: "TargetProjection option"

record emby_config =
  emTitle :: string
  emSeason :: int
  emSpecials :: "(string, SpecialMapping) gomap"
  emProjection :: "TargetProjection option"

record movie_config =
  mvTitle :: string
  mvYear :: int
  mvOverrides :: "(string, string) gomap"

record OrgConfig =
  ocSource :: string
  ocTarget :: string
  ocExtensions :: "string list"
  ocEmby :: "emby_config option"
  ocMovie :: "movie_config option"
  ocManaged :: bool
  ocPublicationRoot :: string
  ocBlacklist :: "string list"

datatype org_error =
    RootsRequired | RootsOverlap | NamespaceProblem namespace_error
  | EmptyTitle | NoLibraryRoot | BadYear | BadSeason
  | SpecialNotBasename nat | SpecialRange nat | DuplicateSpecial string
  | NoLayout | UnsafePath string

definition with_entry_blacklist :: "OrgConfig \<Rightarrow> string list \<Rightarrow> OrgConfig" where
  "with_entry_blacklist cfg patterns = cfg\<lparr> ocBlacklist := patterns \<rparr>"

definition roots_overlap :: "string \<Rightarrow> string \<Rightarrow> bool" where
  "roots_overlap a b \<longleftrightarrow> a = b \<or> prefix (b @ ''/'') (a @ ''/'') \<or> prefix (a @ ''/'') (b @ ''/'')"

definition validate_config :: "string \<Rightarrow> OrgConfig \<Rightarrow> org_error option" where
  "validate_config cwd cfg =
     (if ocSource cfg = [] \<or> ocTarget cfg = [] then Some RootsRequired
      else
        let source = abs_path cwd (ocSource cfg); target = abs_path cwd (ocTarget cfg)
        in if roots_overlap source target then Some RootsOverlap
           else case common_namespace_root cwd source target of
               Inl e \<Rightarrow> Some (NamespaceProblem e) | Inr _ \<Rightarrow> None)"

definition safe_destination :: "string \<Rightarrow> string \<Rightarrow> org_error + string" where
  "safe_destination root relative =
     (let cleaned = clean relative
      in if cleaned = ''.'' \<or> is_abs cleaned \<or> escapes_up cleaned then Inl (UnsafePath relative)
         else Inr (join_path [root, cleaned]))"

section \<open>Names in the library\<close>

text \<open>\<open>\s+\<close> to one space; the class is ASCII.\<close>

definition is_ascii_space :: "char \<Rightarrow> bool" where
  "is_ascii_space c \<longleftrightarrow> (of_char c :: nat) \<in> {9, 10, 12, 13, 32}"

fun collapse_spaces :: "string \<Rightarrow> string" where
  "collapse_spaces [] = []"
| "collapse_spaces [c] = [if is_ascii_space c then CHR '' '' else c]"
| "collapse_spaces (c # d # s) =
     (if is_ascii_space c \<and> is_ascii_space d then collapse_spaces (d # s)
      else (if is_ascii_space c then CHR '' '' else c) # collapse_spaces (d # s))"

definition is_control :: "nat \<Rightarrow> bool" where
  "is_control r \<longleftrightarrow> r < 32 \<or> 127 \<le> r \<and> r < 160"

definition forbidden_runes :: "nat list" where
  "forbidden_runes = [60, 62, 58, 34, 47, 92, 124, 63, 42]"

definition safe_media_name :: "string \<Rightarrow> string" where
  "safe_media_name value =
     trim_set '' .'' (collapse_spaces (from_runes
       (map (\<lambda>r. if is_control r \<or> r \<in> set forbidden_runes then 32 else r) (runes (trim_space value)))))"

definition with_movie_layout :: "OrgConfig \<Rightarrow> string \<Rightarrow> int \<Rightarrow> (string, string) gomap \<Rightarrow> org_error + OrgConfig" where
  "with_movie_layout cfg title0 year overrides =
     (let title = safe_media_name title0
      in if title = [] then Inl EmptyTitle
         else Inr (cfg\<lparr> ocMovie := Some \<lparr> mvTitle = title, mvYear = year, mvOverrides = overrides \<rparr> \<rparr>))"

fun add_specials ::
    "nat \<Rightarrow> SpecialMapping list \<Rightarrow> (string, SpecialMapping) gomap \<Rightarrow> org_error + (string, SpecialMapping) gomap" where
  "add_specials i [] m = Inr m"
| "add_specials i (s # ss) m =
     (let source = trim_space (smSource s); key = to_lower source
      in if source = [] \<or> base source \<noteq> source then Inl (SpecialNotBasename i)
         else if smSeason s < 0 \<or> smSeason s > 99 \<or> smEpisode s \<le> 0 then Inl (SpecialRange i)
         else if get m key \<noteq> None then Inl (DuplicateSpecial source)
         else add_specials (Suc i) ss (put key (s\<lparr> smSource := source \<rparr>) m))"

definition with_emby_layout :: "OrgConfig \<Rightarrow> EmbyLayout \<Rightarrow> org_error + OrgConfig" where
  "with_emby_layout cfg layout =
     (let title = safe_media_name (elTitle layout)
      in if title = [] then Inl EmptyTitle
         else if elLibraryRoot layout = [] then Inl NoLibraryRoot
         else if elYear layout < 0 \<or> elYear layout > 9999 then Inl BadYear
         else if elSeason layout < 0 \<or> elSeason layout > 99 then Inl BadSeason
         else
           let series = title @ (if elYear layout \<noteq> 0 then '' ('' @ pad0 4 (elYear layout) @ '')'' else [])
           in case add_specials 0 (elSpecials layout) [] of
                Inl e \<Rightarrow> Inl e
              | Inr specials \<Rightarrow>
                  Inr (cfg\<lparr> ocTarget := join_path [elLibraryRoot layout, series],
                            ocEmby := Some \<lparr> emTitle = title, emSeason = elSeason layout,
                              emSpecials = specials, emProjection = elProjection layout \<rparr> \<rparr>))"

datatype resolve_error =
  EpisodeNotPositive | ProjectedEpisode int | ProjectedSeason int | CrossesSeason | NotSeries

datatype resolution = NoMatch | Failed resolve_error | Resolved string

definition map_episode :: "TargetProjection option \<Rightarrow> int \<Rightarrow> int \<Rightarrow> resolve_error + int \<times> int" where
  "map_episode projection season v =
     (if v \<le> 0 then Inl EpisodeNotPositive
      else case projection of
          Some p \<Rightarrow>
            (let episode = v + tpOffset p
             in if episode \<le> 0 then Inl (ProjectedEpisode episode)
                else if tpSeason p < 0 \<or> tpSeason p > 99 then Inl (ProjectedSeason (tpSeason p))
                else Inr (tpSeason p, episode))
        | None \<Rightarrow> Inr (season, v))"

definition season_dir :: "int \<Rightarrow> string" where
  "season_dir season = ''Season '' @ pad0 2 season"

definition episode_name :: "string \<Rightarrow> int \<Rightarrow> int \<Rightarrow> int \<Rightarrow> int \<Rightarrow> string \<Rightarrow> string" where
  "episode_name title season start stop version e =
     title @ '' S'' @ pad0 2 season @ ''E'' @ pad0 2 start @
     (if stop \<noteq> 0 then ''-E'' @ pad0 2 stop else []) @
     (if version > 1 then '' - v'' @ show_int version else []) @ e"

definition map_range :: "TargetProjection option \<Rightarrow> int \<Rightarrow> int \<Rightarrow> int \<Rightarrow> resolve_error + int \<times> int \<times> int" where
  "map_range projection season start stop =
     (case map_episode projection season start of
        Inl e \<Rightarrow> Inl e
      | Inr (target_season, target_start) \<Rightarrow>
          if stop = 0 then Inr (target_season, target_start, 0)
          else case map_episode projection season stop of
              Inl e \<Rightarrow> Inl e
            | Inr (end_season, target_end) \<Rightarrow>
                if end_season \<noteq> target_season then Inl CrossesSeason
                else Inr (target_season, target_start, target_end))"

definition resolve_emby_parsed :: "string \<Rightarrow> emby_config \<Rightarrow> Parsed \<Rightarrow> resolution" where
  "resolve_emby_parsed name cfg parsed =
     (let e = ext name
      in if e = [] then NoMatch
         else case get (emSpecials cfg) (to_lower name) of
           Some sp \<Rightarrow>
             Resolved (join_path [season_dir (smSeason sp),
               emTitle cfg @ '' S'' @ pad0 2 (smSeason sp) @ ''E'' @ pad0 2 (smEpisode sp) @ e])
         | None \<Rightarrow>
             if pEpisodeStart parsed \<le> 0 then NoMatch
             else
               let hint = (if emSeason cfg \<le> 0 then 1 else emSeason cfg);
                   (resolved, ok) = episode_with_season_hint
                     \<lparr> nInput = name, nParsed = parsed, nComponents = empty_components\<lparr> cExtension := e \<rparr> \<rparr> hint
               in if \<not> ok then NoMatch
                  else
                    let start = pEpisodeStart parsed;
                        stop = (if pEpisodeEnd parsed = start then 0 else pEpisodeEnd parsed)
                    in case map_range (emProjection cfg) (pSeason resolved) start stop of
                         Inl err \<Rightarrow> Failed err
                       | Inr (season, first, last') \<Rightarrow>
                           Resolved (join_path [season_dir season,
                             episode_name (emTitle cfg) season first last' (pVersion parsed) e]))"

definition resolve_emby :: "(cohort_map \<Rightarrow> cohort_map) \<Rightarrow> string \<Rightarrow> emby_config \<Rightarrow> resolution" where
  "resolve_emby ord name cfg =
     resolve_emby_parsed name cfg (nParsed (hd (bItems (analyze_files ord [name]))))"

definition preview_destination ::
    "(cohort_map \<Rightarrow> cohort_map) \<Rightarrow> OrgConfig \<Rightarrow> string \<Rightarrow> resolution" where
  "preview_destination ord cfg name =
     (case ocEmby cfg of
        None \<Rightarrow> Failed NotSeries
      | Some em \<Rightarrow>
          (case resolve_emby ord (base name) em of
             Resolved r \<Rightarrow> Resolved (join_path [ocTarget cfg, r]) | res \<Rightarrow> res))"

section \<open>Planning\<close>

datatype action = ActionLink | ActionExisting | ActionUnmatched | ActionConflict | ActionExcluded

datatype item_detail =
    NoItemDetail | BlacklistedBy string | ResolveFailed resolve_error | NotRecognized
  | DifferentObject | SameDestination | AlsoAt string | Unsafe string | NoIdentity
  | AssetNote asset_detail | BundleNote bundle_conflict | SharedTarget string "string list"

record PlanItem =
  piSource :: string
  piObject :: "ObjectID option"
  piRelative :: string
  piParents :: "string list"
  piDestination :: string
  piNormalized :: string
  piAction :: action
  piDetail :: item_detail

record Plan =
  plItems :: "PlanItem list"
  plWarnings :: "string list"

record Planner =
  prConfig :: OrgConfig
  prExtensions :: "string list"
  prLinked :: "(ObjectID, string) gomap"
  prPlanned :: "(string, ObjectID) gomap"
  prNames :: "(string, Name) gomap"
  prSourceIDs :: "(string, ObjectID) gomap"
  prTargetIDs :: "(string, ObjectID) gomap"

datatype lstat_result = LsMissing | LsError | LsFound Metadata

record Host =
  hoCwd :: string
  hoLstat :: "string \<Rightarrow> lstat_result"
  hoGlob :: globber
  hoLetter :: "nat \<Rightarrow> bool"
  hoOrder :: "cohort_map \<Rightarrow> cohort_map"
  hoCancelled :: "nat \<Rightarrow> bool"

datatype plan_error = Cancelled | EscapesSource string | DestinationError string org_error

definition within_root :: "string \<Rightarrow> string \<Rightarrow> string \<Rightarrow> bool" where
  "within_root cwd root path \<longleftrightarrow> within (abs_path cwd root) (abs_path cwd path)"

text \<open>The components below the root, each under \<open>Lstat\<close>: no symlink, and all but the last a
  directory; below a missing one there is nothing to follow.\<close>

fun real_components :: "(string \<Rightarrow> lstat_result) \<Rightarrow> string \<Rightarrow> string list \<Rightarrow> bool" where
  "real_components ls current [] = True"
| "real_components ls current (part # parts) =
     (let next = join_path [current, part]
      in case ls next of
           LsMissing \<Rightarrow> True
         | LsError \<Rightarrow> False
         | LsFound m \<Rightarrow>
             mdKind m \<noteq> Symlink \<and> (parts \<noteq> [] \<longrightarrow> mdKind m = Directory) \<and> real_components ls next parts)"

definition real_path_within_root :: "string \<Rightarrow> (string \<Rightarrow> lstat_result) \<Rightarrow> string \<Rightarrow> string \<Rightarrow> bool" where
  "real_path_within_root cwd ls root path =
     (let root_abs = abs_path cwd root; path_abs = abs_path cwd path
      in within_root cwd root_abs path_abs \<and>
         (case ls root_abs of LsFound m \<Rightarrow> mdKind m = Directory | _ \<Rightarrow> False) \<and>
         (case rel root_abs path_abs of
            None \<Rightarrow> False
          | Some r \<Rightarrow> r = ''.'' \<or> real_components ls root_abs (split_on CHR ''/'' r)))"

definition new_planner :: "Host \<Rightarrow> OrgConfig \<Rightarrow> Snapshot \<Rightarrow> org_error + Planner" where
  "new_planner h cfg target =
     (case validate_config (hoCwd h) cfg of
        Some e \<Rightarrow> Inl e
      | None \<Rightarrow>
          if ocEmby cfg = None \<and> ocMovie cfg = None then Inl NoLayout
          else Inr \<lparr> prConfig = cfg, prExtensions = extension_set (ocExtensions cfg),
            prLinked = map (\<lambda>(oid, obj). (oid, hd (oPaths obj))) (filter (\<lambda>(_, obj). oPaths obj \<noteq> []) (snObjects target)),
            prPlanned = [], prNames = [], prSourceIDs = [],
            prTargetIDs = fold (\<lambda>(p, oid). put (clean p) oid) (snPaths target) [] \<rparr>)"

fun source_parents :: "nat \<Rightarrow> string \<Rightarrow> string list" where
  "source_parents 0 parent = []"
| "source_parents (Suc n) parent =
     (if parent = ''.'' \<or> parent = ''/'' then []
      else base parent # (if dir parent = parent then [] else source_parents n (dir parent)))"

definition prepare_names :: "string list \<Rightarrow> Name list \<Rightarrow> Planner \<Rightarrow> Planner" where
  "prepare_names paths names p = p\<lparr> prNames := fold (\<lambda>(path, n). put path n) (zip paths names) [] \<rparr>"

definition prepare :: "Host \<Rightarrow> string list \<Rightarrow> Planner \<Rightarrow> Planner" where
  "prepare h paths p =
     (if ocEmby (prConfig p) = None then p
      else prepare_names paths (bItems (analyze_files (hoOrder h) (map base paths))) p)"

definition new_item :: "OrgConfig \<Rightarrow> string \<Rightarrow> ObjectID \<Rightarrow> PlanItem" where
  "new_item cfg path oid =
     (let item = \<lparr> piSource = path, piObject = Some oid, piRelative = [], piParents = [], piDestination = [],
            piNormalized = base path, piAction = ActionUnmatched, piDetail = NoItemDetail \<rparr>
      in case rel (ocSource cfg) path of
           None \<Rightarrow> item
         | Some r \<Rightarrow> item\<lparr> piRelative := r, piParents := source_parents 4 (dir r) \<rparr>)"

text \<open>The name of the file, and failing that the number it has in the season of its folder.\<close>

definition resolve_file :: "Host \<Rightarrow> Planner \<Rightarrow> string \<Rightarrow> string \<Rightarrow> resolution" where
  "resolve_file h p path name =
     (case ocEmby (prConfig p) of
        None \<Rightarrow> Failed NotSeries
      | Some em \<Rightarrow>
          (case get (prNames p) path of
             None \<Rightarrow> resolve_emby (hoOrder h) name em
           | Some n \<Rightarrow>
               (case resolve_emby_parsed name em (nParsed n) of
                  NoMatch \<Rightarrow>
                    (case episode_with_season_hint n (emSeason em) of
                       (parsed, True) \<Rightarrow> resolve_emby_parsed (base path) em parsed
                     | _ \<Rightarrow> NoMatch)
                | res \<Rightarrow> res)))"

definition choose_action :: "ObjectID \<Rightarrow> string \<Rightarrow> Planner \<Rightarrow> action \<times> item_detail \<times> Planner" where
  "choose_action oid destination p =
     (case get (prTargetIDs p) (clean destination) of
        Some owner \<Rightarrow>
          if owner = oid then (ActionExisting, NoItemDetail, p\<lparr> prLinked := put oid destination (prLinked p) \<rparr>)
          else (ActionConflict, DifferentObject, p)
      | None \<Rightarrow>
          (case get (prPlanned p) destination of
             Some owner \<Rightarrow>
               if owner \<noteq> oid then (ActionConflict, SameDestination, p)
               else (ActionLink, (case get (prLinked p) oid of None \<Rightarrow> NoItemDetail | Some e \<Rightarrow> AlsoAt e),
                     p\<lparr> prPlanned := put destination oid (prPlanned p) \<rparr>)
           | None \<Rightarrow> (ActionLink, (case get (prLinked p) oid of None \<Rightarrow> NoItemDetail | Some e \<Rightarrow> AlsoAt e),
                     p\<lparr> prPlanned := put destination oid (prPlanned p) \<rparr>)))"

definition plan_file :: "Host \<Rightarrow> string \<Rightarrow> Metadata \<Rightarrow> Planner \<Rightarrow> plan_error + (PlanItem option \<times> Planner)" where
  "plan_file h path meta p =
     (if \<not> is_regular meta \<or> \<not> has_allowed_extension path (prExtensions p) then Inr (None, p)
      else
        let cfg = prConfig p; item = new_item cfg path (mdID meta)
        in case blacklist_match (hoGlob h) (ocBlacklist cfg) (piNormalized item) (piRelative item) of
             Some pat \<Rightarrow> Inr (Some (item\<lparr> piAction := ActionExcluded, piDetail := BlacklistedBy pat \<rparr>), p)
           | None \<Rightarrow>
               (case resolve_file h p path (piNormalized item) of
                  Failed e \<Rightarrow> Inr (Some (item\<lparr> piAction := ActionUnmatched, piDetail := ResolveFailed e \<rparr>), p)
                | NoMatch \<Rightarrow> Inr (Some (item\<lparr> piAction := ActionUnmatched, piDetail := NotRecognized \<rparr>), p)
                | Resolved r \<Rightarrow>
                    (case safe_destination (ocTarget cfg) r of
                       Inl e \<Rightarrow> Inl (DestinationError path e)
                     | Inr destination \<Rightarrow>
                         let (act, detail, p') = choose_action (mdID meta) destination p
                         in Inr (Some (item\<lparr> piDestination := destination, piAction := act, piDetail := detail \<rparr>), p'))))"

fun plan_paths ::
    "Host \<Rightarrow> nat \<Rightarrow> (string \<times> Metadata) list \<Rightarrow> Planner \<Rightarrow> PlanItem list \<times> plan_error list" where
  "plan_paths h i [] p = ([], [])"
| "plan_paths h i ((path, meta) # rest) p =
     (if hoCancelled h i then ([], [Cancelled])
      else if \<not> within_root (hoCwd h) (ocSource (prConfig p)) path \<or>
              \<not> real_path_within_root (hoCwd h) (hoLstat h) (ocSource (prConfig p)) path
        then (let (items, errs) = plan_paths h (Suc i) rest p in (items, EscapesSource path # errs))
      else case plan_file h path meta p of
          Inl e \<Rightarrow> (let (items, errs) = plan_paths h (Suc i) rest p in (items, e # errs))
        | Inr (item, p') \<Rightarrow>
            (let (items, errs) = plan_paths h (Suc i) rest p'
             in (case item of None \<Rightarrow> items | Some it \<Rightarrow> it # items, errs)))"

section \<open>Planning a film\<close>

definition object_id :: "Planner \<Rightarrow> string \<Rightarrow> ObjectID option" where
  "object_id p path = get (prSourceIDs p) (clean path)"

definition finalize_movie_item :: "PlanItem \<Rightarrow> Planner \<Rightarrow> PlanItem \<times> Planner" where
  "finalize_movie_item item p =
     (case object_id p (piSource item) of
        None \<Rightarrow> (item\<lparr> piAction := ActionConflict, piDetail := NoIdentity \<rparr>, p)
      | Some oid \<Rightarrow>
          (case get (prTargetIDs p) (clean (piDestination item)) of
             Some did \<Rightarrow>
               if did = oid then (item\<lparr> piAction := ActionExisting \<rparr>, p)
               else (item\<lparr> piAction := ActionConflict, piDetail := DifferentObject \<rparr>, p)
           | None \<Rightarrow>
               (case get (prPlanned p) (piDestination item) of
                  Some owner \<Rightarrow>
                    if owner \<noteq> oid then (item\<lparr> piAction := ActionConflict, piDetail := SameDestination \<rparr>, p)
                    else (item, p\<lparr> prPlanned := put (piDestination item) oid (prPlanned p) \<rparr>)
                | None \<Rightarrow> (item, p\<lparr> prPlanned := put (piDestination item) oid (prPlanned p) \<rparr>))))"

definition movie_item :: "Planner \<Rightarrow> Asset \<Rightarrow> action \<Rightarrow> item_detail \<Rightarrow> PlanItem" where
  "movie_item p a act detail =
     \<lparr> piSource = aPath a, piObject = object_id p (aPath a), piRelative = aRelative a, piParents = [],
       piDestination = [], piNormalized = base (aRelative a), piAction = act, piDetail = detail \<rparr>"

definition add_unplaced :: "action \<Rightarrow> Asset \<Rightarrow> PlanItem list \<times> Planner \<Rightarrow> PlanItem list \<times> Planner" where
  "add_unplaced act a s =
     (fst s @ [movie_item (snd s) a act (AssetNote (aDetail a))], snd s)"

definition add_linked :: "Asset \<times> string \<Rightarrow> PlanItem list \<times> Planner \<Rightarrow> PlanItem list \<times> Planner" where
  "add_linked ar s =
     (let (a, relative) = ar; p = snd s; item = movie_item p a ActionLink NoItemDetail
      in if relative = [] then (fst s @ [item], p)
         else case safe_destination (ocTarget (prConfig p)) relative of
             Inl e \<Rightarrow> (fst s @ [item\<lparr> piAction := ActionConflict, piDetail := Unsafe relative \<rparr>], p)
           | Inr d \<Rightarrow>
               let (item', p') = finalize_movie_item (item\<lparr> piDestination := d \<rparr>) p
               in (fst s @ [item'], p'))"

definition movie_targets :: "movie_config \<Rightarrow> MovieBundle \<Rightarrow> (Asset \<times> string) list" where
  "movie_targets mv b =
     (let opaque = (case bOpaque b of None \<Rightarrow> [] | Some (_, assets) \<Rightarrow> assets)
      in case bKind b of
           KBluRay \<Rightarrow> map (\<lambda>a. (a, aRelative a)) opaque
         | KDVD \<Rightarrow> map (\<lambda>a. (a, aRelative a)) opaque
         | KISO \<Rightarrow> [(hd opaque, iso_target_name (mvTitle mv) (mvYear mv) (hd opaque))]
         | KFiles \<Rightarrow>
             concat (map (\<lambda>v. map (\<lambda>a. (a, target_name (mvTitle mv) (mvYear mv) v a))
               (vVideo v # vSubtitles v @ vAudios v)) (bVersions b)) @
             map (\<lambda>x. (snd x, extra_target_name x)) (bExtras b)
         | KConflict \<Rightarrow> [])"

definition claims_destination :: "PlanItem \<Rightarrow> bool" where
  "claims_destination item \<longleftrightarrow> piDestination item \<noteq> [] \<and>
     (piAction item = ActionLink \<or> piAction item = ActionExisting \<or> piAction item = ActionConflict)"

definition sharing :: "PlanItem list \<Rightarrow> string \<Rightarrow> PlanItem list" where
  "sharing items destination = filter (\<lambda>it. claims_destination it \<and> piDestination it = destination) items"

definition settle_shared :: "PlanItem list \<Rightarrow> PlanItem list" where
  "settle_shared items =
     map (\<lambda>it. if claims_destination it \<and> length (sharing items (piDestination it)) \<ge> 2
               then it\<lparr> piAction := ActionConflict,
                        piDetail := SharedTarget (base (piDestination it)) (map piRelative (sharing items (piDestination it))) \<rparr>
               else it) items"

definition plan_bundle :: "movie_config \<Rightarrow> MovieBundle \<Rightarrow> Planner \<Rightarrow> Plan" where
  "plan_bundle mv b p =
     (let s = fold (add_unplaced ActionExcluded) (bExcluded b) ([], p); cfg = prConfig p
      in if bKind b = KConflict \<or> bConflict b \<noteq> NoConflict
         then \<lparr> plItems =
                  (if bUnknown b = []
                   then fst s @ [\<lparr> piSource = ocSource cfg, piObject = None, piRelative = [], piParents = [],
                          piDestination = [], piNormalized = base (ocSource cfg), piAction = ActionConflict,
                          piDetail = BundleNote (bConflict b) \<rparr>]
                   else fst (fold (add_unplaced ActionConflict) (bUnknown b) s)),
                plWarnings = bWarnings b \<rparr>
         else \<lparr> plItems = settle_shared (fst (fold add_linked (movie_targets mv b) s)), plWarnings = bWarnings b \<rparr>)"

datatype build_error =
    CancelledBuild | ConfigError org_error | ObserveMovie string | FileErrors "plan_error list"

definition plan_movie :: "Host \<Rightarrow> movie_config \<Rightarrow> string list \<Rightarrow> Planner \<Rightarrow> build_error + Plan" where
  "plan_movie h mv paths p =
     (if hoCancelled h 0 then Inl CancelledBuild
      else case analyze_paths (hoLetter h) (hoGlob h) (ocSource (prConfig p)) paths
               \<lparr> oTitle = mvTitle mv, oYear = mvYear mv, oBlacklist = ocBlacklist (prConfig p),
                 oOverrides = mvOverrides mv \<rparr> of
          Inl e \<Rightarrow> Inl (ObserveMovie e)
        | Inr b \<Rightarrow> Inr (plan_bundle mv b p))"

text \<open>The metadata of a path the objects do not know is the zero value, whose mode is that of a
  regular file; a consistent snapshot has no such path.\<close>

definition object_metadata :: "Snapshot \<Rightarrow> string \<Rightarrow> Metadata option" where
  "object_metadata s path =
     (case get (snPaths s) path of None \<Rightarrow> None | Some oid \<Rightarrow> map_option oMeta (get (snObjects s) oid))"

definition zero_metadata :: Metadata where
  "zero_metadata = \<lparr> mdID = \<lparr> oidDevice = 0, oidInode = 0 \<rparr>, mdSize = 0, mdKind = Regular, mdNLink = 0 \<rparr>"

definition build_plan_for_snapshot ::
    "Host \<Rightarrow> OrgConfig \<Rightarrow> Snapshot \<Rightarrow> Snapshot \<Rightarrow> build_error + Plan \<times> plan_error list" where
  "build_plan_for_snapshot h cfg source target =
     (case new_planner h cfg target of
        Inl e \<Rightarrow> Inl (ConfigError e)
      | Inr p0 \<Rightarrow>
          let p = p0\<lparr> prSourceIDs := snPaths source \<rparr>;
              paths = sort (filter (\<lambda>path. ocMovie cfg \<noteq> None \<or> has_allowed_extension path (prExtensions p))
                (keys (snPaths source)))
          in case ocMovie cfg of
               Some mv \<Rightarrow> map_sum id (\<lambda>plan. (plan, [])) (plan_movie h mv paths p)
             | None \<Rightarrow>
                 let metas = map (\<lambda>path. (path, case object_metadata source path of Some m \<Rightarrow> m | None \<Rightarrow> zero_metadata)) paths;
                     (items, errs) = plan_paths h 0 metas (prepare h paths p)
                 in Inr (\<lparr> plItems = items, plWarnings = [] \<rparr>, errs))"

section \<open>Destinations lie below the target\<close>

definition strictly_below :: "string \<Rightarrow> string \<Rightarrow> bool" where
  "strictly_below root path \<longleftrightarrow> is_abs path \<and> strict_prefix (comps root) (comps path)"

lemma safe_destination_comps:
  assumes "safe_destination root relative = Inr d" "is_abs root"
  obtains ns where "ns \<noteq> []" "\<forall>c \<in> set ns. proper c" "comps relative = ns"
    "is_abs d" "comps d = comps root @ ns"
proof -
  let ?c = "clean relative"
  have c: "?c \<noteq> ''.''" "\<not> is_abs relative" "\<not> escapes_up ?c" "d = join_path [root, ?c]"
    using assms(1) by (auto simp: safe_destination_def Let_def split: if_splits)
  obtain k ns where ns: "comps relative = replicate k ''..'' @ ns" "\<forall>c \<in> set ns. proper c"
    using comps_normal [of relative] by (auto simp: normal_def)
  have cl: "?c = (if comps relative = [] then ''.'' else join_with ''/'' (comps relative))"
    using c(2) by (simp add: clean_def render_def)
  have k: "k = 0"
  proof (cases k)
    case (Suc m)
    with c(3) cl ns(1) join_dotdot_escapes [of m ns] show ?thesis by simp
  qed simp
  with ns(1) have r: "comps relative = ns" by simp
  with cl c(1) have ne: "ns \<noteq> []" by auto
  have j: "d = join_path [root, join_with ''/'' ns]" using c(4) cl r ne by simp
  show thesis
    by (rule that [OF ne ns(2) r]) (use comps_join_names [OF assms(2) ns(2) ne] j in simp_all)
qed

lemma safe_destination_below:
  "safe_destination root relative = Inr d \<Longrightarrow> is_abs root \<Longrightarrow> strictly_below root d"
  by (elim safe_destination_comps) (auto simp: strictly_below_def strict_prefix_def)

text \<open>
  What every item of a plan satisfies: a destination lies below the target; a link goes to a path
  the target does not have, owned by the object in the map \<open>m\<close> of the planned destinations; an
  existing item is the very object at its destination.
\<close>

definition extends :: "('k, 'v) gomap \<Rightarrow> ('k, 'v) gomap \<Rightarrow> bool" where
  "extends m m' \<longleftrightarrow> (\<forall>k v. get m k = Some v \<longrightarrow> get m' k = Some v)"

lemma extends_refl [simp]: "extends m m"
  by (simp add: extends_def)

lemma extends_trans: "extends a b \<Longrightarrow> extends b c \<Longrightarrow> extends a c"
  by (simp add: extends_def)

lemma extends_put: "get m k = None \<or> get m k = Some v \<Longrightarrow> extends m (put k v m)"
  by (auto simp: extends_def simp del: map_of_eq_Some_iff)

definition item_sound :: "string \<Rightarrow> (string, ObjectID) gomap \<Rightarrow> (string, ObjectID) gomap \<Rightarrow> PlanItem \<Rightarrow> bool" where
  "item_sound target existing m it \<longleftrightarrow>
     piDestination it = [] \<or>
     strictly_below target (piDestination it) \<and>
     (case piAction it of
        ActionLink \<Rightarrow> piObject it \<noteq> None \<and> get existing (clean (piDestination it)) = None \<and>
          get m (piDestination it) = piObject it
      | ActionExisting \<Rightarrow> piObject it \<noteq> None \<and> get existing (clean (piDestination it)) = piObject it
      | _ \<Rightarrow> True)"

lemma item_sound_mono: "item_sound t e m it \<Longrightarrow> extends m m' \<Longrightarrow> item_sound t e m' it"
  by (auto simp: item_sound_def extends_def simp del: map_of_eq_Some_iff split: action.splits)

lemma choose_action_sound:
  assumes "choose_action oid d p = (act, detail, p')"
  shows "prConfig p' = prConfig p \<and> prTargetIDs p' = prTargetIDs p \<and> extends (prPlanned p) (prPlanned p') \<and>
    (case act of
       ActionLink \<Rightarrow> get (prTargetIDs p) (clean d) = None \<and> get (prPlanned p') d = Some oid
     | ActionExisting \<Rightarrow> get (prTargetIDs p) (clean d) = Some oid
     | _ \<Rightarrow> True)"
  using assms
  by (auto simp: choose_action_def extends_put simp del: map_of_eq_Some_iff split: option.splits if_splits)

lemma plan_file_cases:
  assumes "plan_file h path meta p = Inr (item, p')"
  obtains (out) "item = None" "p' = p"
    | (unplaced) it where "item = Some it" "p' = p" "piDestination it = []"
        "piAction it = ActionUnmatched \<or> piAction it = ActionExcluded"
    | (placed) r d act detail where "safe_destination (ocTarget (prConfig p)) r = Inr d"
        "choose_action (mdID meta) d p = (act, detail, p')"
        "item = Some ((new_item (prConfig p) path (mdID meta))\<lparr> piDestination := d, piAction := act, piDetail := detail \<rparr>)"
proof -
  have "piDestination (new_item (prConfig p) path (mdID meta)) = []"
    by (simp add: new_item_def Let_def split: option.split)
  then show thesis
    using assms out unplaced placed
    by (auto simp: plan_file_def Let_def split: if_splits option.splits resolution.splits sum.splits prod.splits)
qed

lemma plan_file_sound:
  assumes "plan_file h path meta p = Inr (item, p')" "is_abs (ocTarget (prConfig p))"
  shows "prConfig p' = prConfig p \<and> prTargetIDs p' = prTargetIDs p \<and> extends (prPlanned p) (prPlanned p') \<and>
    pred_option (item_sound (ocTarget (prConfig p)) (prTargetIDs p) (prPlanned p')) item"
  using assms(1)
proof (cases rule: plan_file_cases)
  case (placed r d act detail)
  have "piObject (new_item (prConfig p) path (mdID meta)) = Some (mdID meta)"
    by (simp add: new_item_def Let_def split: option.split)
  with placed safe_destination_below [OF placed(1) assms(2)] choose_action_sound [OF placed(2)] show ?thesis
    by (auto simp: item_sound_def simp del: map_of_eq_Some_iff split: action.splits)
qed (auto simp: item_sound_def)

lemma plan_paths_sound:
  assumes "is_abs (ocTarget (prConfig p))"
  shows "\<exists>m. extends (prPlanned p) m \<and>
    list_all (item_sound (ocTarget (prConfig p)) (prTargetIDs p) m) (fst (plan_paths h i metas p))"
  using assms
proof (induction h i metas p rule: plan_paths.induct)
  case (1 h i p)
  then show ?case by (intro exI [of _ "prPlanned p"]) simp
next
  case (2 h i path meta rest p)
  let ?outside = "\<not> within_root (hoCwd h) (ocSource (prConfig p)) path \<or>
              \<not> real_path_within_root (hoCwd h) (hoLstat h) (ocSource (prConfig p)) path"
  show ?case
  proof (cases "hoCancelled h i")
    case True
    then show ?thesis by (intro exI [of _ "prPlanned p"]) simp
  next
    case go: False
    show ?thesis
    proof (cases "?outside \<or> (\<exists>e. plan_file h path meta p = Inl e)")
      case True
      then have "fst (plan_paths h i ((path, meta) # rest) p) = fst (plan_paths h (Suc i) rest p)"
        using go by (auto simp: case_prod_unfold Let_def)
      moreover have "\<exists>m. extends (prPlanned p) m \<and>
          list_all (item_sound (ocTarget (prConfig p)) (prTargetIDs p) m) (fst (plan_paths h (Suc i) rest p))"
        using True 2 go by (cases ?outside) auto
      ultimately show ?thesis by simp
    next
      case False
      then obtain item p' where ok: "plan_file h path meta p = Inr (item, p')"
        by (cases "plan_file h path meta p") auto
      have sound: "prConfig p' = prConfig p" "prTargetIDs p' = prTargetIDs p" "extends (prPlanned p) (prPlanned p')"
        "pred_option (item_sound (ocTarget (prConfig p)) (prTargetIDs p) (prPlanned p')) item"
        using plan_file_sound [OF ok "2.prems"] by auto
      have "\<exists>m. extends (prPlanned p') m \<and>
          list_all (item_sound (ocTarget (prConfig p')) (prTargetIDs p') m) (fst (plan_paths h (Suc i) rest p'))"
        using False go ok 2(3) [of "(item, p')" item p'] "2.prems" sound(1) by auto
      then obtain m where m: "extends (prPlanned p') m"
          "list_all (item_sound (ocTarget (prConfig p)) (prTargetIDs p) m) (fst (plan_paths h (Suc i) rest p'))"
        unfolding sound(1,2) by blast
      have "pred_option (item_sound (ocTarget (prConfig p)) (prTargetIDs p) m) item"
        using sound(4) m(1) by (cases item) (auto intro: item_sound_mono)
      moreover have "fst (plan_paths h i ((path, meta) # rest) p) =
          (case item of None \<Rightarrow> [] | Some it \<Rightarrow> [it]) @ fst (plan_paths h (Suc i) rest p')"
        using False go ok by (auto simp: case_prod_unfold Let_def split: option.splits)
      ultimately show ?thesis
        using m extends_trans [OF sound(3) m(1)] by (intro exI [of _ m]) (auto split: option.splits)
    qed
  qed
qed

section \<open>Plans of films\<close>

lemma fold_sound:
  assumes "\<And>x s. x \<in> set xs \<Longrightarrow> I s \<Longrightarrow> I (f x s)" "I s"
  shows "I (fold f xs s)"
  using assms by (induction xs arbitrary: s) auto

definition items_sound :: "string \<Rightarrow> (string, ObjectID) gomap \<Rightarrow> PlanItem list \<times> Planner \<Rightarrow> bool" where
  "items_sound target existing s \<longleftrightarrow> ocTarget (prConfig (snd s)) = target \<and> prTargetIDs (snd s) = existing \<and>
     list_all (item_sound target existing (prPlanned (snd s))) (fst s)"

lemma finalize_movie_sound:
  assumes "finalize_movie_item it p = (it', p')" "piAction it = ActionLink" "piObject it = object_id p (piSource it)"
    "strictly_below (ocTarget (prConfig p)) (piDestination it)"
  shows "prConfig p' = prConfig p \<and> prTargetIDs p' = prTargetIDs p \<and> extends (prPlanned p) (prPlanned p') \<and>
    item_sound (ocTarget (prConfig p)) (prTargetIDs p) (prPlanned p') it'"
  using assms
  by (auto simp: finalize_movie_item_def item_sound_def extends_put simp del: map_of_eq_Some_iff
      split: option.splits if_splits)

lemma add_unplaced_sound:
  "act = ActionExcluded \<or> act = ActionConflict \<Longrightarrow> items_sound t e s \<Longrightarrow> items_sound t e (add_unplaced act a s)"
  by (auto simp: items_sound_def add_unplaced_def movie_item_def item_sound_def)

lemma add_linked_sound:
  assumes "items_sound t e s" "is_abs t"
  shows "items_sound t e (add_linked ar s)"
proof -
  obtain a r where ar: "ar = (a, r)" by (cases ar)
  obtain items p where s: "s = (items, p)" by (cases s)
  let ?it = "movie_item p a ActionLink NoItemDetail"
  have p: "ocTarget (prConfig p) = t" "prTargetIDs p = e" "list_all (item_sound t e (prPlanned p)) items"
    using assms(1) s by (auto simp: items_sound_def)
  show ?thesis
  proof (cases "safe_destination t r")
    case (Inl err)
    with ar s p show ?thesis
      by (auto simp: add_linked_def items_sound_def item_sound_def movie_item_def Let_def)
  next
    case (Inr d)
    obtain it' p' where f: "finalize_movie_item (?it\<lparr> piDestination := d \<rparr>) p = (it', p')" by fastforce
    have "strictly_below t d" by (rule safe_destination_below [OF Inr assms(2)])
    with finalize_movie_sound [OF f] p
    have fs: "prConfig p' = prConfig p" "prTargetIDs p' = prTargetIDs p" "extends (prPlanned p) (prPlanned p')"
      "item_sound t e (prPlanned p') it'" by (auto simp: movie_item_def)
    have "list_all (item_sound t e (prPlanned p')) items"
      using p(3) fs(3) by (auto simp: list_all_iff intro: item_sound_mono)
    with ar s p Inr f fs show ?thesis
      by (auto simp: add_linked_def items_sound_def Let_def) (simp_all add: item_sound_def movie_item_def)
  qed
qed

lemma settle_shared_sound:
  "list_all (item_sound t e m) items \<Longrightarrow> list_all (item_sound t e m) (settle_shared items)"
  by (auto simp: settle_shared_def list_all_iff item_sound_def)

lemma not_distinct_filter:
  "\<not> distinct (map d ys) \<Longrightarrow> \<exists>y \<in> set ys. 2 \<le> length (filter (\<lambda>z. d z = d y) ys)"
proof (induction ys)
  case (Cons y ys)
  show ?case
  proof (cases "d y \<in> d ` set ys")
    case True
    then have "filter (\<lambda>z. d z = d y) ys \<noteq> []" by (auto simp: filter_empty_conv)
    then have "2 \<le> length (filter (\<lambda>z. d z = d y) (y # ys))" by (simp add: Suc_le_eq)
    then show ?thesis by (intro bexI [of _ y]) simp_all
  next
    case False
    with Cons obtain z where "z \<in> set ys" "2 \<le> length (filter (\<lambda>w. d w = d z) ys)" by auto
    then show ?thesis by (intro bexI [of _ z]) auto
  qed
qed simp

definition publishes :: "PlanItem \<Rightarrow> bool" where
  "publishes it \<longleftrightarrow> piDestination it \<noteq> [] \<and> (piAction it = ActionLink \<or> piAction it = ActionExisting)"

lemma settle_shared_distinct: "distinct (map piDestination (filter publishes (settle_shared items)))"
proof -
  let ?Q = "\<lambda>it. publishes it \<and> \<not> 2 \<le> length (sharing items (piDestination it))"
  let ?f = "\<lambda>it. if claims_destination it \<and> length (sharing items (piDestination it)) \<ge> 2
      then it\<lparr> piAction := ActionConflict,
        piDetail := SharedTarget (base (piDestination it)) (map piRelative (sharing items (piDestination it))) \<rparr>
      else it"
  have "filter publishes (map ?f xs) = filter ?Q xs" for xs
    by (induction xs) (auto simp: publishes_def claims_destination_def)
  then have eq: "filter publishes (settle_shared items) = filter ?Q items"
    by (simp add: settle_shared_def)
  show ?thesis
  proof (rule ccontr)
    assume "\<not> ?thesis"
    then obtain y where y: "y \<in> set (filter ?Q items)"
        "2 \<le> length (filter (\<lambda>z. piDestination z = piDestination y) (filter ?Q items))"
      using not_distinct_filter [of piDestination "filter ?Q items"] unfolding eq by blast
    have "filter (\<lambda>z. piDestination z = piDestination y) (filter ?Q xs) =
        filter (\<lambda>z. piDestination z = piDestination y \<and> ?Q z) (sharing xs (piDestination y))" for xs
      by (induction xs) (auto simp: sharing_def publishes_def claims_destination_def)
    with y(2) have "2 \<le> length (sharing items (piDestination y))"
      by (metis (no_types, lifting) length_filter_le order_trans)
    with y(1) show False by simp
  qed
qed

lemma plan_bundle_sound:
  assumes "is_abs (ocTarget (prConfig p))" "prPlanned p = []"
  shows "\<exists>m. list_all (item_sound (ocTarget (prConfig p)) (prTargetIDs p) m) (plItems (plan_bundle mv b p))"
proof -
  let ?S = "items_sound (ocTarget (prConfig p)) (prTargetIDs p)"
  have start: "?S ([], p)" by (simp add: items_sound_def)
  have un: "?S (fold (add_unplaced act) as s)" if "?S s" "act = ActionExcluded \<or> act = ActionConflict" for act as s
    by (rule fold_sound [where I = ?S]) (use that in \<open>auto intro: add_unplaced_sound\<close>)
  let ?s = "fold (add_unplaced ActionExcluded) (bExcluded b) ([], p)"
  have s: "?S ?s" using un [OF start] by blast
  have linked: "?S (fold add_linked rs ?s)" for rs
    by (rule fold_sound [where I = ?S]) (use s assms(1) in \<open>auto intro: add_linked_sound\<close>)
  have "\<exists>m. list_all (item_sound (ocTarget (prConfig p)) (prTargetIDs p) m) (fst t)" if "?S t" for t
    using that by (auto simp: items_sound_def)
  from this [OF s] this [OF un [OF s, of ActionConflict "bUnknown b"]] this [OF linked [of "movie_targets mv b"]]
  show ?thesis
    by (auto simp: plan_bundle_def Let_def item_sound_def [of _ _ _ "\<lparr>piSource = _, piObject = _, piRelative = _,
      piParents = _, piDestination = [], piNormalized = _, piAction = _, piDetail = _\<rparr>"] intro: settle_shared_sound)
qed

lemma target_ids_get:
  assumes "wf_map ps" "\<forall>p \<in> set (keys ps). clean p = p"
  shows "get (fold (\<lambda>(p, oid). put (clean p) oid) ps m) k = (case get ps k of Some v \<Rightarrow> Some v | None \<Rightarrow> get m k)"
  using assms
proof (induction ps arbitrary: m)
  case (Cons x ps)
  obtain p oid where x: "x = (p, oid)" by (cases x)
  have "get ps p = None" using Cons.prems(1) x by (auto simp: map_of_eq_None_iff)
  with Cons x show ?case by (auto simp del: map_of_eq_Some_iff split: option.splits)
qed simp

text \<open>C9. Every destination of a plan lies strictly below the target, and the plan has one owner for
  every path it links: a link goes to a path the target does not have, two links to one path are
  links of one object, and what is reported as existing is the very object at its destination.\<close>

theorem plan_is_safe:
  assumes "build_plan_for_snapshot h cfg source target = Inr (plan, errs)"
    and "is_abs (ocTarget cfg)" "wf_map (snPaths target)" "\<forall>p \<in> set (keys (snPaths target)). clean p = p"
  shows "\<exists>m. list_all (\<lambda>it. piDestination it = [] \<or> strictly_below (ocTarget cfg) (piDestination it) \<and>
     (case piAction it of
        ActionLink \<Rightarrow> piObject it \<noteq> None \<and> get (snPaths target) (clean (piDestination it)) = None \<and>
          get m (piDestination it) = piObject it
      | ActionExisting \<Rightarrow> piObject it \<noteq> None \<and> get (snPaths target) (clean (piDestination it)) = piObject it
      | _ \<Rightarrow> True)) (plItems plan)"
proof -
  obtain p0 where p0: "new_planner h cfg target = Inr p0"
    using assms(1) by (auto simp: build_plan_for_snapshot_def split: sum.splits)
  let ?p = "p0\<lparr> prSourceIDs := snPaths source \<rparr>"
  have p: "prConfig ?p = cfg" "prPlanned ?p = []" "get (prTargetIDs ?p) k = get (snPaths target) k" for k
    using p0 target_ids_get [OF assms(3,4), of "[]" k]
    by (auto simp: new_planner_def simp del: map_of_eq_Some_iff split: option.splits if_splits)
  have fields: "prConfig (prepare h paths q) = prConfig q" "prPlanned (prepare h paths q) = prPlanned q"
    "prTargetIDs (prepare h paths q) = prTargetIDs q" for paths q
    by (simp_all add: prepare_def prepare_names_def)
  have "\<exists>m. list_all (item_sound (ocTarget (prConfig ?p)) (prTargetIDs ?p) m) (plItems plan)"
  proof (cases "ocMovie cfg")
    case None
    define paths where
      "paths = sort (filter (\<lambda>path. has_allowed_extension path (prExtensions ?p)) (keys (snPaths source)))"
    define metas where "metas = map (\<lambda>path. (path, case object_metadata source path of Some m \<Rightarrow> m | None \<Rightarrow> zero_metadata)) paths"
    have "build_plan_for_snapshot h cfg source target =
        Inr (\<lparr> plItems = fst (plan_paths h 0 metas (prepare h paths ?p)), plWarnings = [] \<rparr>,
          snd (plan_paths h 0 metas (prepare h paths ?p)))"
      by (simp add: build_plan_for_snapshot_def p0 None Let_def case_prod_unfold paths_def metas_def)
    with assms(1) have "plItems plan = fst (plan_paths h 0 metas (prepare h paths ?p))" by auto
    then show ?thesis using plan_paths_sound [of "prepare h paths ?p" h 0 metas] assms(2) p(1) by (auto simp: fields)
  next
    case (Some mv)
    with assms(1) p0 obtain b where "plan = plan_bundle mv b ?p"
      by (auto simp: build_plan_for_snapshot_def plan_movie_def Let_def split: sum.splits if_splits)
    then show ?thesis using plan_bundle_sound [of ?p mv b] assms(2) p by simp
  qed
  then show ?thesis unfolding item_sound_def p .
qed

definition sample_host :: Host where
  "sample_host = \<lparr> hoCwd = ''/'', hoLstat = (\<lambda>_. LsMissing), hoGlob = (\<lambda>_ _. Some False),
     hoLetter = (\<lambda>r. 48 \<le> r \<and> r \<le> 57 \<or> 97 \<le> r \<and> r \<le> 122), hoOrder = (\<lambda>m. m), hoCancelled = (\<lambda>_. False) \<rparr>"

definition sample_film :: OrgConfig where
  "sample_film = \<lparr> ocSource = ''/m/s'', ocTarget = ''/m/t'', ocExtensions = [], ocEmby = None,
     ocMovie = Some \<lparr> mvTitle = ''Up'', mvYear = 2009, mvOverrides = [] \<rparr>, ocManaged = True,
     ocPublicationRoot = ''/m/t'', ocBlacklist = [] \<rparr>"

definition sample_source :: Snapshot where
  "sample_source = add_regular ''/m/s/up.mkv'' (sample_meta 7 Regular) empty_snapshot"

definition sample_plan :: Plan where
  "sample_plan = \<lparr> plItems = [\<lparr> piSource = ''/m/s/up.mkv'', piObject = Some \<lparr> oidDevice = 1, oidInode = 7 \<rparr>,
     piRelative = ''up.mkv'', piParents = [], piDestination = ''/m/t/Up (2009).mkv'', piNormalized = ''up.mkv'',
     piAction = ActionLink, piDetail = NoItemDetail \<rparr>], plWarnings = [] \<rparr>"

lemma sample_plan_built:
  "build_plan_for_snapshot sample_host sample_film sample_source empty_snapshot = Inr (sample_plan, [])"
  by code_simp

theorem plan_is_safe_witness:
  "\<exists>m. list_all (\<lambda>it. piDestination it = [] \<or> strictly_below (ocTarget sample_film) (piDestination it) \<and>
     (case piAction it of
        ActionLink \<Rightarrow> piObject it \<noteq> None \<and> get (snPaths empty_snapshot) (clean (piDestination it)) = None \<and>
          get m (piDestination it) = piObject it
      | ActionExisting \<Rightarrow> piObject it \<noteq> None \<and> get (snPaths empty_snapshot) (clean (piDestination it)) = piObject it
      | _ \<Rightarrow> True)) (plItems sample_plan)"
  by (rule plan_is_safe [OF sample_plan_built]) (simp_all add: sample_film_def empty_snapshot_def is_abs_def)

text \<open>C10. In the plan of a film no two files are published under one destination, whatever files
  the source holds.\<close>

theorem film_destinations_distinct:
  "pred_sum (\<lambda>_. True) (\<lambda>plan. distinct (map piDestination (filter publishes (plItems plan))))
     (plan_movie h mv paths p)"
proof -
  have un: "filter publishes (fst (fold (add_unplaced act) as s)) = []"
    if "filter publishes (fst s) = []" "act = ActionExcluded \<or> act = ActionConflict" for act as s
    by (rule fold_sound [where I = "\<lambda>s. filter publishes (fst s) = []"])
      (use that in \<open>auto simp: add_unplaced_def publishes_def movie_item_def\<close>)
  have "distinct (map piDestination (filter publishes (plItems (plan_bundle mv b p))))" for b
  proof (cases "bKind b = KConflict \<or> bConflict b \<noteq> NoConflict")
    case True
    have "filter publishes (plItems (plan_bundle mv b p)) = []"
      using True un [of "([], p)" ActionExcluded "bExcluded b"]
        un [of "fold (add_unplaced ActionExcluded) (bExcluded b) ([], p)" ActionConflict "bUnknown b"]
      by (auto simp: plan_bundle_def Let_def) (simp_all add: publishes_def)
    then show ?thesis by simp
  next
    case False
    then show ?thesis by (simp add: plan_bundle_def Let_def settle_shared_distinct)
  qed
  then show ?thesis by (auto simp: plan_movie_def split: sum.split)
qed

section \<open>The library name determines the episode\<close>

lemma pad0_next_inj:
  assumes "\<not> is_digit c" "\<not> is_digit c'" "pad0 w i @ c # r = pad0 w i' @ c' # r'"
  shows "i = i' \<and> c = c' \<and> r = r'"
proof -
  obtain ds where ds: "pad0 w i = (if i < 0 then ''-'' else []) @ ds" "ds \<noteq> []"
    "\<forall>c \<in> set ds. is_digit c" "read_digits ds = nat \<bar>i\<bar>" by (rule pad0_form)
  obtain ds' where ds': "pad0 w i' = (if i' < 0 then ''-'' else []) @ ds'" "ds' \<noteq> []"
    "\<forall>c \<in> set ds'. is_digit c" "read_digits ds' = nat \<bar>i'\<bar>" by (rule pad0_form)
  have first: "is_digit (hd ds)" "is_digit (hd ds')" using ds ds' by auto
  have neg: "i < 0 \<longleftrightarrow> i' < 0"
    using assms(3) ds(1,2) ds'(1,2) first by (cases ds; cases ds') (auto split: if_splits)
  with assms(3) ds(1) ds'(1) have "ds @ c # r = ds' @ c' # r'" by (auto split: if_splits)
  from digits_prefix_unique [OF ds(3) ds'(3) assms(1,2) this] ds(4) ds'(4) neg
  show ?thesis by (auto split: if_splits)
qed

text \<open>What follows a number in the name starts with no digit.\<close>

definition name_tail :: "int \<Rightarrow> string \<Rightarrow> string" where
  "name_tail version e = (if version > 1 then '' - v'' @ show_int version else []) @ e"

lemma name_tail_start:
  "name_tail version (CHR ''.'' # e) = (if version > 1 then CHR '' '' # ''- v'' @ show_int version @ CHR ''.'' # e else CHR ''.'' # e)"
  by (simp add: name_tail_def)

lemma name_tail_inj:
  assumes "name_tail v (CHR ''.'' # e) = name_tail v' (CHR ''.'' # e')"
  shows "max 1 v = max 1 v' \<and> e = e'"
proof (cases "v > 1 \<and> v' > 1")
  case True
  then have "show_nat (nat v) @ CHR ''.'' # e = show_nat (nat v') @ CHR ''.'' # e'"
    using assms by (simp add: name_tail_start show_int_def)
  moreover have "\<not> is_digit CHR ''.''" by (simp add: is_digit_def)
  ultimately have "show_nat (nat v) = show_nat (nat v') \<and> e = e'"
    using digits_prefix_unique [OF show_nat_digits show_nat_digits] by blast
  then have "nat v = nat v'" "e = e'" by (metis read_show_nat, simp)
  then have "v = v'" using True by (simp add: eq_nat_nat_iff)
  with \<open>e = e'\<close> show ?thesis by simp
qed (use assms in \<open>auto simp: name_tail_start split: if_splits\<close>)

text \<open>C29. The name of an episode in the library determines the season, the range of episodes, the
  version and the extension: two different ones of one series never share a name.\<close>

theorem episode_name_unique:
  "episode_name title season start stop version (CHR ''.'' # e) =
     episode_name title season' start' stop' version' (CHR ''.'' # e') \<longleftrightarrow>
   season = season' \<and> start = start' \<and> stop = stop' \<and> max 1 version = max 1 version' \<and> e = e'"
proof
  assume eq: "episode_name title season start stop version (CHR ''.'' # e) =
     episode_name title season' start' stop' version' (CHR ''.'' # e')"
  let ?till = "\<lambda>b v x. (if b \<noteq> 0 then ''-E'' @ pad0 2 b else []) @ name_tail v (CHR ''.'' # x)"
  have nd: "\<not> is_digit CHR ''E''" "\<not> is_digit CHR '' ''" "\<not> is_digit CHR ''.''" by (simp_all add: is_digit_def)
  have tail: "\<exists>c r. name_tail v (CHR ''.'' # x) = c # r \<and> \<not> is_digit c \<and> c \<noteq> CHR ''-''" for v x
    using nd by (simp add: name_tail_start)
  have ends: "\<exists>c r. ?till b v x = c # r \<and> \<not> is_digit c \<and> (b = 0 \<longleftrightarrow> c \<noteq> CHR ''-'')" for b v x
    using tail [of v x] by auto
  have "pad0 2 season @ CHR ''E'' # pad0 2 start @ ?till stop version e =
      pad0 2 season' @ CHR ''E'' # pad0 2 start' @ ?till stop' version' e'"
    using eq by (simp add: episode_name_def name_tail_def)
  from pad0_sep_inj [OF nd(1) this]
  have s: "season = season'" "pad0 2 start @ ?till stop version e = pad0 2 start' @ ?till stop' version' e'"
    by auto
  obtain c r c' r' where cr: "?till stop version e = c # r" "?till stop' version' e' = c' # r'"
    "\<not> is_digit c" "\<not> is_digit c'" "stop = 0 \<longleftrightarrow> c \<noteq> CHR ''-''" "stop' = 0 \<longleftrightarrow> c' \<noteq> CHR ''-''"
    using ends [of stop version e] ends [of stop' version' e'] by blast
  from pad0_next_inj [OF cr(3,4)] s(2)
  have t: "start = start'" "c = c'" "?till stop version e = ?till stop' version' e'"
    unfolding cr(1,2) by auto
  have zero: "stop = 0 \<longleftrightarrow> stop' = 0" using cr(5,6) t(2) by simp
  have "stop = stop' \<and> name_tail version (CHR ''.'' # e) = name_tail version' (CHR ''.'' # e')"
  proof (cases "stop = 0")
    case False
    obtain d q where d: "name_tail version (CHR ''.'' # e) = d # q" "\<not> is_digit d" using tail by blast
    obtain d' q' where d': "name_tail version' (CHR ''.'' # e') = d' # q'" "\<not> is_digit d'" using tail by blast
    have "pad0 2 stop @ d # q = pad0 2 stop' @ d' # q'" using t(3) False zero by (simp add: d d')
    from pad0_next_inj [OF d(2) d'(2) this] show ?thesis by (simp add: d d')
  qed (use t(3) zero in simp)
  then show "season = season' \<and> start = start' \<and> stop = stop' \<and> max 1 version = max 1 version' \<and> e = e'"
    using s(1) t(1) name_tail_inj by blast
qed (auto simp: episode_name_def max_def split: if_splits)

end
