(* ===== verification/Disk.thy ===== *)
theory Disk
  imports Physical
begin

text \<open>
  Package \<open>filesystem\<close>, the operations that change the namespace (link_linux.go, remove_linux.go,
  filesystem.go): hardlinks, their removal, and pruning of empty directories, as sequences of
  system calls on a disk. A disk maps every object to what it is, a directory to its entries; a file
  descriptor is the object it was opened on. \<open>Kernel\<close> is the rest of the world: how a root path
  is resolved, which call fails, what other processes do to the disk before a call, the number
  a new directory gets, and \<open>os.MkdirAll\<close>. \<open>quiet\<close> kernels leave the disk alone between calls. The machine also logs
  the changes made to directory entries.
\<close>

section \<open>Disks and system calls\<close>

datatype node = Dir "(string, ObjectID) gomap" | File | Sym | Special

type_synonym disk = "(ObjectID, node) gomap"

datatype errno = ENOENT | ENOTDIR | ELOOP | EEXIST | EXDEV | ENOTEMPTY | EISDIR | EIO

datatype fs_error =
    Errno errno | PathOutside string | UnsafeComponent string | NotRegular | ObjectChanged
  | ErrExist | NotRealDirectory | DifferentDevice

datatype change = Linked ObjectID string ObjectID | Unlinked ObjectID string ObjectID
  | MadeDir ObjectID string | RemovedDir ObjectID string

record Kernel =
  knRoot :: "disk \<Rightarrow> string \<Rightarrow> ObjectID option"
  knFault :: "nat \<Rightarrow> errno option"
  knMove :: "nat \<Rightarrow> disk \<Rightarrow> disk"
  knFresh :: "disk \<Rightarrow> ObjectID"
  knMkdirAll :: "disk \<Rightarrow> string \<Rightarrow> disk option"

record Machine =
  mcDisk :: disk
  mcTick :: nat
  mcLog :: "change list"

type_synonym 'a io = "Machine \<Rightarrow> (fs_error + 'a) \<times> Machine"

definition ret :: "'a \<Rightarrow> 'a io" where
  "ret x m = (Inr x, m)"

definition fail :: "fs_error \<Rightarrow> 'a io" where
  "fail e m = (Inl e, m)"

definition bind_io :: "'a io \<Rightarrow> ('a \<Rightarrow> 'b io) \<Rightarrow> 'b io" where
  "bind_io c f m = (case c m of (Inl e, m') \<Rightarrow> (Inl e, m') | (Inr x, m') \<Rightarrow> f x m')"

text \<open>The result and its effect, whatever it is: \<open>result, err := f()\<close>.\<close>

definition attempt :: "'a io \<Rightarrow> ((fs_error + 'a) \<Rightarrow> 'b io) \<Rightarrow> 'b io" where
  "attempt c f m = (case c m of (r, m') \<Rightarrow> f r m')"

definition sys :: "Kernel \<Rightarrow> (disk \<Rightarrow> errno + 'a \<times> disk \<times> change list) \<Rightarrow> 'a io" where
  "sys k f m =
     (let d = knMove k (mcTick m) (mcDisk m); m1 = m\<lparr> mcDisk := d, mcTick := Suc (mcTick m) \<rparr>
      in case knFault k (mcTick m) of
           Some e \<Rightarrow> (Inl (Errno e), m1)
         | None \<Rightarrow>
             (case f d of
                Inl e \<Rightarrow> (Inl (Errno e), m1)
              | Inr (x, d', cs) \<Rightarrow> (Inr x, m1\<lparr> mcDisk := d', mcLog := mcLog m1 @ cs \<rparr>)))"

definition entries :: "disk \<Rightarrow> ObjectID \<Rightarrow> (string, ObjectID) gomap" where
  "entries d fd = (case get d fd of Some (Dir es) \<Rightarrow> es | _ \<Rightarrow> [])"

definition lookup :: "disk \<Rightarrow> ObjectID \<Rightarrow> string \<Rightarrow> ObjectID option" where
  "lookup d fd name = get (entries d fd) name"

definition is_directory :: "disk \<Rightarrow> ObjectID \<Rightarrow> bool" where
  "is_directory d oid = (case get d oid of Some (Dir _) \<Rightarrow> True | _ \<Rightarrow> False)"

text \<open>\<open>O_DIRECTORY|O_NOFOLLOW\<close>.\<close>

definition as_directory :: "disk \<Rightarrow> ObjectID option \<Rightarrow> errno + ObjectID" where
  "as_directory d found =
     (case found of
        None \<Rightarrow> Inl ENOENT
      | Some oid \<Rightarrow>
          (case get d oid of
             Some (Dir _) \<Rightarrow> Inr oid | Some Sym \<Rightarrow> Inl ELOOP | Some _ \<Rightarrow> Inl ENOTDIR | None \<Rightarrow> Inl ENOENT))"

definition query :: "Kernel \<Rightarrow> (disk \<Rightarrow> errno + 'a) \<Rightarrow> 'a io" where
  "query k f = sys k (\<lambda>d. map_sum id (\<lambda>x. (x, d, [])) (f d))"

definition open_directory_no_follow :: "Kernel \<Rightarrow> string \<Rightarrow> ObjectID io" where
  "open_directory_no_follow k path = query k (\<lambda>d. as_directory d (knRoot k d path))"

definition sys_openat_dir :: "Kernel \<Rightarrow> ObjectID \<Rightarrow> string \<Rightarrow> ObjectID io" where
  "sys_openat_dir k fd name = query k (\<lambda>d. as_directory d (lookup d fd name))"

definition sys_openat :: "Kernel \<Rightarrow> ObjectID \<Rightarrow> string \<Rightarrow> ObjectID io" where
  "sys_openat k fd name =
     query k (\<lambda>d. case lookup d fd name of
        None \<Rightarrow> Inl ENOENT
      | Some oid \<Rightarrow> if get d oid = Some Sym then Inl ELOOP else Inr oid)"

definition sys_fsync :: "Kernel \<Rightarrow> ObjectID \<Rightarrow> unit io" where
  "sys_fsync k fd = query k (\<lambda>_. Inr ())"

definition sys_fstat :: "Kernel \<Rightarrow> ObjectID \<Rightarrow> (ObjectID \<times> node) io" where
  "sys_fstat k fd = query k (\<lambda>d. case get d fd of None \<Rightarrow> Inl EIO | Some n \<Rightarrow> Inr (fd, n))"

definition set_entry :: "ObjectID \<Rightarrow> string \<Rightarrow> ObjectID \<Rightarrow> disk \<Rightarrow> disk" where
  "set_entry fd name oid d = put fd (Dir (put name oid (entries d fd))) d"

definition del_entry :: "ObjectID \<Rightarrow> string \<Rightarrow> disk \<Rightarrow> disk" where
  "del_entry fd name d = put fd (Dir (del name (entries d fd))) d"

definition sys_mkdirat :: "Kernel \<Rightarrow> ObjectID \<Rightarrow> string \<Rightarrow> unit io" where
  "sys_mkdirat k fd name =
     sys k (\<lambda>d. if \<not> is_directory d fd then Inl ENOENT
       else if lookup d fd name \<noteq> None then Inl EEXIST
       else Inr ((), set_entry fd name (knFresh k d) (put (knFresh k d) (Dir []) d), [MadeDir fd name]))"

definition raw_linkat :: "Kernel \<Rightarrow> ObjectID \<Rightarrow> string \<Rightarrow> ObjectID \<Rightarrow> string \<Rightarrow> unit io" where
  "raw_linkat k old_fd old_name new_fd new_name =
     sys k (\<lambda>d. case lookup d old_fd old_name of
        None \<Rightarrow> Inl ENOENT
      | Some oid \<Rightarrow>
          if is_directory d oid then Inl EISDIR
          else if \<not> is_directory d new_fd then Inl ENOENT
          else if lookup d new_fd new_name \<noteq> None then Inl EEXIST
          else if oidDevice oid \<noteq> oidDevice new_fd then Inl EXDEV
          else Inr ((), set_entry new_fd new_name oid d, [Linked new_fd new_name oid]))"

definition raw_unlinkat :: "Kernel \<Rightarrow> ObjectID \<Rightarrow> string \<Rightarrow> unit io" where
  "raw_unlinkat k fd name =
     sys k (\<lambda>d. case lookup d fd name of
        None \<Rightarrow> Inl ENOENT
      | Some oid \<Rightarrow>
          if is_directory d oid then Inl EISDIR
          else Inr ((), del_entry fd name d, [Unlinked fd name oid]))"

text \<open>\<open>unlinkat\<close> with \<open>AT_REMOVEDIR\<close>.\<close>

definition raw_rmdirat :: "Kernel \<Rightarrow> ObjectID \<Rightarrow> string \<Rightarrow> unit io" where
  "raw_rmdirat k fd name =
     sys k (\<lambda>d. case lookup d fd name of
        None \<Rightarrow> Inl ENOENT
      | Some oid \<Rightarrow>
          (case get d oid of
             Some (Dir es) \<Rightarrow>
               if es \<noteq> [] then Inl ENOTEMPTY
               else Inr ((), del_entry fd name d, [RemovedDir fd name])
           | _ \<Rightarrow> Inl ENOTDIR))"

section \<open>The operations of the program\<close>

definition relative_below :: "string \<Rightarrow> string \<Rightarrow> string \<Rightarrow> fs_error + string" where
  "relative_below cwd root path =
     (case rel (abs_path cwd root) (abs_path cwd path) of
        None \<Rightarrow> Inl (PathOutside path)
      | Some r \<Rightarrow> if r = ''.'' \<or> is_abs r \<or> escapes_up r then Inl (PathOutside path) else Inr r)"

fun open_components :: "Kernel \<Rightarrow> bool \<Rightarrow> ObjectID \<Rightarrow> string list \<Rightarrow> ObjectID io" where
  "open_components k create current [] = ret current"
| "open_components k create current (part # parts) =
     (if part = [] \<or> part = ''.'' \<or> part = ''..'' then fail (UnsafeComponent part)
      else attempt (sys_openat_dir k current part) (\<lambda>opened.
        if opened = Inl (Errno ENOENT) \<and> create then
          attempt (sys_mkdirat k current part) (\<lambda>made.
            case made of
              Inl e \<Rightarrow>
                if e \<noteq> Errno EEXIST then fail e
                else bind_io (sys_openat_dir k current part) (\<lambda>next. open_components k create next parts)
            | Inr _ \<Rightarrow>
                bind_io (sys_fsync k current) (\<lambda>_.
                bind_io (sys_openat_dir k current part) (\<lambda>next. open_components k create next parts)))
        else case opened of
            Inl e \<Rightarrow> fail e
          | Inr next \<Rightarrow> open_components k create next parts))"

definition open_relative_directory :: "Kernel \<Rightarrow> ObjectID \<Rightarrow> string \<Rightarrow> bool \<Rightarrow> ObjectID io" where
  "open_relative_directory k root_fd r create =
     bind_io (query k (\<lambda>_. Inr ())) (\<lambda>_.
       if r = ''.'' \<or> r = [] then ret root_fd
       else open_components k create root_fd (split_on CHR ''/'' (clean r)))"

definition verify_fd :: "Kernel \<Rightarrow> ObjectID \<Rightarrow> ObjectID \<Rightarrow> unit io" where
  "verify_fd k fd expected =
     bind_io (sys_fstat k fd) (\<lambda>(got, n).
       if n \<noteq> File then fail NotRegular
       else if got \<noteq> expected then fail ObjectChanged
       else ret ())"

text \<open>Undoing a link ignores the result of the removal.\<close>

definition undo_link :: "Kernel \<Rightarrow> ObjectID \<Rightarrow> string \<Rightarrow> fs_error \<Rightarrow> bool io" where
  "undo_link k fd name e = attempt (raw_unlinkat k fd name) (\<lambda>_. fail e)"

definition verify_link ::
    "Kernel \<Rightarrow> ObjectID \<Rightarrow> ObjectID \<Rightarrow> string \<Rightarrow> ObjectID \<Rightarrow> bool io" where
  "verify_link k source_fd parent name expected =
     attempt (sys_openat k parent name) (\<lambda>opened. case opened of
        Inl e \<Rightarrow> undo_link k parent name e
      | Inr target_fd \<Rightarrow>
          attempt (verify_fd k target_fd expected) (\<lambda>v. case v of
            Inl e \<Rightarrow> undo_link k parent name e
          | Inr _ \<Rightarrow>
              attempt (verify_fd k source_fd expected) (\<lambda>s. case s of
                Inl e \<Rightarrow> attempt (raw_unlinkat k parent name) (\<lambda>_. attempt (sys_fsync k parent) (\<lambda>_. fail e))
              | Inr _ \<Rightarrow> bind_io (sys_fsync k parent) (\<lambda>_. ret True))))"

definition already_linked :: "Kernel \<Rightarrow> ObjectID \<Rightarrow> string \<Rightarrow> ObjectID \<Rightarrow> bool io" where
  "already_linked k parent name expected =
     attempt (sys_openat k parent name) (\<lambda>opened. case opened of
        Inl _ \<Rightarrow> fail ErrExist
      | Inr fd \<Rightarrow> attempt (verify_fd k fd expected) (\<lambda>v. case v of Inl _ \<Rightarrow> fail ErrExist | Inr _ \<Rightarrow> ret False))"

definition link_in :: "Kernel \<Rightarrow> ObjectID \<Rightarrow> string \<Rightarrow> ObjectID \<Rightarrow> string \<Rightarrow> ObjectID \<Rightarrow> bool io" where
  "link_in k source_parent source_name target_parent target_name expected =
     bind_io (sys_openat k source_parent source_name) (\<lambda>source_fd.
     bind_io (verify_fd k source_fd expected) (\<lambda>_.
     attempt (raw_linkat k source_parent source_name target_parent target_name) (\<lambda>linked. case linked of
       Inl e \<Rightarrow> if e = Errno EEXIST then already_linked k target_parent target_name expected else fail e
     | Inr _ \<Rightarrow> verify_link k source_fd target_parent target_name expected)))"

definition lift_error :: "fs_error + 'a \<Rightarrow> 'a io" where
  "lift_error r = (case r of Inl e \<Rightarrow> fail e | Inr x \<Rightarrow> ret x)"

definition link_observed ::
    "string \<Rightarrow> Kernel \<Rightarrow> string \<Rightarrow> string \<Rightarrow> string \<Rightarrow> string \<Rightarrow> ObjectID \<Rightarrow> bool io" where
  "link_observed cwd k source_root source_path target_root target_path expected =
     bind_io (lift_error (relative_below cwd source_root source_path)) (\<lambda>source_rel.
     bind_io (lift_error (relative_below cwd target_root target_path)) (\<lambda>target_rel.
     bind_io (open_directory_no_follow k source_root) (\<lambda>source_fd.
     bind_io (open_directory_no_follow k target_root) (\<lambda>target_fd.
     bind_io (open_relative_directory k source_fd (dir source_rel) False) (\<lambda>source_parent.
     bind_io (open_relative_directory k target_fd (dir target_rel) True) (\<lambda>target_parent.
       link_in k source_parent (base source_rel) target_parent (base target_rel) expected))))))"

definition remove_in :: "Kernel \<Rightarrow> ObjectID \<Rightarrow> string \<Rightarrow> ObjectID \<Rightarrow> unit io" where
  "remove_in k parent name expected =
     attempt (sys_openat k parent name) (\<lambda>opened. case opened of
       Inl e \<Rightarrow> if e = Errno ENOENT then ret () else fail e
     | Inr fd \<Rightarrow>
         bind_io (verify_fd k fd expected) (\<lambda>_.
         bind_io (query k (\<lambda>_. Inr ())) (\<lambda>_.
         attempt (raw_unlinkat k parent name) (\<lambda>r. case r of
           Inl e \<Rightarrow> if e = Errno ENOENT then ret () else fail e
         | Inr _ \<Rightarrow> sys_fsync k parent))))"

definition remove_observed_link :: "string \<Rightarrow> Kernel \<Rightarrow> string \<Rightarrow> string \<Rightarrow> ObjectID \<Rightarrow> unit io" where
  "remove_observed_link cwd k root path expected =
     bind_io (lift_error (relative_below cwd root path)) (\<lambda>r.
     bind_io (open_directory_no_follow k root) (\<lambda>root_fd.
     bind_io (open_relative_directory k root_fd (dir r) False) (\<lambda>parent.
       remove_in k parent (base r) expected)))"

text \<open>The loop goes up one directory per turn; the fuel is the number of components of the start.\<close>

fun prune_loop :: "nat \<Rightarrow> string \<Rightarrow> Kernel \<Rightarrow> string \<Rightarrow> string \<Rightarrow> unit io" where
  "prune_loop 0 cwd k root current = ret ()"
| "prune_loop (Suc n) cwd k root current =
     (if current = root then ret ()
      else bind_io (lift_error (relative_below cwd root current)) (\<lambda>r.
        bind_io (open_directory_no_follow k root) (\<lambda>root_fd.
        attempt (open_relative_directory k root_fd (dir r) False) (\<lambda>opened. case opened of
          Inl e \<Rightarrow> if e = Errno ENOENT then ret () else fail e
        | Inr parent \<Rightarrow>
            attempt (raw_rmdirat k parent (base r)) (\<lambda>removed. case removed of
              Inl e \<Rightarrow>
                if e = Errno ENOTEMPTY \<or> e = Errno EEXIST \<or> e = Errno ENOENT then ret () else fail e
            | Inr _ \<Rightarrow> attempt (sys_fsync k parent) (\<lambda>_. prune_loop n cwd k root (dir current)))))))"

definition remove_empty_parents :: "string \<Rightarrow> Kernel \<Rightarrow> string \<Rightarrow> string \<Rightarrow> unit io" where
  "remove_empty_parents cwd k root start =
     prune_loop (Suc (Suc (length (comps start)))) cwd k (clean root) (clean start)"

text \<open>\<open>os.Lstat\<close> and the check that two roots are on one device.\<close>

definition sys_lstat :: "Kernel \<Rightarrow> string \<Rightarrow> (ObjectID \<times> node) io" where
  "sys_lstat k path =
     query k (\<lambda>d. case knRoot k d path of
        None \<Rightarrow> Inl ENOENT
      | Some oid \<Rightarrow> (case get d oid of None \<Rightarrow> Inl EIO | Some n \<Rightarrow> Inr (oid, n)))"

definition observe_directory :: "Kernel \<Rightarrow> string \<Rightarrow> ObjectID io" where
  "observe_directory k path =
     bind_io (sys_lstat k (clean path)) (\<lambda>(oid, n).
       case n of Dir _ \<Rightarrow> ret oid | _ \<Rightarrow> fail NotRealDirectory)"

definition mkdir_all :: "Kernel \<Rightarrow> string \<Rightarrow> unit io" where
  "mkdir_all k path =
     sys k (\<lambda>d. case knMkdirAll k d path of None \<Rightarrow> Inl EIO | Some d' \<Rightarrow> Inr ((), d', []))"

definition validate_hardlink_domain :: "Kernel \<Rightarrow> string \<Rightarrow> string \<Rightarrow> unit io" where
  "validate_hardlink_domain k source_root target_root =
     bind_io (observe_directory k source_root) (\<lambda>source.
     bind_io (observe_directory k target_root) (\<lambda>target.
       if oidDevice source \<noteq> oidDevice target then fail DifferentDevice else ret ()))"

definition ensure_hardlink_domain :: "Kernel \<Rightarrow> string \<Rightarrow> string \<Rightarrow> unit io" where
  "ensure_hardlink_domain k source_root target_root =
     bind_io (mkdir_all k source_root) (\<lambda>_.
     bind_io (mkdir_all k target_root) (\<lambda>_.
       validate_hardlink_domain k source_root target_root))"

section \<open>Reasoning about runs\<close>


text \<open>From a disk with \<open>P\<close>, the result and the disk after it satisfy \<open>Q\<close>.\<close>

definition ens :: "(disk \<Rightarrow> bool) \<Rightarrow> 'a io \<Rightarrow> (fs_error + 'a \<Rightarrow> disk \<Rightarrow> bool) \<Rightarrow> bool" where
  "ens P c Q \<longleftrightarrow> (\<forall>m. P (mcDisk m) \<longrightarrow> Q (fst (c m)) (mcDisk (snd (c m))))"

lemma ens_ret: "(\<And>d. P d \<Longrightarrow> Q (Inr x) d) \<Longrightarrow> ens P (ret x) Q"
  by (simp add: ens_def ret_def)

lemma ens_fail: "(\<And>d. P d \<Longrightarrow> Q (Inl e) d) \<Longrightarrow> ens P (fail e) Q"
  by (simp add: ens_def fail_def)

lemma ens_bind:
  assumes "ens P c R" "\<And>x. ens (R (Inr x)) (f x) Q" "\<And>e d. R (Inl e) d \<Longrightarrow> Q (Inl e) d"
  shows "ens P (bind_io c f) Q"
  unfolding ens_def
proof (intro allI impI)
  fix m :: Machine assume "P (mcDisk m)"
  then have r: "R (fst (c m)) (mcDisk (snd (c m)))" using assms(1) by (simp add: ens_def)
  obtain x m' where c: "c m = (x, m')" by fastforce
  show "Q (fst (bind_io c f m)) (mcDisk (snd (bind_io c f m)))"
  proof (cases x)
    case (Inl e)
    then show ?thesis using r c assms(3) by (simp add: bind_io_def)
  next
    case (Inr y)
    then show ?thesis using r c assms(2) [of y] by (simp add: bind_io_def ens_def)
  qed
qed

lemma ens_attempt:
  assumes "ens P c R" "\<And>r. ens (R r) (f r) Q"
  shows "ens P (attempt c f) Q"
  using assms by (auto simp: ens_def attempt_def case_prod_unfold)

lemma ens_weaken: "ens P c Q \<Longrightarrow> (\<And>d. P' d \<Longrightarrow> P d) \<Longrightarrow> (\<And>r d. Q r d \<Longrightarrow> Q' r d) \<Longrightarrow> ens P' c Q'"
  by (simp add: ens_def)

lemma ens_pre: "(\<And>d. P d \<Longrightarrow> ens (\<lambda>d'. d' = d) c Q) \<Longrightarrow> ens P c Q"
  by (simp add: ens_def)

lemma ens_false: "(\<And>d. \<not> P d) \<Longrightarrow> ens P c Q"
  by (simp add: ens_def)

section \<open>Disks that only grow\<close>

definition kept :: "node \<Rightarrow> node option \<Rightarrow> bool" where
  "kept n after = (case n of Dir _ \<Rightarrow> (\<exists>es. after = Some (Dir es)) | _ \<Rightarrow> after = Some n)"

definition grows :: "disk \<Rightarrow> disk \<Rightarrow> bool" where
  "grows d d' \<longleftrightarrow> (\<forall>fd name x. lookup d fd name = Some x \<longrightarrow> lookup d' fd name = Some x) \<and>
     (\<forall>x n. get d x = Some n \<longrightarrow> kept n (get d' x))"

lemma kept_simps [simp]:
  "kept (Dir es) a \<longleftrightarrow> (\<exists>es. a = Some (Dir es))" "kept File a \<longleftrightarrow> a = Some File"
  "kept n (Some n)"
  by (auto simp: kept_def split: node.split)

lemma grows_refl [simp]: "grows d d"
  by (auto simp: grows_def kept_def split: node.split)

lemma kept_trans: "kept n (Some n') \<Longrightarrow> kept n' a \<Longrightarrow> kept n a"
  by (auto simp: kept_def split: node.splits)

lemma kept_some: "kept n a \<Longrightarrow> \<exists>n'. a = Some n'"
  by (auto simp: kept_def split: node.splits)

lemma grows_trans:
  assumes "grows a b" "grows b c"
  shows "grows a c"
proof -
  have "kept n (get c x)" if "get a x = Some n" for x n
    using assms that unfolding grows_def by (metis kept_some kept_trans)
  moreover have "lookup c fd name = Some x" if "lookup a fd name = Some x" for fd name x
    using assms that unfolding grows_def by blast
  ultimately show ?thesis unfolding grows_def by blast
qed

lemma is_directory_get: "is_directory d fd \<longleftrightarrow> (\<exists>es. get d fd = Some (Dir es))"
  by (auto simp: is_directory_def simp del: map_of_eq_Some_iff split: option.splits node.splits)

lemma grows_directory: "grows d d' \<Longrightarrow> is_directory d x \<Longrightarrow> is_directory d' x"
  unfolding is_directory_get grows_def by (metis kept_simps(1))

lemma grows_file: "grows d d' \<Longrightarrow> get d x = Some File \<Longrightarrow> get d' x = Some File"
  unfolding grows_def by (metis kept_simps(2))

lemma lookup_set_entry [simp]:
  "lookup (set_entry fd name oid d) fd' name' = (if fd' = fd \<and> name' = name then Some oid else lookup d fd' name')"
  by (auto simp: lookup_def set_entry_def entries_def)

lemma lookup_del_entry [simp]:
  "lookup (del_entry fd name d) fd' name' = (if fd' = fd \<and> name' = name then None else lookup d fd' name')"
  by (auto simp: lookup_def del_entry_def entries_def)

lemma get_set_entry: "get (set_entry fd name oid d) x = (if x = fd then Some (Dir (put name oid (entries d fd))) else get d x)"
  by (simp add: set_entry_def)

lemma get_del_entry: "get (del_entry fd name d) x = (if x = fd then Some (Dir (del name (entries d fd))) else get d x)"
  by (simp add: del_entry_def)

lemma grows_set_entry:
  assumes "is_directory d fd" "lookup d fd name = None"
  shows "grows d (set_entry fd name oid d)"
  using assms unfolding grows_def is_directory_get
  by (auto simp: get_set_entry simp del: map_of_eq_Some_iff)

lemma lookup_fresh: "get d x = None \<Longrightarrow> lookup (put x (Dir []) d) fd name = lookup d fd name"
  by (auto simp: lookup_def entries_def)

lemma grows_fresh: "get d x = None \<Longrightarrow> grows d (put x (Dir []) d)"
  unfolding grows_def by (auto simp: lookup_fresh simp del: map_of_eq_Some_iff)

text \<open>Removing an entry that the earlier disk did not have loses nothing of it.\<close>

lemma grows_del_entry:
  assumes "grows d0 d" "is_directory d fd" "lookup d0 fd name = None"
  shows "grows d0 (del_entry fd name d)"
proof -
  have "kept n (get (del_entry fd name d) x)" if "get d0 x = Some n" for x n
    using assms(1,2) that unfolding grows_def is_directory_get
    by (cases "x = fd") (auto simp: get_del_entry kept_def simp del: map_of_eq_Some_iff split: node.splits)
  moreover have "lookup (del_entry fd name d) fd' name' = Some y" if "lookup d0 fd' name' = Some y" for fd' name' y
    using assms(1,3) that unfolding grows_def by auto
  ultimately show ?thesis unfolding grows_def by blast
qed

text \<open>No other process interferes, new directories get new numbers, and \<open>MkdirAll\<close> only adds.\<close>

definition quiet :: "Kernel \<Rightarrow> bool" where
  "quiet k \<longleftrightarrow> (\<forall>n d. knMove k n d = d) \<and> (\<forall>d. get d (knFresh k d) = None) \<and>
     (\<forall>d p. pred_option (grows d) (knMkdirAll k d p))"

lemma ens_sys:
  assumes "quiet k" "\<And>d e. P d \<Longrightarrow> Q (Inl (Errno e)) d"
    and "\<And>d x d' cs. P d \<Longrightarrow> f d = Inr (x, d', cs) \<Longrightarrow> Q (Inr x) d'"
  shows "ens P (sys k f) Q"
  unfolding ens_def
proof (intro allI impI)
  fix m :: Machine assume "P (mcDisk m)"
  then show "Q (fst (sys k f m)) (mcDisk (snd (sys k f m)))"
    using assms by (auto simp: sys_def Let_def quiet_def split: option.split sum.split prod.split)
qed

lemma ens_query:
  assumes "quiet k" "\<And>d e. P d \<Longrightarrow> Q (Inl (Errno e)) d" "\<And>d x. P d \<Longrightarrow> f d = Inr x \<Longrightarrow> Q (Inr x) d"
  shows "ens P (query k f) Q"
  unfolding query_def
  by (rule ens_sys [OF assms(1)]) (use assms(2,3) in \<open>auto simp: map_sum_def split: sum.splits\<close>)

section \<open>What the operations guarantee\<close>

fun walk :: "disk \<Rightarrow> ObjectID \<Rightarrow> string list \<Rightarrow> ObjectID option" where
  "walk d fd [] = Some fd"
| "walk d fd (c # cs) =
     (case lookup d fd c of None \<Rightarrow> None | Some x \<Rightarrow> if is_directory d x then walk d x cs else None)"

lemma walk_mono: "grows d d' \<Longrightarrow> walk d fd cs = Some x \<Longrightarrow> walk d' fd cs = Some x"
proof (induction cs arbitrary: fd)
  case (Cons c cs)
  then obtain y where y: "lookup d fd c = Some y" "is_directory d y" "walk d y cs = Some x"
    by (auto simp del: map_of_eq_Some_iff split: option.splits if_splits)
  have "lookup d' fd c = Some y" using y(1) Cons.prems(1) by (simp add: grows_def)
  with Cons.IH [OF Cons.prems(1) y(3)] grows_directory [OF Cons.prems(1) y(2)] show ?case by simp
qed simp

lemma as_directory_Inr: "as_directory d found = Inr x \<Longrightarrow> found = Some x \<and> is_directory d x"
  by (auto simp: as_directory_def is_directory_def simp del: map_of_eq_Some_iff split: option.splits node.splits)

lemma ens_openat_dir:
  assumes "quiet k"
  shows "ens (\<lambda>d. d = a) (sys_openat_dir k fd name)
    (\<lambda>r d. d = a \<and> (\<forall>x. r = Inr x \<longrightarrow> lookup a fd name = Some x \<and> is_directory a x))"
  unfolding sys_openat_dir_def by (rule ens_query [OF assms]) (auto dest: as_directory_Inr)

lemma ens_open_root:
  assumes "quiet k"
  shows "ens (\<lambda>d. d = a) (open_directory_no_follow k path)
    (\<lambda>r d. d = a \<and> (\<forall>x. r = Inr x \<longrightarrow> knRoot k a path = Some x \<and> is_directory a x))"
  unfolding open_directory_no_follow_def by (rule ens_query [OF assms]) (auto dest: as_directory_Inr)

lemma ens_openat:
  assumes "quiet k"
  shows "ens (\<lambda>d. d = a) (sys_openat k fd name)
    (\<lambda>r d. d = a \<and> (\<forall>x. r = Inr x \<longrightarrow> lookup a fd name = Some x))"
  unfolding sys_openat_def
  by (rule ens_query [OF assms]) (auto simp del: map_of_eq_Some_iff split: option.splits if_splits)

lemma ens_fsync: "quiet k \<Longrightarrow> ens (\<lambda>d. d = a) (sys_fsync k fd) (\<lambda>r d. d = a)"
  unfolding sys_fsync_def by (rule ens_query) auto

lemma ens_verify:
  assumes "quiet k"
  shows "ens (\<lambda>d. d = a) (verify_fd k fd expected)
    (\<lambda>r d. d = a \<and> (\<forall>x. r = Inr x \<longrightarrow> fd = expected \<and> get a expected = Some File))"
proof -
  have st: "ens (\<lambda>d. d = a) (sys_fstat k fd) (\<lambda>r d. d = a \<and> (\<forall>x. r = Inr x \<longrightarrow> fst x = fd \<and> get a fd = Some (snd x)))"
    unfolding sys_fstat_def
    by (rule ens_query [OF assms]) (auto simp del: map_of_eq_Some_iff split: option.splits)
  show ?thesis
    unfolding verify_fd_def
    by (rule ens_bind [OF st]) (auto simp del: map_of_eq_Some_iff intro!: ens_fail ens_ret)
qed

lemma ens_mkdirat:
  assumes "quiet k"
  shows "ens (\<lambda>d. d = a) (sys_mkdirat k fd name) (\<lambda>r d. grows a d)"
  unfolding sys_mkdirat_def
proof (rule ens_sys [OF assms])
  fix d x d' cs
  assume d: "d = a" and f: "(if \<not> is_directory d fd then Inl ENOENT else if lookup d fd name \<noteq> None then Inl EEXIST
      else Inr ((), set_entry fd name (knFresh k d) (put (knFresh k d) (Dir []) d), [MadeDir fd name])) = Inr (x, d', cs)"
  let ?b = "put (knFresh k a) (Dir []) a"
  have fr: "get a (knFresh k a) = None" using assms by (simp add: quiet_def)
  have ok: "is_directory a fd" "lookup a fd name = None" "d' = set_entry fd name (knFresh k a) ?b"
    using f d by (auto split: if_splits)
  have "grows a ?b" by (rule grows_fresh [OF fr])
  moreover have "grows ?b d'"
    unfolding ok(3) by (rule grows_set_entry) (use ok grows_directory [OF \<open>grows a ?b\<close>] lookup_fresh [OF fr] in auto)
  ultimately show "grows a d'" by (rule grows_trans)
qed auto

lemma ens_open_components:
  assumes "quiet k" "is_directory a fd"
  shows "ens (\<lambda>d. d = a) (open_components k create fd parts)
    (\<lambda>r d. grows a d \<and> (\<not> create \<longrightarrow> d = a) \<and> (\<forall>x. r = Inr x \<longrightarrow> walk d fd parts = Some x \<and> is_directory d x))"
  using assms(2)
proof (induction parts arbitrary: a fd)
  case Nil
  then show ?case by (auto intro!: ens_ret)
next
  case (Cons p ps)
  let ?Q = "\<lambda>r d. grows a d \<and> (\<not> create \<longrightarrow> d = a) \<and>
      (\<forall>x. r = Inr x \<longrightarrow> walk d fd (p # ps) = Some x \<and> is_directory d x)"
  have next_dir: "ens (\<lambda>d. d = b) (open_components k create x ps) ?Q"
    if b: "grows a b" "\<not> create \<longrightarrow> b = a" "lookup b fd p = Some x" "is_directory b x" for b x
  proof (rule ens_weaken [OF Cons.IH [OF b(4)]])
    fix r d
    assume r: "grows b d \<and> (\<not> create \<longrightarrow> d = b) \<and> (\<forall>y. r = Inr y \<longrightarrow> walk d x ps = Some y \<and> is_directory d y)"
    then have "lookup d fd p = Some x" "is_directory d x"
      using b grows_directory by (auto simp: grows_def)
    with r b show "?Q r d" using grows_trans by auto
  qed
  have reopen: "ens (\<lambda>d. d = b) (bind_io (sys_openat_dir k fd p) (\<lambda>next. open_components k create next ps)) ?Q"
    if b: "grows a b" "\<not> create \<longrightarrow> b = a" for b
    by (rule ens_bind [OF ens_openat_dir [OF assms(1)]])
      (rule ens_pre, use b next_dir in \<open>auto simp del: map_of_eq_Some_iff\<close>)
  have made: "ens (\<lambda>d. grows a d \<and> create) (case m of
      Inl e \<Rightarrow> if e \<noteq> Errno EEXIST then fail e
        else bind_io (sys_openat_dir k fd p) (\<lambda>next. open_components k create next ps)
    | Inr _ \<Rightarrow> bind_io (sys_fsync k fd) (\<lambda>_.
        bind_io (sys_openat_dir k fd p) (\<lambda>next. open_components k create next ps))) ?Q" for m
  proof (rule ens_pre)
    fix b assume b: "grows a b \<and> create"
    have again: "ens (\<lambda>d. d = b) (bind_io (sys_fsync k fd) (\<lambda>_.
        bind_io (sys_openat_dir k fd p) (\<lambda>next. open_components k create next ps))) ?Q"
      by (rule ens_bind [OF ens_fsync [OF assms(1)]]) (use b reopen in auto)
    show "ens (\<lambda>d. d = b) (case m of
      Inl e \<Rightarrow> if e \<noteq> Errno EEXIST then fail e
        else bind_io (sys_openat_dir k fd p) (\<lambda>next. open_components k create next ps)
    | Inr _ \<Rightarrow> bind_io (sys_fsync k fd) (\<lambda>_.
        bind_io (sys_openat_dir k fd p) (\<lambda>next. open_components k create next ps))) ?Q"
      using b reopen again by (cases m) (auto intro!: ens_fail)
  qed
  show ?case
  proof (cases "p = [] \<or> p = ''.'' \<or> p = ''..''")
    case True
    then show ?thesis by (auto intro!: ens_fail)
  next
    case False
    let ?open = "\<lambda>opened. if opened = Inl (Errno ENOENT) \<and> create then
          attempt (sys_mkdirat k fd p) (\<lambda>made.
            case made of
              Inl e \<Rightarrow>
                if e \<noteq> Errno EEXIST then fail e
                else bind_io (sys_openat_dir k fd p) (\<lambda>next. open_components k create next ps)
            | Inr _ \<Rightarrow>
                bind_io (sys_fsync k fd) (\<lambda>_.
                bind_io (sys_openat_dir k fd p) (\<lambda>next. open_components k create next ps)))
        else case opened of Inl e \<Rightarrow> fail e | Inr next \<Rightarrow> open_components k create next ps"
    have "ens (\<lambda>d. d = a \<and> (\<forall>x. o' = Inr x \<longrightarrow> lookup a fd p = Some x \<and> is_directory a x)) (?open o') ?Q" for o'
    proof (rule ens_pre, goal_cases)
      case (1 d)
      show ?case
      proof (cases "o' = Inl (Errno ENOENT) \<and> create")
        case True
        have mk: "ens (\<lambda>d. d = a) (sys_mkdirat k fd p) (\<lambda>r d. grows a d \<and> create)"
          by (rule ens_weaken [OF ens_mkdirat [OF assms(1)]]) (use True in auto)
        have "d = a" using 1 by simp
        then show ?thesis unfolding if_P [OF True] by (simp only:) (rule ens_attempt [OF mk made])
      next
        case False
        then show ?thesis using 1 next_dir by (cases o') (auto intro!: ens_fail)
      qed
    qed
    with False show ?thesis
      by (simp only: open_components.simps if_False) (rule ens_attempt [OF ens_openat_dir [OF assms(1)]])
  qed
qed

lemma ens_open_relative:
  assumes "quiet k" "is_directory a fd"
  shows "ens (\<lambda>d. d = a) (open_relative_directory k fd r create)
    (\<lambda>res d. grows a d \<and> (\<not> create \<longrightarrow> d = a) \<and>
      (\<forall>x. res = Inr x \<longrightarrow>
        walk d fd (if r = ''.'' \<or> r = [] then [] else split_on CHR ''/'' (clean r)) = Some x \<and> is_directory d x))"
  unfolding open_relative_directory_def
proof (rule ens_bind [where R = "\<lambda>_ d. d = a"])
  show "ens (\<lambda>d. d = a) (query k (\<lambda>_. Inr ())) (\<lambda>_ d. d = a)" by (rule ens_query [OF assms(1)]) auto
qed (use assms ens_open_components [OF assms, of create "split_on CHR ''/'' (clean r)"] in \<open>auto intro!: ens_ret\<close>)

text \<open>After a link was made over a disk \<open>a\<close> that had no entry there.\<close>

definition linked_over :: "disk \<Rightarrow> ObjectID \<Rightarrow> string \<Rightarrow> disk \<Rightarrow> bool" where
  "linked_over a fd name d \<longleftrightarrow> grows a d \<and> lookup a fd name = None \<and> is_directory d fd"

lemma ens_unlink_over:
  assumes "quiet k"
  shows "ens (linked_over a fd name) (raw_unlinkat k fd name) (\<lambda>r d. grows a d)"
  unfolding raw_unlinkat_def
  by (rule ens_sys [OF assms])
    (auto simp: linked_over_def grows_del_entry simp del: map_of_eq_Some_iff split: option.splits if_splits)

lemma ens_undo:
  assumes "quiet k"
  shows "ens (linked_over a fd name) (undo_link k fd name e) (\<lambda>r d. grows a d \<and> (\<exists>e. r = Inl e))"
  unfolding undo_link_def by (rule ens_attempt [OF ens_unlink_over [OF assms]]) (auto intro!: ens_fail)

lemma ens_verify_link:
  assumes "quiet k"
  shows "ens (linked_over a fd name) (verify_link k source fd name expected)
    (\<lambda>r d. grows a d \<and> (\<forall>x. r = Inr x \<longrightarrow> lookup d fd name = Some expected \<and> get d expected = Some File))"
    (is "ens _ _ ?Q")
proof (rule ens_pre)
  fix b assume b: "linked_over a fd name b"
  have undo: "ens (\<lambda>d. d = b) (undo_link k fd name e) ?Q" for e
    by (rule ens_weaken [OF ens_undo [OF assms, of a fd name]]) (use b in auto)
  have gone: "ens (\<lambda>d. d = b) (attempt (raw_unlinkat k fd name) (\<lambda>_. attempt (sys_fsync k fd) (\<lambda>_. fail e))) ?Q" for e
  proof (rule ens_attempt [where R = "\<lambda>_ d. grows a d"])
    show "ens (\<lambda>d. d = b) (raw_unlinkat k fd name) (\<lambda>_ d. grows a d)"
      by (rule ens_weaken [OF ens_unlink_over [OF assms]]) (use b in auto)
    show "ens (\<lambda>d. grows a d) (attempt (sys_fsync k fd) (\<lambda>_. fail e)) ?Q" for r :: "fs_error + unit"
      by (rule ens_pre, rule ens_attempt [OF ens_fsync [OF assms]]) (auto intro!: ens_fail)
  qed
  have kept: "ens (\<lambda>d. d = b) (bind_io (sys_fsync k fd) (\<lambda>_. ret True)) ?Q"
    if "lookup b fd name = Some expected" "get b expected = Some File"
    by (rule ens_bind [OF ens_fsync [OF assms]])
      (use b that in \<open>auto simp: linked_over_def simp del: map_of_eq_Some_iff intro!: ens_ret\<close>)
  have src: "ens (\<lambda>d. d = b \<and> (\<forall>x. s = Inr x \<longrightarrow> source = expected \<and> get b expected = Some File))
      (case s of Inl e \<Rightarrow> attempt (raw_unlinkat k fd name) (\<lambda>_. attempt (sys_fsync k fd) (\<lambda>_. fail e))
        | Inr _ \<Rightarrow> bind_io (sys_fsync k fd) (\<lambda>_. ret True)) ?Q"
    if "lookup b fd name = Some expected" for s
    by (rule ens_pre) (use gone kept that in \<open>cases s; auto simp del: map_of_eq_Some_iff\<close>)
  have ver: "ens (\<lambda>d. d = b \<and> (\<forall>x. v = Inr x \<longrightarrow> t = expected \<and> get b expected = Some File))
      (case v of Inl e \<Rightarrow> undo_link k fd name e
        | Inr _ \<Rightarrow> attempt (verify_fd k source expected) (\<lambda>s. case s of
            Inl e \<Rightarrow> attempt (raw_unlinkat k fd name) (\<lambda>_. attempt (sys_fsync k fd) (\<lambda>_. fail e))
          | Inr _ \<Rightarrow> bind_io (sys_fsync k fd) (\<lambda>_. ret True))) ?Q"
    if t: "lookup b fd name = Some t" for v :: "fs_error + unit" and t
  proof (cases v)
    case (Inl e)
    then show ?thesis using undo [of e] by (auto intro: ens_weaken)
  next
    case (Inr x)
    show ?thesis
      unfolding Inr sum.case
    proof (rule ens_pre)
      fix d
      assume d: "d = b \<and> (\<forall>y. (Inr x :: fs_error + unit) = Inr y \<longrightarrow> t = expected \<and> get b expected = Some File)"
      then have "lookup b fd name = Some expected" using t by simp
      with d show "ens (\<lambda>d'. d' = d) (attempt (verify_fd k source expected) (\<lambda>s. case s of
            Inl e \<Rightarrow> attempt (raw_unlinkat k fd name) (\<lambda>_. attempt (sys_fsync k fd) (\<lambda>_. fail e))
          | Inr _ \<Rightarrow> bind_io (sys_fsync k fd) (\<lambda>_. ret True))) ?Q"
        by (simp only:) (rule ens_attempt [OF ens_verify [OF assms] src])
    qed
  qed
  show "ens (\<lambda>d. d = b) (verify_link k source fd name expected) ?Q"
    unfolding verify_link_def
  proof (rule ens_attempt [OF ens_openat [OF assms]], rule ens_pre, goal_cases)
    case (1 r d)
    show ?case
    proof (cases r)
      case (Inl e)
      then show ?thesis using undo 1 by simp
    next
      case (Inr t)
      then have "lookup b fd name = Some t" "d = b" using 1 by auto
      then show ?thesis unfolding Inr sum.case by (simp only:) (rule ens_attempt [OF ens_verify [OF assms] ver])
    qed
  qed
qed

lemma ens_already_linked:
  assumes "quiet k"
  shows "ens (\<lambda>d. d = a) (already_linked k fd name expected)
    (\<lambda>r d. d = a \<and> (\<forall>x. r = Inr x \<longrightarrow> lookup a fd name = Some expected \<and> get a expected = Some File))"
    (is "ens _ _ ?Q")
proof -
  have ver: "ens (\<lambda>d. d = a \<and> (\<forall>x. v = Inr x \<longrightarrow> t = expected \<and> get a expected = Some File))
      (case v of Inl _ \<Rightarrow> fail ErrExist | Inr _ \<Rightarrow> ret False) ?Q" if "lookup a fd name = Some t"
    for v :: "fs_error + unit" and t
    using that by (cases v) (auto simp del: map_of_eq_Some_iff intro!: ens_fail ens_ret)
  show ?thesis
    unfolding already_linked_def
  proof (rule ens_attempt [OF ens_openat [OF assms]], rule ens_pre, goal_cases)
    case (1 r d)
    show ?case
    proof (cases r)
      case (Inl e)
      then show ?thesis using 1 by (auto intro!: ens_fail)
    next
      case (Inr t)
      then have t: "lookup a fd name = Some t" and d: "d = a" using 1 by auto
      show ?thesis unfolding Inr sum.case d by (rule ens_attempt [OF ens_verify [OF assms] ver [OF t]])
    qed
  qed
qed

lemma ens_link_in:
  assumes "quiet k"
  shows "ens (\<lambda>d. d = a) (link_in k sfd sname fd name expected)
    (\<lambda>r d. grows a d \<and> (\<forall>x. r = Inr x \<longrightarrow> lookup d fd name = Some expected \<and> get d expected = Some File))"
    (is "ens _ _ ?Q")
proof -
  have linkat: "ens (\<lambda>d. d = a) (raw_linkat k sfd sname fd name)
      (\<lambda>r d. (\<forall>e. r = Inl e \<longrightarrow> d = a) \<and> (\<forall>x. r = Inr x \<longrightarrow> linked_over a fd name d))"
    unfolding raw_linkat_def
    by (rule ens_sys [OF assms])
      (auto simp: linked_over_def grows_set_entry grows_directory [OF grows_set_entry]
        simp del: map_of_eq_Some_iff split: option.splits if_splits)
  have after: "ens (\<lambda>d. (\<forall>e. l = Inl e \<longrightarrow> d = a) \<and> (\<forall>x. l = Inr x \<longrightarrow> linked_over a fd name d))
      (case l of Inl e \<Rightarrow> if e = Errno EEXIST then already_linked k fd name expected else fail e
       | Inr _ \<Rightarrow> verify_link k source fd name expected) ?Q" for l :: "fs_error + unit" and source
  proof (cases l)
    case (Inl e)
    have "ens (\<lambda>d. d = a) (already_linked k fd name expected) ?Q"
      by (rule ens_weaken [OF ens_already_linked [OF assms]]) auto
    with Inl show ?thesis by (auto intro!: ens_fail)
  next
    case (Inr x)
    then show ?thesis using ens_verify_link [OF assms, of a fd name source expected] by simp
  qed
  have linked: "ens (\<lambda>d. d = a) (attempt (raw_linkat k sfd sname fd name) (\<lambda>l. case l of
        Inl e \<Rightarrow> if e = Errno EEXIST then already_linked k fd name expected else fail e
      | Inr _ \<Rightarrow> verify_link k source fd name expected)) ?Q" for source
    by (rule ens_attempt [OF linkat after])
  have verified: "ens (\<lambda>d. d = a) (bind_io (verify_fd k source expected) (\<lambda>_.
      attempt (raw_linkat k sfd sname fd name) (\<lambda>l. case l of
        Inl e \<Rightarrow> if e = Errno EEXIST then already_linked k fd name expected else fail e
      | Inr _ \<Rightarrow> verify_link k source fd name expected))) ?Q" for source
    by (rule ens_bind [OF ens_verify [OF assms]]) (rule ens_weaken [OF linked], auto)
  show ?thesis
    unfolding link_in_def
    by (rule ens_bind [OF ens_openat [OF assms]]) (rule ens_weaken [OF verified], auto)
qed

text \<open>The directory components of a relative path, as they are opened.\<close>

definition parent_names :: "string \<Rightarrow> string list" where
  "parent_names r = (if dir r = ''.'' \<or> dir r = [] then [] else split_on CHR ''/'' (clean (dir r)))"

text \<open>What a path below an opened root names, over real directories only.\<close>

definition names_below :: "disk \<Rightarrow> ObjectID \<Rightarrow> string \<Rightarrow> ObjectID option" where
  "names_below d root_fd r =
     (case walk d root_fd (parent_names r) of None \<Rightarrow> None | Some p \<Rightarrow> lookup d p (base r))"

lemma ens_lift: "(\<And>d. P d \<Longrightarrow> Q r d) \<Longrightarrow> ens P (lift_error r) Q"
  by (cases r) (auto simp: lift_error_def intro!: ens_fail ens_ret)

definition linked_result ::
    "Kernel \<Rightarrow> string \<Rightarrow> string \<Rightarrow> string \<Rightarrow> ObjectID \<Rightarrow> disk \<Rightarrow> fs_error + bool \<Rightarrow> disk \<Rightarrow> bool" where
  "linked_result k cwd target_root target_path expected a r d \<longleftrightarrow>
     grows a d \<and>
     (\<forall>b. r = Inr b \<longrightarrow> get d expected = Some File \<and>
        (\<exists>target fd. relative_below cwd target_root target_path = Inr target \<and> knRoot k a target_root = Some fd \<and>
           names_below d fd target = Some expected))"

lemma ens_link_observed:
  assumes "quiet k"
  shows "ens (\<lambda>d. d = a) (link_observed cwd k sr sp tr tp expected) (linked_result k cwd tr tp expected a)"
    (is "ens _ _ ?Q")
  unfolding link_observed_def
proof (rule ens_bind [OF ens_lift [where Q = "\<lambda>r d. d = a \<and> r = relative_below cwd sr sp"]])
  fix source
  show "ens (\<lambda>d. d = a \<and> Inr source = relative_below cwd sr sp)
     (bind_io (lift_error (relative_below cwd tr tp)) (\<lambda>target.
      bind_io (open_directory_no_follow k sr) (\<lambda>source_fd.
      bind_io (open_directory_no_follow k tr) (\<lambda>target_fd.
      bind_io (open_relative_directory k source_fd (dir source) False) (\<lambda>source_parent.
      bind_io (open_relative_directory k target_fd (dir target) True) (\<lambda>target_parent.
        link_in k source_parent (base source) target_parent (base target) expected)))))) ?Q"
  proof (rule ens_bind [OF ens_lift [where Q = "\<lambda>r d. d = a \<and> r = relative_below cwd tr tp"]])
    fix target
    have link: "ens (\<lambda>d. d = b) (link_in k sfd (base source) tfd (base target) expected) ?Q"
      if b: "grows a b" "walk b fd (parent_names target) = Some tfd" "knRoot k a tr = Some fd"
        "relative_below cwd tr tp = Inr target" for b sfd tfd fd
    proof (rule ens_weaken [OF ens_link_in [OF assms]])
      fix r :: "fs_error + bool" and d :: disk
      assume r: "grows b d \<and> (\<forall>x. r = Inr x \<longrightarrow> lookup d tfd (base target) = Some expected \<and> get d expected = Some File)"
      then have "walk d fd (parent_names target) = Some tfd" using b(2) walk_mono by blast
      with r b grows_trans [of a b d] show "?Q r d"
        by (auto simp: linked_result_def names_below_def simp del: map_of_eq_Some_iff)
    qed
    have failed: "?Q (Inl e) d" if "grows a d" for e d using that by (simp add: linked_result_def)
    have target_dir: "ens (\<lambda>d. d = a) (bind_io (open_relative_directory k fd (dir target) True) (\<lambda>tfd.
        link_in k sfd (base source) tfd (base target) expected)) ?Q"
      if "is_directory a fd" "knRoot k a tr = Some fd" "relative_below cwd tr tp = Inr target" for fd sfd
      by (rule ens_bind [OF ens_open_relative [OF assms that(1)]], rule ens_pre)
        (use that link failed in \<open>auto simp: parent_names_def simp del: map_of_eq_Some_iff\<close>)
    have source_dir: "ens (\<lambda>d. d = a) (bind_io (open_relative_directory k sfd (dir source) False) (\<lambda>sp.
        bind_io (open_relative_directory k fd (dir target) True) (\<lambda>tfd.
        link_in k sp (base source) tfd (base target) expected))) ?Q"
      if "is_directory a sfd" "is_directory a fd" "knRoot k a tr = Some fd" "relative_below cwd tr tp = Inr target" for fd sfd
      by (rule ens_bind [OF ens_open_relative [OF assms that(1)]], rule ens_pre)
        (use that target_dir failed in \<open>auto simp del: map_of_eq_Some_iff\<close>)
    have roots: "ens (\<lambda>d. d = a) (bind_io (open_directory_no_follow k tr) (\<lambda>fd.
        bind_io (open_relative_directory k sfd (dir source) False) (\<lambda>sp.
        bind_io (open_relative_directory k fd (dir target) True) (\<lambda>tfd.
        link_in k sp (base source) tfd (base target) expected)))) ?Q"
      if "is_directory a sfd" "relative_below cwd tr tp = Inr target" for sfd
      by (rule ens_bind [OF ens_open_root [OF assms]], rule ens_pre)
        (use that source_dir failed in \<open>auto simp del: map_of_eq_Some_iff\<close>)
    show "ens (\<lambda>d. d = a \<and> Inr target = relative_below cwd tr tp)
       (bind_io (open_directory_no_follow k sr) (\<lambda>source_fd.
        bind_io (open_directory_no_follow k tr) (\<lambda>target_fd.
        bind_io (open_relative_directory k source_fd (dir source) False) (\<lambda>source_parent.
        bind_io (open_relative_directory k target_fd (dir target) True) (\<lambda>target_parent.
          link_in k source_parent (base source) target_parent (base target) expected))))) ?Q"
    proof (rule ens_pre, goal_cases)
      case (1 d)
      then have d: "d = a" "relative_below cwd tr tp = Inr target" by auto
      show ?case
        unfolding d(1)
        by (rule ens_bind [OF ens_open_root [OF assms]], rule ens_pre)
          (use d roots failed in \<open>auto simp del: map_of_eq_Some_iff\<close>)
    qed
  qed (auto simp: linked_result_def)
qed (auto simp: linked_result_def)

section \<open>Removal\<close>

lemma ens_remove_in:
  assumes "quiet k"
  shows "ens (\<lambda>d. d = a) (remove_in k fd name expected)
    (\<lambda>r d. d = a \<or> lookup a fd name = Some expected \<and> get a expected = Some File \<and> d = del_entry fd name a)"
    (is "ens _ _ ?Q")
proof -
  let ?done = "\<lambda>r. case r of Inl e \<Rightarrow> if e = Errno ENOENT then ret () else fail e | Inr _ \<Rightarrow> sys_fsync k fd"
  have unlink: "ens (\<lambda>d. d = a) (raw_unlinkat k fd name) ?Q"
    if "lookup a fd name = Some expected" "get a expected = Some File"
    unfolding raw_unlinkat_def by (rule ens_sys [OF assms]) (use that in \<open>auto split: if_splits\<close>)
  have fin: "ens (?Q r) (?done r) ?Q" for r
    by (rule ens_pre, cases r)
      (auto intro!: ens_ret ens_fail intro: ens_weaken [OF ens_fsync [OF assms]])
  have closing: "ens (\<lambda>d. d = a) (bind_io (query k (\<lambda>_. Inr ())) (\<lambda>_. attempt (raw_unlinkat k fd name) ?done)) ?Q"
    if "lookup a fd name = Some expected" "get a expected = Some File"
  proof (rule ens_bind [where R = "\<lambda>_ d. d = a"])
    show "ens (\<lambda>d. d = a) (query k (\<lambda>_. Inr ())) (\<lambda>_ d. d = a)" by (rule ens_query [OF assms]) auto
    show "ens (\<lambda>d. d = a) (attempt (raw_unlinkat k fd name) ?done) ?Q"
      by (rule ens_attempt [OF unlink fin]) (use that in auto)
  qed auto
  have checked: "ens (\<lambda>d. d = a) (bind_io (verify_fd k t expected) (\<lambda>_.
      bind_io (query k (\<lambda>_. Inr ())) (\<lambda>_. attempt (raw_unlinkat k fd name) ?done))) ?Q"
    if "lookup a fd name = Some t" for t
    by (rule ens_bind [OF ens_verify [OF assms]], rule ens_pre) (use that closing in auto)
  show ?thesis
    unfolding remove_in_def
  proof (rule ens_attempt [OF ens_openat [OF assms]], rule ens_pre, goal_cases)
    case (1 r d)
    then show ?case using checked by (cases r) (auto intro!: ens_ret ens_fail)
  qed
qed

definition removed_only :: "Kernel \<Rightarrow> string \<Rightarrow> string \<Rightarrow> string \<Rightarrow> ObjectID \<Rightarrow> disk \<Rightarrow> disk \<Rightarrow> bool" where
  "removed_only k cwd root path expected a d \<longleftrightarrow> d = a \<or>
     (\<exists>r root_fd fd. relative_below cwd root path = Inr r \<and> knRoot k a root = Some root_fd \<and>
        walk a root_fd (parent_names r) = Some fd \<and> lookup a fd (base r) = Some expected \<and>
        get a expected = Some File \<and> d = del_entry fd (base r) a)"

lemma ens_remove_observed:
  assumes "quiet k"
  shows "ens (\<lambda>d. d = a) (remove_observed_link cwd k root path expected)
    (\<lambda>r d. removed_only k cwd root path expected a d)"
    (is "ens _ _ ?Q")
  unfolding remove_observed_link_def
proof (rule ens_bind [OF ens_lift [where Q = "\<lambda>r d. d = a \<and> r = relative_below cwd root path"]], goal_cases)
  case (2 r)
  have rm: "ens (\<lambda>d. d = a) (remove_in k fd (base r) expected) ?Q"
    if "relative_below cwd root path = Inr r" "knRoot k a root = Some root_fd" "walk a root_fd (parent_names r) = Some fd"
    for fd root_fd
    by (rule ens_weaken [OF ens_remove_in [OF assms]]) (use that in \<open>auto simp: removed_only_def\<close>)
  have parent: "ens (\<lambda>d. d = a) (bind_io (open_relative_directory k root_fd (dir r) False) (\<lambda>parent.
      remove_in k parent (base r) expected)) ?Q"
    if "relative_below cwd root path = Inr r" "knRoot k a root = Some root_fd" "is_directory a root_fd" for root_fd
    by (rule ens_bind [OF ens_open_relative [OF assms that(3)]], rule ens_pre)
      (use that rm in \<open>auto simp: parent_names_def removed_only_def simp del: map_of_eq_Some_iff\<close>)
  show ?case
  proof (rule ens_pre, goal_cases)
    case (1 d)
    then have d: "d = a" "relative_below cwd root path = Inr r" by auto
    show ?case
      unfolding d(1)
      by (rule ens_bind [OF ens_open_root [OF assms]], rule ens_pre)
        (use d parent in \<open>auto simp: removed_only_def simp del: map_of_eq_Some_iff\<close>)
  qed
qed (auto simp: removed_only_def)

text \<open>Only names of the objects in \<open>X\<close>, and empty directories, may go.\<close>

definition spares :: "ObjectID set \<Rightarrow> disk \<Rightarrow> disk \<Rightarrow> bool" where
  "spares X a d \<longleftrightarrow>
     (\<forall>fd name x. lookup a fd name = Some x \<and> \<not> is_directory a x \<and> x \<notin> X \<longrightarrow> lookup d fd name = Some x) \<and>
     (\<forall>x. is_directory d x \<longleftrightarrow> is_directory a x) \<and> (\<forall>x. \<not> is_directory a x \<longrightarrow> get d x = get a x)"

lemma spares_refl [simp]: "spares X a a"
  by (simp add: spares_def)

lemma spares_trans: "spares X a b \<Longrightarrow> spares X b c \<Longrightarrow> spares X a c"
  unfolding spares_def by metis

lemma spares_del:
  assumes "is_directory a fd" "lookup a fd name = Some x" "x \<in> X \<or> is_directory a x"
  shows "spares X a (del_entry fd name a)"
  using assms by (auto simp: spares_def is_directory_get get_del_entry simp del: map_of_eq_Some_iff)

lemma lookup_directory: "lookup a fd name = Some x \<Longrightarrow> is_directory a fd"
  by (auto simp: lookup_def entries_def is_directory_def simp del: map_of_eq_Some_iff split: option.splits node.splits)

lemma removed_only_spares: "removed_only k cwd root path x a d \<Longrightarrow> x \<in> X \<Longrightarrow> spares X a d"
  unfolding removed_only_def
  by (elim disjE exE conjE) (auto intro: spares_del lookup_directory simp del: map_of_eq_Some_iff)

lemma ens_rmdirat:
  assumes "quiet k"
  shows "ens (\<lambda>d. d = a) (raw_rmdirat k fd name) (\<lambda>r d. spares {} a d)"
  unfolding raw_rmdirat_def
proof (rule ens_sys [OF assms])
  fix d x d' cs
  assume d: "d = a" and f: "(case lookup d fd name of None \<Rightarrow> Inl ENOENT
      | Some oid \<Rightarrow> (case get d oid of Some (Dir es) \<Rightarrow> if es \<noteq> [] then Inl ENOTEMPTY
          else Inr ((), del_entry fd name d, [RemovedDir fd name]) | _ \<Rightarrow> Inl ENOTDIR)) = Inr (x, d', cs)"
  then obtain oid es where "lookup a fd name = Some oid" "get a oid = Some (Dir es)" "d' = del_entry fd name a"
    by (auto simp del: map_of_eq_Some_iff split: option.splits node.splits if_splits)
  then show "spares {} a d'" using spares_del [of a fd name oid] lookup_directory by (auto simp: is_directory_def)
qed auto

lemma ens_prune:
  assumes "quiet k"
  shows "ens (\<lambda>d. d = a) (prune_loop n cwd k root current) (\<lambda>r d. spares {} a d)"
proof (induction n arbitrary: a current)
  case 0
  then show ?case by (auto intro!: ens_ret)
next
  case (Suc n)
  have again: "ens (\<lambda>d. spares {} a d) (attempt (sys_fsync k p) (\<lambda>_. prune_loop n cwd k root (dir current))) (\<lambda>r d. spares {} a d)" for p
  proof (rule ens_pre, rule ens_attempt [OF ens_fsync [OF assms]], goal_cases)
    case (1 b r)
    show ?case by (rule ens_weaken [OF Suc.IH [of b]]) (use 1 spares_trans in auto)
  qed
  have removed: "ens (\<lambda>d. spares {} a d) (case r of
        Inl e \<Rightarrow> if e = Errno ENOTEMPTY \<or> e = Errno EEXIST \<or> e = Errno ENOENT then ret () else fail e
      | Inr _ \<Rightarrow> attempt (sys_fsync k p) (\<lambda>_. prune_loop n cwd k root (dir current))) (\<lambda>r d. spares {} a d)"
    for r :: "fs_error + unit" and p
    using again [of p] by (cases r) (auto intro!: ens_ret ens_fail)
  have opened: "ens (\<lambda>d. d = a) (case o' of
        Inl e \<Rightarrow> if e = Errno ENOENT then ret () else fail e
      | Inr p \<Rightarrow> attempt (raw_rmdirat k p (base r)) (\<lambda>removed. case removed of
          Inl e \<Rightarrow> if e = Errno ENOTEMPTY \<or> e = Errno EEXIST \<or> e = Errno ENOENT then ret () else fail e
        | Inr _ \<Rightarrow> attempt (sys_fsync k p) (\<lambda>_. prune_loop n cwd k root (dir current)))) (\<lambda>r d. spares {} a d)" for o' r
  proof (cases o')
    case (Inr p)
    show ?thesis unfolding Inr sum.case by (rule ens_attempt [OF ens_rmdirat [OF assms] removed])
  qed (auto intro!: ens_ret ens_fail)
  have rest: "ens (\<lambda>d. d = a) (bind_io (open_directory_no_follow k root) (\<lambda>root_fd.
        attempt (open_relative_directory k root_fd (dir r) False) (\<lambda>o'. case o' of
          Inl e \<Rightarrow> if e = Errno ENOENT then ret () else fail e
        | Inr p \<Rightarrow> attempt (raw_rmdirat k p (base r)) (\<lambda>removed. case removed of
            Inl e \<Rightarrow> if e = Errno ENOTEMPTY \<or> e = Errno EEXIST \<or> e = Errno ENOENT then ret () else fail e
          | Inr _ \<Rightarrow> attempt (sys_fsync k p) (\<lambda>_. prune_loop n cwd k root (dir current)))))) (\<lambda>r d. spares {} a d)" for r
  proof (rule ens_bind [OF ens_open_root [OF assms]], rule ens_pre, goal_cases)
    case (1 fd d)
    then have d: "d = a" "is_directory a fd" by auto
    have op: "ens (\<lambda>d. d = a) (open_relative_directory k fd (dir r) False) (\<lambda>r d. d = a)"
      by (rule ens_weaken [OF ens_open_relative [OF assms d(2)]]) auto
    show ?case unfolding d(1) by (rule ens_attempt [OF op opened])
  qed auto
  show ?case
  proof (cases "current = root")
    case False
    show ?thesis
      unfolding prune_loop.simps if_not_P [OF False]
      by (rule ens_bind [OF ens_lift [where Q = "\<lambda>r d. d = a"]]) (use rest in auto)
  qed (auto intro!: ens_ret)
qed

lemma ens_remove_empty_parents:
  "quiet k \<Longrightarrow> ens (\<lambda>d. d = a) (remove_empty_parents cwd k root start) (\<lambda>r d. spares {} a d)"
  unfolding remove_empty_parents_def by (rule ens_prune)

lemma ens_run: "ens (\<lambda>d. d = mcDisk m) c Q \<Longrightarrow> c m = (r, m') \<Longrightarrow> Q r (mcDisk m')"
  by (auto simp: ens_def dest: spec [of _ m])

section \<open>The fuel of pruning\<close>

lemma relative_below_root:
  assumes "is_abs root" "is_abs p" "comps p = []" "clean p \<noteq> clean root"
  shows "\<exists>e. relative_below cwd root p = Inl e"
proof -
  have "comps root \<noteq> []" using assms by (auto simp: clean_def)
  then have "\<not> prefix (comps (clean root)) (comps (clean p))" using assms(3) by simp
  then obtain r where "rel (clean root) (clean p) = Some r" "escapes_up r"
    using rel_abs_not_prefix [of "clean root" "clean p"] assms by auto
  then show ?thesis using assms by (auto simp: relative_below_def abs_path_def)
qed

lemma prune_step:
  assumes "is_abs root" "is_abs current" "clean root = root"
    and "comps current = [] \<longrightarrow> clean current = current"
    and "comps current \<noteq> [] \<Longrightarrow> prune_loop n cwd k root (dir current) = prune_loop m cwd k root (dir current)"
  shows "prune_loop (Suc n) cwd k root current = prune_loop (Suc m) cwd k root current"
proof (cases "comps current = []")
  case True
  show ?thesis
  proof (cases "current = root")
    case False
    with assms True obtain e where "relative_below cwd root current = Inl e"
      using relative_below_root [of root current cwd] by auto
    then show ?thesis using False by (simp add: lift_error_def bind_io_def fun_eq_iff fail_def)
  qed simp
next
  case False
  show ?thesis unfolding prune_loop.simps assms(5) [OF False] ..
qed

lemma prune_fuel:
  assumes "is_abs root" "clean root = root"
  shows "is_abs current \<Longrightarrow> clean current = current \<Longrightarrow> length (comps current) < n \<Longrightarrow> length (comps current) < m \<Longrightarrow>
    prune_loop n cwd k root current = prune_loop m cwd k root current"
proof (induction n arbitrary: m current)
  case (Suc n)
  from Suc.prems obtain m' where m: "m = Suc m'" by (cases m) auto
  have pr: "\<forall>c \<in> set (comps current). proper c" using comps_abs_proper [OF Suc.prems(1)] by blast
  have cur: "current = render True (comps current)" using Suc.prems by (simp add: clean_def)
  have d: "dir current = render True (butlast (comps current))" using dir_render [OF pr] cur by simp
  have pr': "\<forall>c \<in> set (butlast (comps current)). proper c" using pr in_set_butlastD by fast
  have nrm: "normal True (butlast (comps current))" using pr' by (auto simp: normal_def)
  have "prune_loop n cwd k root (dir current) = prune_loop m' cwd k root (dir current)" if "comps current \<noteq> []"
  proof (rule Suc.IH)
    have c: "comps (dir current) = butlast (comps current)" using d comps_render [OF nrm] by simp
    show "is_abs (dir current)" using d is_abs_render [OF nrm] by simp
    then show "clean (dir current) = dir current" using c d by (simp add: clean_def)
    show "length (comps (dir current)) < n" "length (comps (dir current)) < m'"
      using c that Suc.prems m by (auto simp: neq_Nil_conv)
  qed
  then show ?case unfolding m using prune_step [OF assms(1) Suc.prems(1) assms(2)] Suc.prems(2) by blast
qed simp

section \<open>The properties\<close>

text \<open>C11. Hardlinking one file (LinkObserved) when nobody else changes the disk, whatever call fails: no name
  that existed is lost or changed, not even when a failed verification makes it undo its own
  link; and when it reports success, new or already there, the target path names the very file
  object that was observed, over real directories below the target root.\<close>

theorem link_observed_keeps:
  assumes "quiet k" and "link_observed cwd k source_root source target_root target expected m = (r, m')"
  shows "linked_result k cwd target_root target expected (mcDisk m) r (mcDisk m')"
  by (rule ens_run [OF ens_link_observed [OF assms(1)] assms(2)])

text \<open>C12. Removing one observed link (RemoveObservedLink) when nobody else changes the disk, whatever call fails: the disk
  stays as it was, or exactly the named entry is gone, and then it named the expected object, a regular file.\<close>

theorem remove_observed_exact:
  assumes "quiet k" and "remove_observed_link cwd k root path expected m = (r, m')"
  shows "removed_only k cwd root path expected (mcDisk m) (mcDisk m')"
  by (rule ens_run [OF ens_remove_observed [OF assms(1)] assms(2)])

text \<open>C31. Pruning empty directories (RemoveEmptyParents) ends: from an absolute start it goes up at most once
  per component and stops at the root or above it, so more turns than the start has components
  make no difference, whatever the kernel answers.\<close>

theorem remove_empty_parents_ends:
  assumes "is_abs root" "is_abs start" "length (comps start) < n"
  shows "remove_empty_parents cwd k root start = prune_loop n cwd k (clean root) (clean start)"
  unfolding remove_empty_parents_def by (rule prune_fuel) (use assms in auto)

lemma remove_empty_parents_ends_witness:
  "\<forall>k. remove_empty_parents ''/'' k ''/lib'' ''/lib/tv/x'' = prune_loop 4 ''/'' k ''/lib'' ''/lib/tv/x''"
proof
  fix k
  have "is_abs ''/lib''" "is_abs ''/lib/tv/x''" "length (comps ''/lib/tv/x'') < 4"
    "clean ''/lib'' = ''/lib''" "clean ''/lib/tv/x'' = ''/lib/tv/x''" by code_simp+
  then show "remove_empty_parents ''/'' k ''/lib'' ''/lib/tv/x'' = prune_loop 4 ''/'' k ''/lib'' ''/lib/tv/x''"
    using remove_empty_parents_ends [of "''/lib''" "''/lib/tv/x''" 4 "''/''" k] by simp
qed

definition node_id :: "nat \<Rightarrow> ObjectID" where
  "node_id n = \<lparr> oidDevice = 1, oidInode = n \<rparr>"

definition sample_kernel :: Kernel where
  "sample_kernel =
     \<lparr> knRoot = (\<lambda>d p. if p = ''/src'' then Some (node_id 1) else if p = ''/lib'' then Some (node_id 2)
         else if p = ''/src/ep'' then Some (node_id 3) else None),
       knFault = (\<lambda>_. None), knMove = (\<lambda>_ d. d),
       knFresh = (\<lambda>d. node_id (Suc (foldr (\<lambda>e. max (oidInode (fst e))) d 0))),
       knMkdirAll = (\<lambda>d _. Some d) \<rparr>"

definition sample_disk :: disk where
  "sample_disk = [(node_id 1, Dir [(''ep'', node_id 3)]), (node_id 2, Dir [(''old'', node_id 3)]), (node_id 3, File)]"

definition machine :: "disk \<Rightarrow> Machine" where
  "machine d = \<lparr> mcDisk = d, mcTick = 0, mcLog = [] \<rparr>"

lemma machine_disk [simp]: "mcDisk (machine d) = d"
  by (simp add: machine_def)

lemma fresh_bound: "(x, v) \<in> set d \<Longrightarrow> oidInode x \<le> foldr (\<lambda>e. max (oidInode (fst e))) d 0"
  by (induction d) auto

lemma quiet_sample: "quiet sample_kernel"
proof -
  have "get d (node_id (Suc (foldr (\<lambda>e. max (oidInode (fst e))) d 0))) = None" for d :: disk
  proof (cases "get d (node_id (Suc (foldr (\<lambda>e. max (oidInode (fst e))) d 0)))")
    case (Some v)
    then have "(node_id (Suc (foldr (\<lambda>e. max (oidInode (fst e))) d 0)), v) \<in> set d" by (rule map_of_SomeD)
    from fresh_bound [OF this] show ?thesis by (simp add: node_id_def)
  qed
  then show ?thesis by (simp add: quiet_def sample_kernel_def)
qed

definition link_run :: "(fs_error + bool) \<times> Machine" where
  "link_run = link_observed ''/'' sample_kernel ''/src'' ''/src/ep'' ''/lib'' ''/lib/tv/ep'' (node_id 3) (machine sample_disk)"

definition remove_run :: "(fs_error + unit) \<times> Machine" where
  "remove_run = remove_observed_link ''/'' sample_kernel ''/lib'' ''/lib/old'' (node_id 3) (machine sample_disk)"

lemma link_run_ok: "fst link_run = Inr True"
  by code_simp

lemma remove_run_ok: "lookup (mcDisk (snd remove_run)) (node_id 2) ''old'' = None"
  by code_simp

lemma link_observed_keeps_witness:
  "linked_result sample_kernel ''/'' ''/lib'' ''/lib/tv/ep'' (node_id 3) sample_disk (Inr True) (mcDisk (snd link_run))"
  using link_observed_keeps [OF quiet_sample, of "''/''" "''/src''" "''/src/ep''" "''/lib''"
      "''/lib/tv/ep''" "node_id 3" "machine sample_disk" "fst link_run" "snd link_run"] link_run_ok
  by (simp add: link_run_def [symmetric] prod_eq_iff)

lemma remove_observed_exact_witness:
  "removed_only sample_kernel ''/'' ''/lib'' ''/lib/old'' (node_id 3) sample_disk (mcDisk (snd remove_run))
   \<and> lookup (mcDisk (snd remove_run)) (node_id 2) ''old'' = None"
  using remove_observed_exact [OF quiet_sample, of "''/''" "''/lib''" "''/lib/old''" "node_id 3"
      "machine sample_disk" "fst remove_run" "snd remove_run"] remove_run_ok
  by (simp add: remove_run_def [symmetric])

end
