(* ===== verification/Publish.thy ===== *)
theory Publish
  imports Organizer Disk
begin

text \<open>
  Package \<open>organizer\<close>, the executing half of plan.go: a plan is applied to the disk link by link,
  and old library names of the published objects are then removed. Both run on the disk of
  theory \<open>Disk\<close>; the errors of the items are collected and joined at the end, so the runs
  themselves always return. A \<open>Run\<close> holds what the runs take from outside: the working directory, whether
  the context has ended at a tick, and the orders in which Go ranges over its two maps.
\<close>

record Result =
  rsScanned :: nat
  rsLinked :: nat
  rsExisting :: nat
  rsRemoved :: nat
  rsExcluded :: nat
  rsUnmatched :: nat
  rsConflicts :: nat

definition empty_result :: Result where
  "empty_result = \<lparr> rsScanned = 0, rsLinked = 0, rsExisting = 0, rsRemoved = 0, rsExcluded = 0,
     rsUnmatched = 0, rsConflicts = 0 \<rparr>"

datatype apply_error =
    BadConfig org_error | DomainError fs_error | ContextEnded
  | PlanEscapes string string | SourceEscapes string | NotThePlannedFile string | SourceChanged string
  | HardlinkUnavailable | LinkFailed string string fs_error
  | OutsideLibrary string string | RemoveFailed string fs_error | PruneFailed string fs_error

record Run =
  ruCwd :: string
  ruEnded :: "nat \<Rightarrow> bool"
  ruObjects :: "ObjectID list \<Rightarrow> ObjectID list"
  ruNames :: "string list \<Rightarrow> string list"

type_synonym outcome = "Result \<times> apply_error list"

definition note_error :: "apply_error \<Rightarrow> outcome \<Rightarrow> outcome" where
  "note_error e s = (fst s, snd s @ [e])"

definition counted :: "(Result \<Rightarrow> Result) \<Rightarrow> outcome \<Rightarrow> outcome" where
  "counted f s = (f (fst s), snd s)"

definition context_ended :: "Run \<Rightarrow> bool io" where
  "context_ended run m = (Inr (ruEnded run (mcTick m)), m)"

section \<open>Applying a plan\<close>

definition source_object :: "PlanItem \<Rightarrow> ObjectID" where
  "source_object it = (case piObject it of None \<Rightarrow> \<lparr> oidDevice = 0, oidInode = 0 \<rparr> | Some oid \<Rightarrow> oid)"

definition is_dir_node :: "node \<Rightarrow> bool" where
  "is_dir_node n = (case n of Dir _ \<Rightarrow> True | _ \<Rightarrow> False)"

text \<open>\<open>realPathWithinRoot\<close>, each component looked at when the loop reaches it.\<close>

fun real_components_now :: "Kernel \<Rightarrow> string \<Rightarrow> string list \<Rightarrow> bool io" where
  "real_components_now k current [] = ret True"
| "real_components_now k current (part # parts) =
     attempt (sys_lstat k (join_path [current, part])) (\<lambda>info. case info of
       Inl e \<Rightarrow> ret (e = Errno ENOENT)
     | Inr (_, n) \<Rightarrow>
         if n = Sym \<or> parts \<noteq> [] \<and> \<not> is_dir_node n then ret False
         else real_components_now k (join_path [current, part]) parts)"

definition real_path_now :: "string \<Rightarrow> Kernel \<Rightarrow> string \<Rightarrow> string \<Rightarrow> bool io" where
  "real_path_now cwd k root path =
     (let root_abs = abs_path cwd root; path_abs = abs_path cwd path
      in if \<not> within_root cwd root_abs path_abs then ret False
         else attempt (sys_lstat k root_abs) (\<lambda>info. case info of
           Inl e \<Rightarrow> ret False
         | Inr (_, n) \<Rightarrow>
             if \<not> is_dir_node n then ret False
             else case rel root_abs path_abs of
                 None \<Rightarrow> ret False
               | Some r \<Rightarrow>
                   if r = ''.'' then ret True else real_components_now k root_abs (split_on CHR ''/'' r)))"

text \<open>\<open>errors.Is(err, fs.ErrExist)\<close> also holds of the system's own numbers.\<close>

definition is_exist :: "fs_error \<Rightarrow> bool" where
  "is_exist e \<longleftrightarrow> e = ErrExist \<or> e = Errno EEXIST \<or> e = Errno ENOTEMPTY"

definition link_outcome :: "PlanItem \<Rightarrow> fs_error + bool \<Rightarrow> outcome \<Rightarrow> outcome" where
  "link_outcome it r s =
     (case r of
        Inl e \<Rightarrow>
          if e = Errno EXDEV then note_error HardlinkUnavailable s
          else note_error (LinkFailed (piSource it) (piDestination it) e)
                 (if is_exist e then counted (rsConflicts_update Suc) s else s)
      | Inr created \<Rightarrow>
          if created then counted (rsLinked_update Suc) s else counted (rsExisting_update Suc) s)"

definition apply_link :: "Run \<Rightarrow> Kernel \<Rightarrow> OrgConfig \<Rightarrow> PlanItem \<Rightarrow> outcome \<Rightarrow> outcome io" where
  "apply_link run k cfg it s =
     (if \<not> within_root (ruCwd run) (ocSource cfg) (piSource it) \<or>
         \<not> within_root (ruCwd run) (ocTarget cfg) (piDestination it)
      then ret (note_error (PlanEscapes (piSource it) (piDestination it)) s)
      else bind_io (real_path_now (ruCwd run) k (ocSource cfg) (piSource it)) (\<lambda>real.
        if \<not> real then ret (note_error (SourceEscapes (piSource it)) s)
        else attempt (sys_lstat k (piSource it)) (\<lambda>info. case info of
          Inl e \<Rightarrow> ret (note_error (NotThePlannedFile (piSource it)) s)
        | Inr (oid, n) \<Rightarrow>
            if n \<noteq> File then ret (note_error (NotThePlannedFile (piSource it)) s)
            else if oid \<noteq> source_object it
              then ret (note_error (SourceChanged (piSource it)) (counted (rsConflicts_update Suc) s))
            else attempt (link_observed (ruCwd run) k (ocSource cfg) (piSource it) (ocTarget cfg)
                (piDestination it) (source_object it)) (\<lambda>r. ret (link_outcome it r s)))))"

definition apply_item :: "Run \<Rightarrow> Kernel \<Rightarrow> OrgConfig \<Rightarrow> PlanItem \<Rightarrow> outcome \<Rightarrow> outcome io" where
  "apply_item run k cfg it s =
     (case piAction it of
        ActionExisting \<Rightarrow> ret (counted (rsExisting_update Suc) s)
      | ActionUnmatched \<Rightarrow> ret (counted (rsUnmatched_update Suc) s)
      | ActionExcluded \<Rightarrow> ret (counted (rsExcluded_update Suc) s)
      | ActionConflict \<Rightarrow> ret (counted (rsConflicts_update Suc) s)
      | ActionLink \<Rightarrow> apply_link run k cfg it s)"

fun apply_items :: "Run \<Rightarrow> Kernel \<Rightarrow> OrgConfig \<Rightarrow> PlanItem list \<Rightarrow> outcome \<Rightarrow> outcome io" where
  "apply_items run k cfg [] s = ret s"
| "apply_items run k cfg (it # its) s =
     bind_io (context_ended run) (\<lambda>ended.
       if ended then ret (note_error ContextEnded s)
       else bind_io (apply_item run k cfg it (counted (rsScanned_update Suc) s)) (apply_items run k cfg its))"

definition apply_plan :: "Run \<Rightarrow> Kernel \<Rightarrow> OrgConfig \<Rightarrow> Plan \<Rightarrow> outcome io" where
  "apply_plan run k cfg plan =
     (case validate_config (ruCwd run) cfg of
        Some e \<Rightarrow> ret (empty_result, [BadConfig e])
      | None \<Rightarrow>
          attempt (if \<exists>it \<in> set (plItems plan). piAction it = ActionLink
                   then ensure_hardlink_domain k (ocSource cfg) (ocTarget cfg) else ret ()) (\<lambda>domain.
            case domain of
              Inl e \<Rightarrow> ret (empty_result, [DomainError e])
            | Inr _ \<Rightarrow> apply_items run k cfg (plItems plan) (empty_result, [])))"

section \<open>Removing old names of published objects\<close>

definition desire :: "PlanItem \<Rightarrow> (ObjectID, string list) gomap \<Rightarrow> (ObjectID, string list) gomap" where
  "desire it m =
     (let oid = source_object it; names = get_or [] m oid
      in if oid = \<lparr> oidDevice = 0, oidInode = 0 \<rparr> then m
         else if piAction it = ActionExcluded then put oid names m
         else if piDestination it = [] \<or> piAction it \<noteq> ActionLink \<and> piAction it \<noteq> ActionExisting then m
         else put oid (List.insert (clean (piDestination it)) names) m)"

definition desired :: "Plan \<Rightarrow> (ObjectID, string list) gomap" where
  "desired plan = fold desire (plItems plan) []"

text \<open>Whether every destination, in the order Go ranges over them, names the object.\<close>

fun proven :: "Kernel \<Rightarrow> ObjectID \<Rightarrow> string list \<Rightarrow> bool io" where
  "proven k oid [] = ret True"
| "proven k oid (destination # rest) =
     attempt (sys_lstat k destination) (\<lambda>info.
       if info = Inr (oid, File) then proven k oid rest else ret False)"

type_synonym cleanup = "nat \<times> apply_error list"

definition remove_stale :: "Run \<Rightarrow> Kernel \<Rightarrow> string \<Rightarrow> ObjectID \<Rightarrow> string \<Rightarrow> cleanup \<Rightarrow> cleanup io" where
  "remove_stale run k root oid stale s =
     attempt (remove_observed_link (ruCwd run) k root stale oid) (\<lambda>r. case r of
       Inl e \<Rightarrow> ret (fst s, snd s @ [RemoveFailed stale e])
     | Inr _ \<Rightarrow>
         attempt (remove_empty_parents (ruCwd run) k root (dir stale)) (\<lambda>p. case p of
           Inl e \<Rightarrow> ret (Suc (fst s), snd s @ [PruneFailed stale e])
         | Inr _ \<Rightarrow> ret (Suc (fst s), snd s)))"

fun remove_aliases ::
    "Run \<Rightarrow> Kernel \<Rightarrow> string \<Rightarrow> ObjectID \<Rightarrow> string list \<Rightarrow> string list \<Rightarrow> cleanup \<Rightarrow> cleanup io" where
  "remove_aliases run k root oid destinations [] s = ret s"
| "remove_aliases run k root oid destinations (path # paths) s =
     (let stale = clean path
      in if stale \<in> set destinations \<or> \<not> within_root (ruCwd run) root stale
         then remove_aliases run k root oid destinations paths s
         else bind_io (remove_stale run k root oid stale s) (remove_aliases run k root oid destinations paths))"

definition converge_object ::
    "Run \<Rightarrow> Kernel \<Rightarrow> string \<Rightarrow> Snapshot \<Rightarrow> ObjectID \<Rightarrow> string list \<Rightarrow> cleanup \<Rightarrow> cleanup io" where
  "converge_object run k root library oid destinations s =
     bind_io (proven k oid (ruNames run destinations)) (\<lambda>ok.
       if \<not> ok then ret s
       else case get (snObjects library) oid of
           None \<Rightarrow> ret s
         | Some object \<Rightarrow> remove_aliases run k root oid destinations (oPaths object) s)"

fun converge_objects ::
    "Run \<Rightarrow> Kernel \<Rightarrow> string \<Rightarrow> Snapshot \<Rightarrow> (ObjectID, string list) gomap \<Rightarrow> ObjectID list \<Rightarrow> cleanup \<Rightarrow> cleanup io" where
  "converge_objects run k root library wanted [] s = ret s"
| "converge_objects run k root library wanted (oid # oids) s =
     bind_io (context_ended run) (\<lambda>ended.
       if ended then ret (fst s, snd s @ [ContextEnded])
       else bind_io (converge_object run k root library oid (get_or [] wanted oid) s)
         (converge_objects run k root library wanted oids))"

definition converge_aliases :: "Run \<Rightarrow> Kernel \<Rightarrow> OrgConfig \<Rightarrow> Plan \<Rightarrow> Snapshot \<Rightarrow> cleanup io" where
  "converge_aliases run k cfg plan library =
     (let root = clean (ocPublicationRoot cfg)
      in if \<not> ocManaged cfg \<or> trim_space (ocPublicationRoot cfg) = [] then ret (0, [])
         else if snRoot library = [] \<or> \<not> within_root (ruCwd run) (snRoot library) root
           then ret (0, [OutsideLibrary root (snRoot library)])
         else converge_objects run k root library (desired plan) (ruObjects run (keys (desired plan))) (0, []))"

definition apply_plan_with_library :: "Run \<Rightarrow> Kernel \<Rightarrow> OrgConfig \<Rightarrow> Plan \<Rightarrow> Snapshot \<Rightarrow> outcome io" where
  "apply_plan_with_library run k cfg plan library =
     bind_io (apply_plan run k cfg plan) (\<lambda>(res, errs).
     bind_io (converge_aliases run k cfg plan library) (\<lambda>(removed, cleanup).
       ret (res\<lparr> rsRemoved := rsRemoved res + removed \<rparr>, errs @ cleanup)))"

section \<open>What applying a plan does to the disk\<close>

lemma ens_lstat:
  assumes "quiet k"
  shows "ens (\<lambda>d. d = a) (sys_lstat k p) (\<lambda>r d. d = a \<and> (\<forall>x n. r = Inr (x, n) \<longrightarrow> get a x = Some n))"
  unfolding sys_lstat_def
  by (rule ens_query [OF assms]) (auto simp del: map_of_eq_Some_iff split: option.splits)

lemma ens_lstat_same: "quiet k \<Longrightarrow> ens (\<lambda>d. d = a) (sys_lstat k p) (\<lambda>r d. d = a)"
  by (rule ens_weaken [OF ens_lstat]) auto

lemma ens_real_components:
  "quiet k \<Longrightarrow> ens (\<lambda>d. d = a) (real_components_now k current parts) (\<lambda>r d. d = a \<and> (\<exists>b. r = Inr b))"
proof (induction parts arbitrary: current)
  case (Cons p ps)
  show ?case
    unfolding real_components_now.simps
  proof (rule ens_attempt [OF ens_lstat_same [OF Cons.prems]], goal_cases)
    case (1 r)
    then show ?case using Cons.IH [OF Cons.prems] by (cases r) (auto intro!: ens_ret split: prod.split)
  qed
qed (auto intro!: ens_ret)

lemma ens_real_path:
  assumes "quiet k"
  shows "ens (\<lambda>d. d = a) (real_path_now cwd k root path) (\<lambda>r d. d = a \<and> (\<exists>b. r = Inr b))"
proof (cases "within_root cwd (abs_path cwd root) (abs_path cwd path)")
  case True
  have "ens (\<lambda>d. d = a) (attempt (sys_lstat k (abs_path cwd root)) (\<lambda>info. case info of
           Inl e \<Rightarrow> ret False
         | Inr (_, n) \<Rightarrow>
             if \<not> is_dir_node n then ret False
             else case rel (abs_path cwd root) (abs_path cwd path) of
                 None \<Rightarrow> ret False
               | Some r \<Rightarrow>
                   if r = ''.'' then ret True
                   else real_components_now k (abs_path cwd root) (split_on CHR ''/'' r)))
         (\<lambda>r d. d = a \<and> (\<exists>b. r = Inr b))"
  proof (rule ens_attempt [OF ens_lstat_same [OF assms]], goal_cases)
    case (1 r)
    show ?case using ens_real_components [OF assms]
      by (cases r) (auto intro!: ens_ret split: prod.split option.split)
  qed
  with True show ?thesis by (simp add: real_path_now_def Let_def)
qed (auto simp: real_path_now_def Let_def intro!: ens_ret)

lemma names_below_mono: "grows b d \<Longrightarrow> names_below b fd r = Some x \<Longrightarrow> names_below d fd r = Some x"
  by (auto simp: names_below_def grows_def walk_mono simp del: map_of_eq_Some_iff split: option.splits)

lemma ens_ensure_domain:
  assumes "quiet k"
  shows "ens (\<lambda>d. d = a) (ensure_hardlink_domain k source target) (\<lambda>r d. grows a d)"
proof -
  have mk: "ens (grows a) (mkdir_all k p) (\<lambda>_. grows a)" for p
    unfolding mkdir_all_def
    by (rule ens_sys [OF assms], use assms in
        \<open>auto simp: quiet_def pred_option_def intro: grows_trans split: option.splits\<close>)
  have ob: "ens (grows a) (observe_directory k p) (\<lambda>_. grows a)" for p
    unfolding observe_directory_def
    by (rule ens_pre, rule ens_bind [OF ens_lstat_same [OF assms]])
      (auto intro!: ens_ret ens_fail split: node.split)
  show ?thesis
    unfolding ensure_hardlink_domain_def validate_hardlink_domain_def
    by (rule ens_weaken [where P = "grows a" and Q = "\<lambda>_. grows a"])
      (auto intro!: ens_bind [OF mk] ens_bind [OF ob] ens_ret ens_fail)
qed

text \<open>The destination of an item names its object, over real directories below the target root as
  the root resolved during the run.\<close>

definition published :: "Kernel \<Rightarrow> string \<Rightarrow> string \<Rightarrow> disk \<Rightarrow> PlanItem \<Rightarrow> disk \<Rightarrow> bool" where
  "published k cwd target a it d \<longleftrightarrow>
     get d (source_object it) = Some File \<and>
     (\<exists>b r fd. grows a b \<and> grows b d \<and> relative_below cwd target (piDestination it) = Inr r \<and>
        knRoot k b target = Some fd \<and> names_below d fd r = Some (source_object it))"

lemma published_later: "published k cwd target a it d \<Longrightarrow> grows d d' \<Longrightarrow> published k cwd target a it d'"
  unfolding published_def by (meson grows_file grows_trans names_below_mono)

lemma published_earlier: "published k cwd target a it d \<Longrightarrow> grows a0 a \<Longrightarrow> published k cwd target a0 it d"
  unfolding published_def by (meson grows_trans)

definition tally :: "Result \<Rightarrow> nat" where
  "tally r = rsLinked r + rsExisting r + rsExcluded r + rsUnmatched r + rsConflicts r"

text \<open>Every item that was scanned is counted once, or left an error, or (a conflict at run time) both.\<close>

definition booked :: "outcome \<Rightarrow> outcome \<Rightarrow> bool" where
  "booked s s' \<longleftrightarrow> prefix (snd s) (snd s') \<and>
     tally (fst s') + rsScanned (fst s) \<le> tally (fst s) + rsScanned (fst s') \<and>
     rsScanned (fst s') + tally (fst s) + length (snd s) \<le> rsScanned (fst s) + tally (fst s') + length (snd s')"

lemma booked_refl [simp]: "booked s s"
  by (simp add: booked_def)

lemma booked_trans: "booked s t \<Longrightarrow> booked t u \<Longrightarrow> booked s u"
  by (auto simp: booked_def dest: prefix_order.trans)

definition links_done :: "Run \<Rightarrow> Kernel \<Rightarrow> OrgConfig \<Rightarrow> disk \<Rightarrow> PlanItem list \<Rightarrow> outcome \<Rightarrow> fs_error + outcome \<Rightarrow> disk \<Rightarrow> bool" where
  "links_done run k cfg a items s r d \<longleftrightarrow> grows a d \<and>
     (\<exists>s'. r = Inr s' \<and> booked s s' \<and>
        (snd s' = snd s \<longrightarrow> (\<forall>it \<in> set items. piAction it = ActionLink \<longrightarrow>
           published k (ruCwd run) (ocTarget cfg) a it d)))"

lemmas booking = booked_def counted_def tally_def note_error_def

lemma links_done_ret:
  "booked s s' \<Longrightarrow> snd s' = snd s \<Longrightarrow> piAction it \<noteq> ActionLink \<Longrightarrow>
   ens (\<lambda>d. d = a) (ret s') (links_done run k cfg a [it] s)"
  by (auto intro!: ens_ret simp: links_done_def)

lemma links_done_error:
  "booked s s' \<Longrightarrow> snd s' \<noteq> snd s \<Longrightarrow> grows a d \<Longrightarrow> links_done run k cfg a items s (Inr s') d"
  by (auto simp: links_done_def)

lemma booked_link:
  "booked s (note_error e (counted (rsScanned_update Suc) s))"
  "booked s (note_error e (counted (rsConflicts_update Suc) (counted (rsScanned_update Suc) s)))"
  "booked s (link_outcome it r (counted (rsScanned_update Suc) s))"
  by (auto simp: booking link_outcome_def split: sum.split)

lemma link_outcome_errors:
  "snd (link_outcome it (Inl e) s) \<noteq> snd s" "snd (link_outcome it (Inr b) s) = snd s"
  by (auto simp: link_outcome_def counted_def note_error_def)

lemma ens_apply_link:
  assumes "quiet k" "piAction it = ActionLink"
  shows "ens (\<lambda>d. d = a) (apply_link run k cfg it (counted (rsScanned_update Suc) s)) (links_done run k cfg a [it] s)"
proof -
  let ?s = "counted (rsScanned_update Suc) s"
  have err: "links_done run k cfg a [it] s (Inr (note_error e ?s)) a" for e
    by (rule links_done_error [OF booked_link(1)]) (simp_all add: note_error_def counted_def)
  have conflict: "links_done run k cfg a [it] s (Inr (note_error e (counted (rsConflicts_update Suc) ?s))) a" for e
    by (rule links_done_error [OF booked_link(2)]) (simp_all add: note_error_def counted_def)
  have link: "ens (\<lambda>d. d = a) (attempt (link_observed (ruCwd run) k (ocSource cfg) (piSource it) (ocTarget cfg)
      (piDestination it) (source_object it)) (\<lambda>r. ret (link_outcome it r ?s))) (links_done run k cfg a [it] s)"
  proof (rule ens_attempt [OF ens_link_observed [OF assms(1)]], rule ens_ret)
    fix r d assume l: "linked_result k (ruCwd run) (ocTarget cfg) (piDestination it) (source_object it) a r d"
    have "published k (ruCwd run) (ocTarget cfg) a it d" if "r = Inr b" for b
      using l that unfolding linked_result_def published_def by (metis grows_refl)
    moreover have "snd (link_outcome it r ?s) = snd s \<Longrightarrow> \<exists>b. r = Inr b"
      using link_outcome_errors(1) [of it _ ?s] by (cases r) (auto simp: counted_def)
    ultimately show "links_done run k cfg a [it] s (Inr (link_outcome it r ?s)) d"
      using l by (auto simp: links_done_def linked_result_def booked_link)
  qed
  have stat: "ens (\<lambda>d. d = a) (attempt (sys_lstat k (piSource it)) (\<lambda>info. case info of
          Inl e \<Rightarrow> ret (note_error (NotThePlannedFile (piSource it)) ?s)
        | Inr (oid, n) \<Rightarrow>
            if n \<noteq> File then ret (note_error (NotThePlannedFile (piSource it)) ?s)
            else if oid \<noteq> source_object it
              then ret (note_error (SourceChanged (piSource it)) (counted (rsConflicts_update Suc) ?s))
            else attempt (link_observed (ruCwd run) k (ocSource cfg) (piSource it) (ocTarget cfg)
                (piDestination it) (source_object it)) (\<lambda>r. ret (link_outcome it r ?s))))
      (links_done run k cfg a [it] s)"
  proof (rule ens_attempt [OF ens_lstat_same [OF assms(1)]], goal_cases)
    case (1 r)
    show ?case using err conflict link by (cases r) (auto intro!: ens_ret split: prod.split)
  qed
  show ?thesis
    unfolding apply_link_def
  proof (cases "\<not> within_root (ruCwd run) (ocSource cfg) (piSource it) \<or> \<not> within_root (ruCwd run) (ocTarget cfg) (piDestination it)", goal_cases)
    case 1
    then show ?case using err by (auto intro!: ens_ret)
  next
    case 2
    show ?case unfolding if_not_P [OF 2]
      by (rule ens_bind [OF ens_real_path [OF assms(1)]], rule ens_pre)
        (use err stat in \<open>auto intro!: ens_ret\<close>)
  qed
qed

lemma ens_apply_item:
  assumes "quiet k"
  shows "ens (\<lambda>d. d = a) (apply_item run k cfg it (counted (rsScanned_update Suc) s)) (links_done run k cfg a [it] s)"
proof (cases "piAction it = ActionLink")
  case True
  with ens_apply_link [OF assms] show ?thesis by (simp add: apply_item_def)
next
  case False
  then show ?thesis
    by (cases "piAction it") (auto simp: apply_item_def booking intro!: links_done_ret)
qed

lemma links_done_more:
  assumes "links_done run k cfg a [it] s (Inr s') b" "links_done run k cfg b items s' r d"
  shows "links_done run k cfg a (it # items) s r d"
proof -
  from assms(2) obtain s'' where s: "r = Inr s''" "booked s' s''" "grows b d"
    "snd s'' = snd s' \<longrightarrow> (\<forall>it \<in> set items. piAction it = ActionLink \<longrightarrow> published k (ruCwd run) (ocTarget cfg) b it d)"
    by (auto simp: links_done_def)
  from assms(1) have i: "booked s s'" "grows a b"
    "snd s' = snd s \<longrightarrow> piAction it = ActionLink \<longrightarrow> published k (ruCwd run) (ocTarget cfg) a it b"
    by (auto simp: links_done_def)
  have "snd s' = snd s \<and> snd s'' = snd s'" if "snd s'' = snd s"
    using i(1) s(2) that by (metis booked_def prefix_order.antisym)
  moreover have "booked s s''" "grows a d" using i s booked_trans grows_trans by blast+
  moreover have "published k (ruCwd run) (ocTarget cfg) a it' d"
    if "snd s' = snd s" "snd s'' = snd s'" "it' \<in> set (it # items)" "piAction it' = ActionLink" for it'
    using that i(3) s(4) published_later [OF _ s(3)] published_earlier [OF _ i(2)] by auto
  ultimately show ?thesis
    unfolding links_done_def s(1) by blast
qed

lemma ens_apply_items:
  "quiet k \<Longrightarrow> ens (\<lambda>d. d = a) (apply_items run k cfg items s) (links_done run k cfg a items s)"
proof (induction items arbitrary: a s)
  case Nil
  show ?case
    unfolding apply_items.simps by (rule ens_ret) (simp add: links_done_def del: split_paired_Ex)
next
  case (Cons it items)
  have ctx: "ens (\<lambda>d. d = a) (context_ended run) (\<lambda>r d. d = a \<and> (\<exists>b. r = Inr b))"
    by (simp add: ens_def context_ended_def)
  have stop: "links_done run k cfg a (it # items) s (Inr (note_error ContextEnded s)) a"
    by (rule links_done_error) (auto simp: booking)
  have one: "ens (\<lambda>d. d = a) (bind_io (apply_item run k cfg it (counted (rsScanned_update Suc) s))
      (apply_items run k cfg items)) (links_done run k cfg a (it # items) s)"
  proof (rule ens_bind [OF ens_apply_item [OF Cons.prems]], rule ens_pre)
    fix s' b assume "links_done run k cfg a [it] s (Inr s') b"
    then show "ens (\<lambda>d. d = b) (apply_items run k cfg items s') (links_done run k cfg a (it # items) s)"
      by (intro ens_weaken [OF Cons.IH [OF Cons.prems, of b s']]) (auto intro: links_done_more)
  qed (auto simp: links_done_def)
  show ?case
    unfolding apply_items.simps
    by (rule ens_bind [OF ctx], rule ens_pre) (use stop one in \<open>auto intro!: ens_ret\<close>)
qed

lemma ens_apply_plan:
  assumes "quiet k"
  shows "ens (\<lambda>d. d = a) (apply_plan run k cfg plan) (links_done run k cfg a (plItems plan) (empty_result, []))"
proof (cases "validate_config (ruCwd run) cfg")
  case None
  let ?Q = "links_done run k cfg a (plItems plan) (empty_result, [])"
  have bad: "?Q (Inr (empty_result, [e])) d" if "grows a d" for e d
    by (rule links_done_error) (use that in \<open>auto simp: booking\<close>)
  have go: "ens (grows a) (apply_items run k cfg (plItems plan) (empty_result, [])) ?Q"
  proof (rule ens_pre)
    fix b assume b: "grows a b"
    have "?Q r d" if "links_done run k cfg b (plItems plan) (empty_result, []) r d" for r d
      using that grows_trans [OF b] published_earlier [OF _ b] unfolding links_done_def by blast
    then show "ens (\<lambda>d'. d' = b) (apply_items run k cfg (plItems plan) (empty_result, [])) ?Q"
      by (intro ens_weaken [OF ens_apply_items [OF assms, of b]])
  qed
  have dom: "ens (\<lambda>d. d = a) (if p then ensure_hardlink_domain k (ocSource cfg) (ocTarget cfg) else ret ()) (\<lambda>_. grows a)" for p
    using ens_ensure_domain [OF assms] by (auto intro!: ens_ret)
  have after: "ens (grows a) (case domain of Inl e \<Rightarrow> ret (empty_result, [DomainError e])
      | Inr _ \<Rightarrow> apply_items run k cfg (plItems plan) (empty_result, [])) ?Q" for domain :: "fs_error + unit"
    using go bad by (cases domain) (auto intro!: ens_ret)
  show ?thesis
    unfolding apply_plan_def None option.case by (rule ens_attempt [OF dom after])
qed (auto simp: apply_plan_def intro!: ens_ret links_done_error simp: booking)

section \<open>What removing old names does to the disk\<close>

definition proven_at :: "Kernel \<Rightarrow> disk \<Rightarrow> ObjectID \<Rightarrow> string list \<Rightarrow> bool" where
  "proven_at k d oid names \<longleftrightarrow> (\<forall>p \<in> set names. knRoot k d p = Some oid \<and> get d oid = Some File)"

lemma ens_lstat_found:
  assumes "quiet k"
  shows "ens (\<lambda>d. d = a) (sys_lstat k p) (\<lambda>r d. d = a \<and> (\<forall>x n. r = Inr (x, n) \<longrightarrow> knRoot k a p = Some x \<and> get a x = Some n))"
  unfolding sys_lstat_def
  by (rule ens_query [OF assms]) (auto simp del: map_of_eq_Some_iff split: option.splits)

lemma ens_proven:
  "quiet k \<Longrightarrow> ens (\<lambda>d. d = a) (proven k oid names) (\<lambda>r d. d = a \<and> (\<exists>b. r = Inr b \<and> (b \<longrightarrow> proven_at k a oid names)))"
proof (induction names)
  case (Cons p ps)
  show ?case
    unfolding proven.simps
  proof (rule ens_attempt [OF ens_lstat_found [OF Cons.prems]], rule ens_pre, goal_cases)
    case (1 r d)
    show ?case
    proof (cases "r = Inr (oid, File)")
      case True
      show ?thesis unfolding if_P [OF True]
        by (rule ens_weaken [OF Cons.IH [OF Cons.prems]]) (use 1 True in \<open>auto simp: proven_at_def\<close>)
    qed (use 1 in \<open>auto intro!: ens_ret\<close>)
  qed
qed (auto intro!: ens_ret simp: proven_at_def)

lemma spares_mono: "spares X a d \<Longrightarrow> X \<subseteq> Y \<Longrightarrow> spares Y a d"
  unfolding spares_def by blast

text \<open>The loops of the cleanup always return, and only names of \<open>X\<close> and empty directories are gone.\<close>

definition converging :: "ObjectID set \<Rightarrow> disk \<Rightarrow> fs_error + 'a \<Rightarrow> disk \<Rightarrow> bool" where
  "converging X a r d \<longleftrightarrow> spares X a d \<and> \<not> isl r"

lemma converging_simps [simp]: "converging X a (Inr s) = spares X a" "\<not> converging X a (Inl e) d"
  by (simp_all add: converging_def fun_eq_iff)

lemma ens_at: "ens P c Q \<Longrightarrow> P b \<Longrightarrow> ens (\<lambda>d. d = b) c Q"
  by (simp add: ens_def)

lemma ens_remove_stale:
  assumes "quiet k" "oid \<in> X"
  shows "ens (spares X a) (remove_stale run k root oid stale s) (converging X a)"
  unfolding remove_stale_def
proof (rule ens_pre, rule ens_attempt [OF ens_remove_observed [OF assms(1)]], goal_cases)
  case (1 b r)
  have pruned: "ens (spares X a) (case p of Inl e \<Rightarrow> ret (Suc (fst s), snd s @ [PruneFailed stale e]) | Inr _ \<Rightarrow> ret (Suc (fst s), snd s))
      (converging X a)" for p :: "fs_error + unit"
    by (cases p) (auto intro!: ens_ret)
  have prune: "ens (\<lambda>d. d = c) (remove_empty_parents (ruCwd run) k root (dir stale)) (\<lambda>_. spares X a)"
    if "spares X a c" for c
    by (rule ens_weaken [OF ens_remove_empty_parents [OF assms(1)]])
      (use that spares_trans spares_mono [of "{}" c _ X] in auto)
  show ?case
  proof (rule ens_pre)
    fix d assume "removed_only k (ruCwd run) root stale oid b d"
    then have d: "spares X a d" using 1 removed_only_spares [OF _ assms(2)] spares_trans by blast
    show "ens (\<lambda>d'. d' = d) (case r of Inl e \<Rightarrow> ret (fst s, snd s @ [RemoveFailed stale e])
       | Inr _ \<Rightarrow> attempt (remove_empty_parents (ruCwd run) k root (dir stale)) (\<lambda>p. case p of
           Inl e \<Rightarrow> ret (Suc (fst s), snd s @ [PruneFailed stale e])
         | Inr _ \<Rightarrow> ret (Suc (fst s), snd s))) (converging X a)"
      using d ens_attempt [OF prune [OF d] pruned] by (cases r) (auto intro!: ens_ret)
  qed
qed

lemma ens_remove_aliases:
  "quiet k \<Longrightarrow> oid \<in> X \<Longrightarrow>
   ens (spares X a) (remove_aliases run k root oid destinations paths s) (converging X a)"
proof (induction paths arbitrary: s)
  case (Cons p ps)
  have "ens (spares X a) (bind_io (remove_stale run k root oid stale s) (remove_aliases run k root oid destinations ps))
      (converging X a)" for stale
    by (rule ens_bind [OF ens_remove_stale [OF Cons.prems]])
      (simp_all add: Cons.IH [OF Cons.prems])
  then show ?case using Cons.IH [OF Cons.prems] by (simp add: Let_def)
qed (auto intro!: ens_ret)

text \<open>The objects whose old names may go: found, at some time of the run, at every destination the
  plan has for them.\<close>

definition retired :: "Kernel \<Rightarrow> Plan \<Rightarrow> disk \<Rightarrow> ObjectID set" where
  "retired k plan a =
     {oid \<in> set (keys (desired plan)). \<exists>b. spares UNIV a b \<and> proven_at k b oid (get_or [] (desired plan) oid)}"

definition ranges :: "Run \<Rightarrow> bool" where
  "ranges run \<longleftrightarrow> (\<forall>xs. set (ruObjects run xs) = set xs) \<and> (\<forall>xs. set (ruNames run xs) = set xs)"

lemma ens_converge_object:
  assumes "quiet k" "ranges run" "oid \<in> set (keys (desired plan))"
  shows "ens (spares (retired k plan a) a) (converge_object run k root library oid (get_or [] (desired plan) oid) s)
    (converging (retired k plan a) a)"
  unfolding converge_object_def
proof (rule ens_pre, rule ens_bind [OF ens_proven [OF assms(1)]], rule ens_pre, goal_cases)
  case (1 b ok d)
  show ?case
  proof (cases "ok \<and> get (snObjects library) oid \<noteq> None")
    case True
    then have "proven_at k b oid (get_or [] (desired plan) oid)"
      using 1 assms(2) by (auto simp: proven_at_def ranges_def)
    then have "oid \<in> retired k plan a"
      using 1(1) assms(3) spares_mono [OF 1(1) subset_UNIV] by (auto simp: retired_def)
    from ens_at [OF ens_remove_aliases [OF assms(1) this] 1(1)]
    have "ens (\<lambda>d. d = b) (remove_aliases run k root oid names paths s) (converging (retired k plan a) a)" for names paths .
    then show ?thesis using True 1(2) by auto
  qed (use 1 in \<open>auto intro!: ens_ret\<close>)
qed auto

lemma ens_converge_objects:
  assumes "quiet k" "ranges run"
  shows "set oids \<subseteq> set (keys (desired plan)) \<Longrightarrow>
    ens (spares (retired k plan a) a) (converge_objects run k root library (desired plan) oids s)
      (converging (retired k plan a) a)"
proof (induction oids arbitrary: s)
  case (Cons oid oids)
  let ?X = "retired k plan a"
  have ctx: "ens (spares ?X a) (context_ended run) (\<lambda>r d. spares ?X a d \<and> (\<exists>b. r = Inr b))"
    by (simp add: ens_def context_ended_def)
  have one: "ens (spares ?X a) (bind_io (converge_object run k root library oid (get_or [] (desired plan) oid) s)
      (converge_objects run k root library (desired plan) oids)) (converging ?X a)"
    by (rule ens_bind [OF ens_converge_object [OF assms]])
      (use Cons in simp_all)
  show ?case
    unfolding converge_objects.simps
    by (rule ens_bind [OF ctx], rule ens_weaken [where P = "spares ?X a" and Q = "converging ?X a"])
      (use one in \<open>auto intro!: ens_ret\<close>)
qed (auto intro!: ens_ret)

lemma ens_converge:
  assumes "quiet k" "ranges run"
  shows "ens (\<lambda>d. d = a) (converge_aliases run k cfg plan library)
    (converging (retired k plan a) a)"
proof -
  have "set (ruObjects run (keys (desired plan))) \<subseteq> set (keys (desired plan))"
    using assms(2) by (simp add: ranges_def)
  from ens_at [OF ens_converge_objects [OF assms this] spares_refl] show ?thesis
    by (auto simp: converge_aliases_def Let_def intro!: ens_ret)
qed

section \<open>The properties\<close>



definition publish_kernel :: Kernel where
  "publish_kernel = sample_kernel\<lparr> knRoot := (\<lambda>d p.
     if p = ''/media/src'' then Some (node_id 1)
     else if p = ''/media/lib'' then Some (node_id 2)
     else if prefix ''/media/src/'' p then lookup d (node_id 1) (drop 11 p)
     else if prefix ''/media/lib/'' p then lookup d (node_id 2) (drop 11 p) else None) \<rparr>"

definition publish_run :: Run where
  "publish_run = \<lparr> ruCwd = ''/'', ruEnded = (\<lambda>_. False), ruObjects = (\<lambda>xs. xs), ruNames = (\<lambda>xs. xs) \<rparr>"

definition publish_config :: OrgConfig where
  "publish_config = \<lparr> ocSource = ''/media/src'', ocTarget = ''/media/lib'', ocExtensions = [], ocEmby = None,
     ocMovie = None, ocManaged = True, ocPublicationRoot = ''/media/lib'', ocBlacklist = [] \<rparr>"

definition publish_plan :: Plan where
  "publish_plan = \<lparr> plItems = [\<lparr> piSource = ''/media/src/ep'', piObject = Some (node_id 3), piRelative = ''ep'',
     piParents = [], piDestination = ''/media/lib/new'', piNormalized = ''ep'', piAction = ActionLink,
     piDetail = NoItemDetail \<rparr>], plWarnings = [] \<rparr>"

definition publish_library :: Snapshot where
  "publish_library = \<lparr> snRoot = ''/media/lib'', snRootExists = True, snRootObject = None,
     snObjects = [(node_id 3, \<lparr> oMeta = zero_metadata, oPaths = [''/media/lib/old''] \<rparr>)],
     snPaths = [(''/media/lib/old'', node_id 3)], snDirectories = [], snIssues = [] \<rparr>"

definition apply_run :: "(fs_error + outcome) \<times> Machine" where
  "apply_run = apply_plan publish_run publish_kernel publish_config publish_plan (machine sample_disk)"

definition publication :: "(fs_error + outcome) \<times> Machine" where
  "publication = apply_plan_with_library publish_run publish_kernel publish_config publish_plan publish_library
     (machine sample_disk)"

lemma quiet_publish: "quiet publish_kernel"
  using quiet_sample by (simp add: quiet_def publish_kernel_def)

lemma ranges_publish: "ranges publish_run"
  by (simp add: ranges_def publish_run_def)

lemma apply_run_ok: "fst apply_run = Inr (empty_result\<lparr> rsScanned := 1, rsLinked := 1 \<rparr>, [])"
  by code_simp

lemma publication_ok:
  "fst publication = Inr (empty_result\<lparr> rsScanned := 1, rsLinked := 1, rsRemoved := 1 \<rparr>, [])
   \<and> entries (mcDisk (snd publication)) (node_id 2) = [(''new'', node_id 3)]"
  by code_simp



end
