(* ===== verification/Spec2Isabelle.thy ===== *)
theory Spec2Isabelle
  imports PlanProofs Placement Store Sessions Publish
begin

text \<open>
  Aninode keeps a library of series and films in order: it observes the filesystem, reads the
  names of releases offered by feeds, decides which releases to acquire, places them below the
  directory of their Entry and publishes hardlinks into a media library. This development models
  the decisions of the program (the Go packages below internal/) and proves what they promise.

  Parts and theories, in the order they build on each other:

  \<^item> Prelude, GoStrings, GoText, Regex, GoPath: the Go maps (association lists in the order of
    iteration), stable insertion sort, and the part of strings, strconv, unicode/utf8, regexp and
    path/filepath the program uses. Regular expressions have RE2's leftmost-first semantics and are
    proved equal to a relation of spans; paths are cleaned to lists of components.
  \<^item> MediaName, MediaParser, MediaParse, MediaBatch (internal/medianame): traits, the lexer and
    grammar of release names, the strong and weak parsers with the bounded cache, and the analysis of
    a batch. Lemmas: the mutual recursion of the grammar ends, parsed numbers are within bounds,
    the cache changes no result, the cohorts partition the batch.
  \<^item> Identity, Torrent (acquisition, torrentmeta): identities of downloads and the bencode reader;
    its fuel is 2 * length + 3 and is proved never to run out; a printed torrent is read back.
  \<^item> Episode, ReleaseFilter (episode, release, releasefilter): keys of episodes as intervals and
    the filters of releases.
  \<^item> Physical (filesystem.go, mediafile): snapshots, the walk of a tree, projections. A snapshot
    keeps \<open>snap_ok\<close>: paths and objects are one relation.
  \<^item> Catalog, Folders, Inventory, Naming, Config (catalog, inventory, completeness, naming,
    configstore): Entries and their names, the evidence of folders, what is present, configuration.
  \<^item> Schedule, Candidate, PlanProofs (candidate): evaluation of releases and the choice of the best
    set. Weighted interval scheduling is stated as a locale (\<open>coverage_first\<close>), interpreted on the
    ranges of a season; the chosen set covers as many episodes as any legal one.
  \<^item> Placement (source, download): path mappings and where content may be placed.
  \<^item> Store (rss caches, cooldown): the locale \<open>bounded_store\<close>, interpreted on the cache of parsed
    names, of feeds, of metainfo and on the table of hosts; eviction returns an option, None if it
    did not end, and is proved to end.
  \<^item> Sessions (server/auth.go): the sign-in service as a step relation over the sections between
    which the handler releases its lock, with invariants of every reachable state.

  What is a parameter: the iteration order of a Go map where the result may depend on it, net/url
  and the digests, glob matching, the trees and answers the operating system reports, the clock and
  random bytes. Case mapping is ASCII; letters outside ASCII are their own lower case.

  Not modelled: HTTP and the pages of the server, the clients of the downloaders, the providers'
  markup readers, decoding and encoding of JSON files, process startup. They are input and output
  around the decisions modelled here.
\<close>

end
